(* ===== verification/Prelude.thy ===== *)
theory Prelude
  imports
    Main
    "HOL-Library.List_Lexorder"
    "HOL-Library.Char_ord"
    "HOL-Library.Product_Lexorder"
    "HOL-Library.Word"
begin

text \<open>
  Shared vocabulary of the development.

  \<^item> Results. A Go function that may return an \<open>error\<close> or panic becomes a function into
    \<open>'a res = error + 'a\<close>: \<open>Inl (Err m)\<close> is a returned error, \<open>Inl (Panic m)\<close> a panic and
    \<open>Inr x\<close> a normal return. \<open>bind_r\<close> sequences two such computations the way
    \<^verbatim>\<open>if err != nil { return err }\<close> and an unrecovered panic do.
  \<^item> Keeper operations. A method that reads and writes the stores behind an \<open>sdk.Context\<close>
    becomes an operation \<open>('s, 'a) op = 's \<Rightarrow> 'a res \<times> 's\<close>. The state is returned on the
    error branches as well, because a Go keeper that fails half way has already written
    to the store of its context.
  \<^item> Stores. \<open>('k, 'v) kvmap\<close> is an association list sorted by key: the ordered map that a
    KVStore or a \<open>collections.Map\<close> presents to a keeper (get, set, delete, iterate in
    key order).
\<close>

section \<open>Results\<close>

datatype error = Err string | Panic string

type_synonym 'a res = "error + 'a"

named_theorems keeps_intros \<open>operations that keep a relation between states\<close>
named_theorems res_simps \<open>inversion rules for results and operations\<close>

definition bind_r :: "'a res \<Rightarrow> ('a \<Rightarrow> 'b res) \<Rightarrow> 'b res" where
  "bind_r m f = (case m of Inl e \<Rightarrow> Inl e | Inr x \<Rightarrow> f x)"

definition assert_r :: "bool \<Rightarrow> error \<Rightarrow> unit res" where
  "assert_r b e = (if b then Inr () else Inl e)"

definition is_ok :: "'a res \<Rightarrow> bool" where
  "is_ok r = (case r of Inl _ \<Rightarrow> False | Inr _ \<Rightarrow> True)"

text \<open>The method of the Go runtime that turns a returned error into a panic:
  \<^verbatim>\<open>if err != nil { panic(err) }\<close>.\<close>

definition must :: "'a res \<Rightarrow> 'a res" where
  "must r = (case r of Inl (Err m) \<Rightarrow> Inl (Panic m) | _ \<Rightarrow> r)"

lemma bind_r_simps [simp]:
  "bind_r (Inl e) f = Inl e"
  "bind_r (Inr x) f = f x"
  by (simp_all add: bind_r_def)

lemma bind_r_Inr [res_simps]: "bind_r m f = Inr y \<longleftrightarrow> (\<exists>x. m = Inr x \<and> f x = Inr y)"
  by (cases m) simp_all

lemma bind_r_Inl [res_simps]:
  "bind_r m f = Inl e \<longleftrightarrow> m = Inl e \<or> (\<exists>x. m = Inr x \<and> f x = Inl e)"
  by (cases m) simp_all

lemma bind_r_assoc: "bind_r (bind_r m f) g = bind_r m (\<lambda>x. bind_r (f x) g)"
  by (cases m) simp_all

lemma bind_r_cong [fundef_cong]:
  assumes "m = m'" and "\<And>x. m' = Inr x \<Longrightarrow> f x = f' x"
  shows "bind_r m f = bind_r m' f'"
  using assms by (cases m') simp_all

lemma assert_r_simps [simp]:
  "assert_r b e = Inr u \<longleftrightarrow> b"
  "assert_r b e = Inl e' \<longleftrightarrow> \<not> b \<and> e' = e"
  "assert_r True e = Inr ()"
  "assert_r False e = Inl e"
  by (auto simp: assert_r_def)

lemma is_ok_simps [simp]: "is_ok (Inr x)" "\<not> is_ok (Inl e)"
  by (simp_all add: is_ok_def)

lemma is_ok_iff: "is_ok r \<longleftrightarrow> (\<exists>x. r = Inr x)"
  by (cases r) simp_all

lemma must_simps [simp]:
  "must (Inr x) = Inr x"
  "must (Inl (Err m)) = Inl (Panic m)"
  "must (Inl (Panic m)) = Inl (Panic m)"
  by (simp_all add: must_def)

lemma must_Inr [simp]: "must r = Inr x \<longleftrightarrow> r = Inr x"
  by (auto simp: must_def split: sum.splits error.splits)

text \<open>A loop over a slice whose body may fail, threading an accumulator.\<close>

fun fold_r :: "('b \<Rightarrow> 'a \<Rightarrow> 'b res) \<Rightarrow> 'b \<Rightarrow> 'a list \<Rightarrow> 'b res" where
  "fold_r f acc [] = Inr acc"
| "fold_r f acc (x # xs) = bind_r (f acc x) (\<lambda>acc'. fold_r f acc' xs)"

text \<open>A loop that builds a slice of the same length, failing at the first failing element.\<close>

fun map_r :: "('a \<Rightarrow> 'b res) \<Rightarrow> 'a list \<Rightarrow> 'b list res" where
  "map_r f [] = Inr []"
| "map_r f (x # xs) = bind_r (f x) (\<lambda>y. bind_r (map_r f xs) (\<lambda>ys. Inr (y # ys)))"

lemma fold_r_append:
  "fold_r f acc (xs @ ys) = bind_r (fold_r f acc xs) (\<lambda>acc'. fold_r f acc' ys)"
  by (induction xs arbitrary: acc) (simp_all add: bind_r_assoc)

lemma fold_r_cong [fundef_cong]:
  assumes "xs = ys" and "acc = acc'" and "\<And>a x. x \<in> set ys \<Longrightarrow> f a x = g a x"
  shows "fold_r f acc xs = fold_r g acc' ys"
proof -
  have "fold_r f acc ys = fold_r g acc ys"
    using assms(3) by (induction ys arbitrary: acc) simp_all
  with assms(1,2) show ?thesis by simp
qed

lemma fold_r_invariant:
  assumes "fold_r f acc xs = Inr acc'" and "I acc"
    and "\<And>a x a'. x \<in> set xs \<Longrightarrow> I a \<Longrightarrow> f a x = Inr a' \<Longrightarrow> I a'"
  shows "I acc'"
  using assms
proof (induction xs arbitrary: acc)
  case Nil
  then show ?case by simp
next
  case (Cons x xs)
  from Cons.prems(1) obtain a' where a': "f acc x = Inr a'" "fold_r f a' xs = Inr acc'"
    by (auto simp: res_simps)
  have "I a'" using Cons.prems(3)[OF _ Cons.prems(2) a'(1)] by simp
  with a'(2) show ?case by (rule Cons.IH) (rule Cons.prems(3), simp_all)
qed

lemma map_r_Inr: "map_r f xs = Inr ys \<longleftrightarrow> list_all2 (\<lambda>x y. f x = Inr y) xs ys"
proof (induction xs arbitrary: ys)
  case Nil
  show ?case by (cases ys) simp_all
next
  case (Cons x xs)
  then show ?case by (cases ys) (auto simp: res_simps)
qed

lemma map_r_total: "(\<And>x. x \<in> set xs \<Longrightarrow> f x = Inr (g x)) \<Longrightarrow> map_r f xs = Inr (map g xs)"
  by (induction xs) simp_all

section \<open>Keeper operations\<close>

type_synonym ('s, 'a) op = "'s \<Rightarrow> 'a res \<times> 's"

definition ret_op :: "'a \<Rightarrow> ('s, 'a) op" where
  "ret_op x = (\<lambda>s. (Inr x, s))"

definition fail_op :: "error \<Rightarrow> ('s, 'a) op" where
  "fail_op e = (\<lambda>s. (Inl e, s))"

definition bind_op :: "('s, 'a) op \<Rightarrow> ('a \<Rightarrow> ('s, 'b) op) \<Rightarrow> ('s, 'b) op" where
  "bind_op m f = (\<lambda>s. case m s of (Inl e, s') \<Rightarrow> (Inl e, s') | (Inr x, s') \<Rightarrow> f x s')"

definition seq_op :: "('s, 'a) op \<Rightarrow> ('s, 'b) op \<Rightarrow> ('s, 'b) op" where
  "seq_op m n = bind_op m (\<lambda>_. n)"

text \<open>Run a store-free computation, read the state, change the state.\<close>

definition lift_op :: "'a res \<Rightarrow> ('s, 'a) op" where
  "lift_op r = (\<lambda>s. (r, s))"

definition gets_op :: "('s \<Rightarrow> 'a) \<Rightarrow> ('s, 'a) op" where
  "gets_op f = (\<lambda>s. (Inr (f s), s))"

definition modify_op :: "('s \<Rightarrow> 's) \<Rightarrow> ('s, unit) op" where
  "modify_op f = (\<lambda>s. (Inr (), f s))"

definition assert_op :: "bool \<Rightarrow> error \<Rightarrow> ('s, unit) op" where
  "assert_op b e = lift_op (assert_r b e)"

definition must_op :: "('s, 'a) op \<Rightarrow> ('s, 'a) op" where
  "must_op m = (\<lambda>s. case m s of (r, s') \<Rightarrow> (must r, s'))"

definition when_op :: "bool \<Rightarrow> ('s, unit) op \<Rightarrow> ('s, unit) op" where
  "when_op b m = (if b then m else ret_op ())"

fun for_op :: "('a \<Rightarrow> ('s, unit) op) \<Rightarrow> 'a list \<Rightarrow> ('s, unit) op" where
  "for_op f [] = ret_op ()"
| "for_op f (x # xs) = seq_op (f x) (for_op f xs)"

fun fold_op :: "('b \<Rightarrow> 'a \<Rightarrow> ('s, 'b) op) \<Rightarrow> 'b \<Rightarrow> 'a list \<Rightarrow> ('s, 'b) op" where
  "fold_op f acc [] = ret_op acc"
| "fold_op f acc (x # xs) = bind_op (f acc x) (\<lambda>acc'. fold_op f acc' xs)"

lemma bind_op_apply:
  "bind_op m f s = (case m s of (Inl e, s') \<Rightarrow> (Inl e, s') | (Inr x, s') \<Rightarrow> f x s')"
  by (simp add: bind_op_def)

lemma op_Inr [res_simps]:
  "bind_op m f s = (Inr y, s'') \<longleftrightarrow> (\<exists>x s'. m s = (Inr x, s') \<and> f x s' = (Inr y, s''))"
  "seq_op m n s = (Inr y, s'') \<longleftrightarrow> (\<exists>x s'. m s = (Inr x, s') \<and> n s' = (Inr y, s''))"
  "ret_op y' s = (Inr y, s'') \<longleftrightarrow> y = y' \<and> s'' = s"
  "fail_op e s = (Inr y, s'') \<longleftrightarrow> False"
  "lift_op r s = (Inr y, s'') \<longleftrightarrow> r = Inr y \<and> s'' = s"
  "gets_op g s = (Inr y, s'') \<longleftrightarrow> y = g s \<and> s'' = s"
  "modify_op h s = (Inr u, s'') \<longleftrightarrow> s'' = h s"
  "assert_op b e s = (Inr u, s'') \<longleftrightarrow> b \<and> s'' = s"
  by (auto simp: bind_op_def seq_op_def ret_op_def fail_op_def lift_op_def gets_op_def
      modify_op_def assert_op_def assert_r_def split: prod.splits sum.splits)

text \<open>The forward reading of the combinators, used to evaluate operations.\<close>

lemma op_run:
  "ret_op y s = (Inr y, s)"
  "fail_op e s = (Inl e, s)"
  "lift_op r s = (r, s)"
  "gets_op g s = (Inr (g s), s)"
  "modify_op h s = (Inr (), h s)"
  "seq_op m n s = bind_op m (\<lambda>_. n) s"
  by (simp_all add: ret_op_def fail_op_def lift_op_def gets_op_def modify_op_def seq_op_def)

lemma bind_op_run:
  "m s = (Inr x, s') \<Longrightarrow> bind_op m f s = f x s'"
  "m s = (Inl e, s') \<Longrightarrow> bind_op m f s = (Inl e, s')"
  by (simp_all add: bind_op_def)

lemma must_op_Inr [res_simps]: "must_op m s = (Inr y, s') \<longleftrightarrow> m s = (Inr y, s')"
  by (auto simp: must_op_def split: prod.splits)

lemma must_op_run: "m s = (Inr x, s') \<Longrightarrow> must_op m s = (Inr x, s')"
  by (simp add: must_op_def)

lemma bind_op_assoc: "bind_op (bind_op m f) g = bind_op m (\<lambda>x. bind_op (f x) g)"
  by (auto simp: bind_op_def split: prod.splits sum.splits)

lemma bind_ret_op [simp]: "bind_op (ret_op x) f = f x"
  by (auto simp: bind_op_def ret_op_def)

lemma for_op_append: "for_op f (xs @ ys) = seq_op (for_op f xs) (for_op f ys)"
  by (induction xs) (simp_all add: seq_op_def bind_op_assoc)

text \<open>An invariant of the body of a loop is an invariant of the loop.\<close>

lemma for_op_invariant:
  assumes "for_op f xs s = (Inr u, s')" and "I s"
    and "\<And>x s u s'. x \<in> set xs \<Longrightarrow> I s \<Longrightarrow> f x s = (Inr u, s') \<Longrightarrow> I s'"
  shows "I s'"
  using assms
proof (induction xs arbitrary: s)
  case Nil
  then show ?case by (simp add: res_simps)
next
  case (Cons x xs)
  from Cons.prems(1) obtain v t where t: "f x s = (Inr v, t)" "for_op f xs t = (Inr u, s')"
    by (auto simp: res_simps)
  have "I t" using Cons.prems(3)[OF _ Cons.prems(2) t(1)] by simp
  with t(2) show ?case by (rule Cons.IH) (rule Cons.prems(3), simp_all)
qed

lemma when_op_Inr [res_simps]:
  "when_op b m s = (Inr u, s') \<longleftrightarrow> (if b then m s = (Inr u, s') else s' = s)"
  by (auto simp: when_op_def ret_op_def)

text \<open>A relation between the states before and after an operation, whether it succeeds or
  fails.\<close>

definition keeps :: "('s \<Rightarrow> 's \<Rightarrow> bool) \<Rightarrow> ('s, 'a) op \<Rightarrow> bool" where
  "keeps R m \<longleftrightarrow> (\<forall>s. R s (snd (m s)))"

lemma keepsD: "keeps R m \<Longrightarrow> m s = (r, s') \<Longrightarrow> R s s'"
  by (metis keeps_def snd_conv)

lemma keeps_pure [keeps_intros]:
  assumes "reflp R"
  shows "keeps R (ret_op x)" "keeps R (fail_op e)" "keeps R (lift_op r)" "keeps R (gets_op g)" "keeps R (assert_op b e)"
  using assms by (simp_all add: keeps_def ret_op_def fail_op_def lift_op_def gets_op_def assert_op_def reflpD)

lemma keeps_bind [keeps_intros]:
  assumes "transp R" and "keeps R m" and "\<And>x. keeps R (f x)"
  shows "keeps R (bind_op m f)"
  unfolding keeps_def
proof
  fix s
  obtain r s' where m: "m s = (r, s')" by fastforce
  then have "R s s'" using assms(2) by (metis keeps_def snd_conv)
  moreover have "R s' (snd (f x s'))" for x using assms(3) by (simp add: keeps_def)
  ultimately show "R s (snd (bind_op m f s))"
    using m by (cases r) (auto simp: bind_op_def intro: transpD[OF assms(1)])
qed

lemma keeps_seq [keeps_intros]: "transp R \<Longrightarrow> keeps R m \<Longrightarrow> keeps R n \<Longrightarrow> keeps R (seq_op m n)"
  unfolding seq_op_def by (rule keeps_bind)

lemma keeps_when [keeps_intros]: "reflp R \<Longrightarrow> (b \<Longrightarrow> keeps R m) \<Longrightarrow> keeps R (when_op b m)"
  by (simp add: when_op_def keeps_pure)

lemma keeps_for [keeps_intros]:
  "reflp R \<Longrightarrow> transp R \<Longrightarrow> (\<And>x. x \<in> set xs \<Longrightarrow> keeps R (f x)) \<Longrightarrow> keeps R (for_op f xs)"
  by (induction xs) (simp_all add: keeps_pure keeps_seq)

section \<open>Integer division\<close>

lemma div_bounds:
  fixes d P :: int
  assumes "0 < P"
  shows "P * (d div P) \<le> d" and "d < P * (d div P) + P"
proof -
  have "d = P * (d div P) + d mod P" by simp
  moreover have "0 \<le> d mod P" "d mod P < P" using assms by simp_all
  ultimately show "P * (d div P) \<le> d" and "d < P * (d div P) + P" by linarith+
qed

end
