(* ===== verification/KVMap.thy ===== *)
theory KVMap
  imports Prelude
begin

text \<open>
  Ordered key-value stores. The locale \<open>ordered_store\<close> is the contract a keeper relies
  on: lookup after update, after deletion, and iteration in ascending key order
  (\<^verbatim>\<open>src/core/store/store.go\<close>, interface \<open>KVStore\<close>). It is interpreted here on sorted
  association lists, the representation of the typed collections of the keepers, and in
  \<open>CacheKV\<close> on the cache-wrapped store.
\<close>

section \<open>The contract\<close>

locale ordered_store =
  fixes get :: "'s \<Rightarrow> 'k :: linorder \<Rightarrow> 'v option"
    and set_at :: "'s \<Rightarrow> 'k \<Rightarrow> 'v \<Rightarrow> 's"
    and del_at :: "'s \<Rightarrow> 'k \<Rightarrow> 's"
    and items :: "'s \<Rightarrow> ('k \<times> 'v) list"
    and inv :: "'s \<Rightarrow> bool"
  assumes inv_set: "inv s \<Longrightarrow> inv (set_at s k v)"
    and inv_del: "inv s \<Longrightarrow> inv (del_at s k)"
    and get_set: "inv s \<Longrightarrow> get (set_at s k v) k' = (if k = k' then Some v else get s k')"
    and get_del: "inv s \<Longrightarrow> get (del_at s k) k' = (if k = k' then None else get s k')"
    and items_sorted: "inv s \<Longrightarrow> sorted_wrt (<) (map fst (items s))"
    and get_items: "inv s \<Longrightarrow> get s k = map_of (items s) k"
begin

definition total :: "('k \<Rightarrow> 'v \<Rightarrow> int) \<Rightarrow> 's \<Rightarrow> int" where
  "total f s = sum_list (map (\<lambda>(k, v). f k v) (items s))"

definition at :: "('k \<Rightarrow> 'v \<Rightarrow> int) \<Rightarrow> 's \<Rightarrow> 'k \<Rightarrow> int" where
  "at f s k = (case get s k of None \<Rightarrow> 0 | Some v \<Rightarrow> f k v)"

lemma distinct_keys: "inv s \<Longrightarrow> distinct (map fst (items s))"
  using items_sorted[of s] by (simp add: strict_sorted_iff)

lemma in_items: "inv s \<Longrightarrow> (k, v) \<in> set (items s) \<longleftrightarrow> get s k = Some v"
  by (simp add: get_items distinct_keys)

lemma keys_items: "inv s \<Longrightarrow> fst ` set (items s) = {k. get s k \<noteq> None}"
  using get_items by (auto simp: map_of_eq_None_iff simp del: not_None_eq)

text \<open>Iteration is determined by the lookups: two stores that answer every lookup alike
  iterate alike.\<close>

lemma items_cong:
  assumes "inv s" and "inv s'" and "\<And>k. get s k = get s' k"
  shows "items s = items s'"
proof -
  have "set (items s) = set (items s')"
  proof (rule set_eqI)
    fix p :: "'k \<times> 'v"
    show "p \<in> set (items s) \<longleftrightarrow> p \<in> set (items s')"
      using assms by (cases p) (simp add: in_items)
  qed
  moreover have "inj_on fst (set (items s))" using distinct_keys[OF assms(1)] by (simp add: distinct_map)
  ultimately show ?thesis
    using items_sorted[OF assms(1)] items_sorted[OF assms(2)]
    by (intro map_sorted_distinct_set_unique[of fst]) (simp_all add: strict_sorted_iff)
qed

lemma total_eq_sum:
  assumes "inv s" and "finite A" and "{k. get s k \<noteq> None} \<subseteq> A"
  shows "total f s = (\<Sum>k\<in>A. at f s k)"
proof -
  have d: "distinct (items s)" using distinct_keys[OF assms(1)] by (simp add: distinct_map)
  have inj: "inj_on fst (set (items s))" using distinct_keys[OF assms(1)] by (simp add: distinct_map)
  have "total f s = (\<Sum>p\<in>set (items s). f (fst p) (snd p))"
    using d by (simp add: total_def sum_list_distinct_conv_sum_set case_prod_unfold)
  also have "\<dots> = (\<Sum>p\<in>set (items s). at f s (fst p))"
    using assms(1) by (intro sum.cong) (auto simp: at_def in_items)
  also have "\<dots> = (\<Sum>k\<in>fst ` set (items s). at f s k)" by (simp add: sum.reindex[OF inj])
  also have "\<dots> = (\<Sum>k\<in>A. at f s k)"
    using assms by (intro sum.mono_neutral_left) (auto simp: keys_items at_def)
  finally show ?thesis .
qed

lemma finite_keys: "inv s \<Longrightarrow> finite {k. get s k \<noteq> None}"
  using keys_items[of s] by (metis List.finite_set finite_imageI)

text \<open>A write changes a total by the difference at the key written.\<close>

lemma total_change:
  assumes "inv s" and "inv s'" and "\<And>k'. k' \<noteq> k \<Longrightarrow> get s' k' = get s k'"
  shows "total f s' = total f s - at f s k + at f s' k"
proof -
  let ?A = "insert k ({k. get s k \<noteq> None} \<union> {k. get s' k \<noteq> None})"
  have fin: "finite ?A" using finite_keys assms(1,2) by blast
  have "total f s = at f s k + (\<Sum>k\<in>?A - {k}. at f s k)"
    using total_eq_sum[OF assms(1) fin, of f] sum.remove[OF fin, of k "at f s"] by (simp add: subset_iff)
  moreover have "total f s' = at f s' k + (\<Sum>k\<in>?A - {k}. at f s' k)"
    using total_eq_sum[OF assms(2) fin, of f] sum.remove[OF fin, of k "at f s'"] by (simp add: subset_iff)
  moreover have "(\<Sum>k\<in>?A - {k}. at f s' k) = (\<Sum>k\<in>?A - {k}. at f s k)"
    using assms(3) by (intro sum.cong) (auto simp: at_def)
  ultimately show ?thesis by simp
qed

lemma total_set: "inv s \<Longrightarrow> total f (set_at s k v) = total f s - at f s k + f k v"
  using total_change[of s "set_at s k v" k f] by (simp add: inv_set get_set at_def)

lemma total_del: "inv s \<Longrightarrow> total f (del_at s k) = total f s - at f s k"
  using total_change[of s "del_at s k" k f] by (simp add: inv_del get_del at_def)

lemma at_le_total:
  assumes "inv s" and "\<And>k v. get s k = Some v \<Longrightarrow> 0 \<le> f k v"
  shows "at f s k \<le> total f s"
proof -
  let ?A = "insert k {k. get s k \<noteq> None}"
  have "total f s = (\<Sum>k\<in>?A. at f s k)" using assms(1) finite_keys by (intro total_eq_sum) auto
  also have "\<dots> \<ge> at f s k"
    using assms finite_keys by (intro member_le_sum) (auto simp: at_def split: option.splits)
  finally show ?thesis .
qed

end

section \<open>Sorted association lists\<close>

type_synonym ('k, 'v) kvmap = "('k \<times> 'v) list"

fun kv_get :: "('k :: linorder, 'v) kvmap \<Rightarrow> 'k \<Rightarrow> 'v option" where
  "kv_get [] k = None"
| "kv_get ((k', v') # m) k = (if k = k' then Some v' else if k < k' then None else kv_get m k)"

fun kv_set :: "('k :: linorder, 'v) kvmap \<Rightarrow> 'k \<Rightarrow> 'v \<Rightarrow> ('k, 'v) kvmap" where
  "kv_set [] k v = [(k, v)]"
| "kv_set ((k', v') # m) k v =
     (if k < k' then (k, v) # (k', v') # m else if k = k' then (k, v) # m else (k', v') # kv_set m k v)"

fun kv_del :: "('k :: linorder, 'v) kvmap \<Rightarrow> 'k \<Rightarrow> ('k, 'v) kvmap" where
  "kv_del [] k = []"
| "kv_del ((k', v') # m) k =
     (if k < k' then (k', v') # m else if k = k' then m else (k', v') # kv_del m k)"

definition kv_has :: "('k :: linorder, 'v) kvmap \<Rightarrow> 'k \<Rightarrow> bool" where
  "kv_has m k = (kv_get m k \<noteq> None)"

definition kv_wf :: "('k :: linorder, 'v) kvmap \<Rightarrow> bool" where
  "kv_wf m = sorted_wrt (<) (map fst m)"

lemma kv_wf_simps [simp]:
  "kv_wf []"
  "kv_wf ((k, v) # m) \<longleftrightarrow> (\<forall>k'\<in>fst ` set m. k < k') \<and> kv_wf m"
  by (auto simp: kv_wf_def)

lemma kv_set_keys: "fst ` set (kv_set m k v) = insert k (fst ` set m)"
  by (induction m k v rule: kv_set.induct) auto

lemma kv_del_keys: "fst ` set (kv_del m k) \<subseteq> fst ` set m"
  by (induction m k rule: kv_del.induct) auto

lemma kv_wf_set: "kv_wf m \<Longrightarrow> kv_wf (kv_set m k v)"
proof (induction m k v rule: kv_set.induct)
  case (2 k' v' m k v)
  then show ?case by (auto simp: kv_set_keys dest: less_trans)
qed simp

lemma kv_wf_del: "kv_wf m \<Longrightarrow> kv_wf (kv_del m k)"
proof (induction m k rule: kv_del.induct)
  case (2 k' v' m k)
  then show ?case using kv_del_keys[of m k] by (fastforce simp: subset_iff)
qed simp

lemma kv_get_notin: "k \<notin> fst ` set m \<Longrightarrow> kv_get m k = None"
  by (induction m k rule: kv_get.induct) auto

lemma kv_get_below: "\<forall>x\<in>set m. k < fst x \<Longrightarrow> kv_get m k = None"
  by (rule kv_get_notin) auto

lemma kv_get_set: "kv_wf m \<Longrightarrow> kv_get (kv_set m k v) k' = (if k = k' then Some v else kv_get m k')"
  by (induction m k v rule: kv_set.induct) auto

lemma kv_get_del: "kv_wf m \<Longrightarrow> kv_get (kv_del m k) k' = (if k = k' then None else kv_get m k')"
proof (induction m k rule: kv_del.induct)
  case (2 k1 v1 m k)
  have "kv_get m x = None" if "x \<le> k1" for x
    using 2 that by (intro kv_get_below) auto
  with 2 show ?case by auto
qed simp

lemma kv_get_map_of: "kv_wf m \<Longrightarrow> kv_get m k = map_of m k"
proof (induction m k rule: kv_get.induct)
  case (2 k' v' m k)
  have "map_of m k = None" if "k < k'"
    using 2 that by (auto simp: map_of_eq_None_iff dest: less_trans)
  with 2 show ?case by auto
qed simp

interpretation kv: ordered_store kv_get kv_set kv_del "\<lambda>m. m" kv_wf
proof unfold_locales
  fix m :: "('a, 'b) kvmap"
  show "kv_wf m \<Longrightarrow> sorted_wrt (<) (map fst m)" by (simp add: kv_wf_def)
qed (rule kv_wf_set kv_wf_del kv_get_set kv_get_del kv_get_map_of, assumption)+

lemma kv_has_iff [simp]: "kv_has m k \<longleftrightarrow> (\<exists>v. kv_get m k = Some v)"
  by (auto simp: kv_has_def)

lemma kv_has_set: "kv_wf m \<Longrightarrow> kv_has (kv_set m k v) k' \<longleftrightarrow> k = k' \<or> kv_has m k'"
  by (auto simp: kv_get_set)

end
