(* ===== verification/Codec.thy ===== *)
theory Codec
  imports Prelude "HOL-Library.Sublist"
begin

unbundle bit_operations_syntax

text \<open>
  Key codecs of the collections library (\<^verbatim>\<open>src/collections/codec/\<close>, \<^verbatim>\<open>src/collections/pair.go\<close>
  and the range bounds of \<^verbatim>\<open>src/collections/iter.go\<close>), and the prefix bounds of
  \<^verbatim>\<open>src/store/types/utils.go\<close>. A Go encoder writes into a zeroed buffer of \<open>Size(key)\<close>
  bytes; the model returns that buffer. The locale \<open>key_codec\<close> is the contract of a codec;
  it is interpreted on the codecs of byte strings, strings and 64-bit numbers, and pairs
  of codecs inherit it.
\<close>

type_synonym byte = "8 word"
type_synonym bytes = "8 word list"

record 'k KeyCodec =
  Encode :: "'k \<Rightarrow> bytes res"
  Decode :: "bytes \<Rightarrow> (nat \<times> 'k) res"
  EncodeNonTerminal :: "'k \<Rightarrow> bytes res"
  DecodeNonTerminal :: "bytes \<Rightarrow> (nat \<times> 'k) res"

section \<open>Byte keys\<close>

definition MaxBytesKeyNonTerminalSize :: nat where
  "MaxBytesKeyNonTerminalSize = 255"

definition bytesKey_EncodeNonTerminal :: "bytes \<Rightarrow> bytes res" where
  "bytesKey_EncodeNonTerminal key =
     (if length key > MaxBytesKeyNonTerminalSize then Inl (Err ''bytes key non terminal size'')
      else Inr (of_nat (length key) # key))"

definition bytesKey_DecodeNonTerminal :: "bytes \<Rightarrow> (nat \<times> bytes) res" where
  "bytesKey_DecodeNonTerminal buffer =
     (case buffer of
        [] \<Rightarrow> Inl (Err ''empty buffer'')
      | b # rest \<Rightarrow>
          let keyLength = unat b in
          if length rest < keyLength then Inl (Err ''buffer is not big enough'')
          else Inr (1 + keyLength, take keyLength rest))"

definition bytesKey :: "bytes KeyCodec" where
  "bytesKey = \<lparr>Encode = Inr, Decode = (\<lambda>buffer. Inr (length buffer, buffer)),
     EncodeNonTerminal = bytesKey_EncodeNonTerminal, DecodeNonTerminal = bytesKey_DecodeNonTerminal\<rparr>"

section \<open>String keys\<close>

text \<open>A Go \<open>range\<close> over a string visits the first byte of every UTF-8 sequence; an invalid
  byte counts as a sequence of its own. \<open>rune_width\<close> is the width of the first sequence.\<close>

definition cont :: "byte \<Rightarrow> bool" where
  "cont b = (0x80 \<le> b \<and> b \<le> 0xBF)"

definition second_ok :: "byte \<Rightarrow> byte \<Rightarrow> bool" where
  "second_ok b0 b1 =
     (if b0 = 0xE0 then 0xA0 \<le> b1 \<and> b1 \<le> 0xBF
      else if b0 = 0xED then 0x80 \<le> b1 \<and> b1 \<le> 0x9F
      else if b0 = 0xF0 then 0x90 \<le> b1 \<and> b1 \<le> 0xBF
      else if b0 = 0xF4 then 0x80 \<le> b1 \<and> b1 \<le> 0x8F
      else cont b1)"

definition rune_width :: "bytes \<Rightarrow> nat" where
  "rune_width s =
     (case s of
        b0 # b1 # rest \<Rightarrow>
          if 0xC2 \<le> b0 \<and> b0 \<le> 0xDF \<and> cont b1 then 2
          else if 0xE0 \<le> b0 \<and> b0 \<le> 0xEF \<and> second_ok b0 b1 then
            (case rest of b2 # _ \<Rightarrow> if cont b2 then 3 else 1 | [] \<Rightarrow> 1)
          else if 0xF0 \<le> b0 \<and> b0 \<le> 0xF4 \<and> second_ok b0 b1 then
            (case rest of b2 # b3 # _ \<Rightarrow> if cont b2 \<and> cont b3 then 4 else 1 | _ \<Rightarrow> 1)
          else 1
      | _ \<Rightarrow> 1)"

definition StringDelimiter :: byte where
  "StringDelimiter = 0"

text \<open>The loop of \<open>EncodeNonTerminal\<close>: only the visited positions of the buffer are written.\<close>

function stringKey_write :: "bytes \<Rightarrow> bytes res" where
  "stringKey_write [] = Inr []"
| "stringKey_write (c # cs) =
     (if c = StringDelimiter then Inl (Err ''string delimiter in non terminal encoding'')
      else let w = rune_width (c # cs) in
        bind_r (stringKey_write (drop (w - 1) cs)) (\<lambda>r.
          Inr (c # replicate (min (w - 1) (length cs)) 0 @ r)))"
  by pat_completeness auto
termination by (relation "measure length") auto

definition stringKey_EncodeNonTerminal :: "bytes \<Rightarrow> bytes res" where
  "stringKey_EncodeNonTerminal key = bind_r (stringKey_write key) (\<lambda>buffer. Inr (buffer @ [0]))"

definition stringKey_DecodeNonTerminal :: "bytes \<Rightarrow> (nat \<times> bytes) res" where
  "stringKey_DecodeNonTerminal buffer =
     (let key = takeWhile (\<lambda>b. b \<noteq> StringDelimiter) buffer in
      if length key = length buffer then Inl (Err ''not a valid non terminal buffer'')
      else Inr (length key + 1, key))"

definition stringKey :: "bytes KeyCodec" where
  "stringKey = \<lparr>Encode = Inr, Decode = (\<lambda>buffer. Inr (length buffer, buffer)),
     EncodeNonTerminal = stringKey_EncodeNonTerminal, DecodeNonTerminal = stringKey_DecodeNonTerminal\<rparr>"

section \<open>Number keys\<close>

definition PutUint64 :: "64 word \<Rightarrow> bytes" where
  "PutUint64 v = map (\<lambda>i. ucast (drop_bit (8 * i) v)) [7, 6, 5, 4, 3, 2, 1, 0]"

definition Uint64_be :: "bytes \<Rightarrow> 64 word" where
  "Uint64_be b = foldr (\<lambda>(i, x) acc. acc OR push_bit (8 * i) (ucast x)) (zip [7, 6, 5, 4, 3, 2, 1, 0] b) 0"

definition uint64Key_Decode :: "bytes \<Rightarrow> (nat \<times> 64 word) res" where
  "uint64Key_Decode buffer =
     (if length buffer < 8 then Inl (Err ''wanted at least 8'') else Inr (8, Uint64_be buffer))"

definition uint64Key :: "64 word KeyCodec" where
  "uint64Key = \<lparr>Encode = (\<lambda>key. Inr (PutUint64 key)), Decode = uint64Key_Decode,
     EncodeNonTerminal = (\<lambda>key. Inr (PutUint64 key)), DecodeNonTerminal = uint64Key_Decode\<rparr>"

section \<open>Pairs\<close>

text \<open>Both parts of a \<open>Pair\<close> are pointers; a prefix of a range has only the first.\<close>

type_synonym ('a, 'b) Pair = "'a option \<times> 'b option"

definition Join :: "'a \<Rightarrow> 'b \<Rightarrow> ('a, 'b) Pair" where
  "Join k1 k2 = (Some k1, Some k2)"

definition PairPrefix :: "'a \<Rightarrow> ('a, 'b) Pair" where
  "PairPrefix k1 = (Some k1, None)"

definition enc_opt :: "('k \<Rightarrow> bytes res) \<Rightarrow> 'k option \<Rightarrow> bytes res" where
  "enc_opt f k = (case k of None \<Rightarrow> Inr [] | Some x \<Rightarrow> f x)"

definition pair_enc :: "('a \<Rightarrow> bytes res) \<Rightarrow> ('b \<Rightarrow> bytes res) \<Rightarrow> ('a, 'b) Pair \<Rightarrow> bytes res" where
  "pair_enc e1 e2 p =
     bind_r (enc_opt e1 (fst p)) (\<lambda>b1. bind_r (enc_opt e2 (snd p)) (\<lambda>b2. Inr (b1 @ b2)))"

definition pair_dec :: "(bytes \<Rightarrow> (nat \<times> 'a) res) \<Rightarrow> (bytes \<Rightarrow> (nat \<times> 'b) res) \<Rightarrow> bytes \<Rightarrow> (nat \<times> ('a, 'b) Pair) res" where
  "pair_dec d1 d2 buffer =
     bind_r (d1 buffer) (\<lambda>(read1, key1).
     bind_r (d2 (drop read1 buffer)) (\<lambda>(read2, key2). Inr (read1 + read2, Join key1 key2)))"

definition PairKeyCodec :: "'a KeyCodec \<Rightarrow> 'b KeyCodec \<Rightarrow> ('a, 'b) Pair KeyCodec" where
  "PairKeyCodec c1 c2 =
     \<lparr>Encode = pair_enc (EncodeNonTerminal c1) (Encode c2),
      Decode = pair_dec (DecodeNonTerminal c1) (Decode c2),
      EncodeNonTerminal = pair_enc (EncodeNonTerminal c1) (EncodeNonTerminal c2),
      DecodeNonTerminal = pair_dec (DecodeNonTerminal c1) (DecodeNonTerminal c2)\<rparr>"

definition EncodeKeyWithPrefix :: "bytes \<Rightarrow> 'k KeyCodec \<Rightarrow> 'k \<Rightarrow> bytes res" where
  "EncodeKeyWithPrefix pfx kc key = bind_r (Encode kc key) (\<lambda>b. Inr (pfx @ b))"

text \<open>\<open>Iterator.Key\<close>: the namespace is stripped and the key has to be consumed fully.\<close>

definition Iterator_Key :: "nat \<Rightarrow> 'k KeyCodec \<Rightarrow> bytes \<Rightarrow> 'k res" where
  "Iterator_Key prefixLength kc k =
     (let bytesKey = drop prefixLength k in
      bind_r (Decode kc bytesKey) (\<lambda>(read, key).
        if read \<noteq> length bytesKey then Inl (Err ''key decoder did not fully consume the key'')
        else Inr key))"

section \<open>Range bounds\<close>

fun inc_last :: "bytes \<Rightarrow> bytes option" where
  "inc_last [] = None"
| "inc_last (b # rest) = (if b \<noteq> 255 then Some ((b + 1) # rest) else inc_last rest)"

text \<open>The loop works on the end of the slice: \<open>inc_last\<close> sees it reversed.\<close>

definition nextBytesPrefixKey :: "bytes \<Rightarrow> bytes option" where
  "nextBytesPrefixKey pfx =
     (if pfx = [] then None else map_option rev (inc_last (rev pfx)))"

definition PrefixEndBytes :: "bytes \<Rightarrow> bytes option" where
  "PrefixEndBytes pfx =
     (if length pfx = 0 then None else map_option rev (inc_last (rev pfx)))"

definition InclusiveEndBytes :: "bytes \<Rightarrow> bytes" where
  "InclusiveEndBytes inclusiveBytes = inclusiveBytes @ [0x00]"

definition Uint64ToBigEndian :: "64 word \<Rightarrow> bytes" where
  "Uint64ToBigEndian i = PutUint64 i"

definition BigEndianToUint64 :: "bytes \<Rightarrow> 64 word res" where
  "BigEndianToUint64 bz =
     (if length bz = 0 then Inr 0
      else if length bz < 8 then Inl (Panic ''index out of range'') else Inr (Uint64_be bz))"

text \<open>The loop over the sorted keys compares every key with its predecessor.\<close>

fun noCommonPrefix_loop :: "bytes list \<Rightarrow> unit res" where
  "noCommonPrefix_loop (a # b # rest) =
     (if prefix a b then Inl (Panic ''Potential key collision between KVStores'')
      else noCommonPrefix_loop (b # rest))"
| "noCommonPrefix_loop _ = Inr ()"

definition assertNoCommonPrefix :: "bytes list \<Rightarrow> unit res" where
  "assertNoCommonPrefix keys = noCommonPrefix_loop (sort keys)"

definition nextBytesKey :: "bytes \<Rightarrow> bytes" where
  "nextBytesKey b = b @ [0]"

datatype rangeKeyKind = rangeKeyExact | rangeKeyNext | rangeKeyPrefixEnd

definition encodeRangeBound :: "bytes \<Rightarrow> 'k KeyCodec \<Rightarrow> rangeKeyKind \<Rightarrow> 'k \<Rightarrow> bytes option res" where
  "encodeRangeBound pfx kc kind key =
     bind_r (EncodeKeyWithPrefix pfx kc key) (\<lambda>k.
       Inr (case kind of
              rangeKeyExact \<Rightarrow> Some k
            | rangeKeyNext \<Rightarrow> Some (nextBytesKey k)
            | rangeKeyPrefixEnd \<Rightarrow> nextBytesPrefixKey k))"

section \<open>The contract of a codec\<close>

locale key_codec =
  fixes c :: "'k KeyCodec"
    and ok :: "'k \<Rightarrow> bool"
    and ok_nt :: "'k \<Rightarrow> bool"
  assumes enc_total: "ok k \<Longrightarrow> \<exists>b. Encode c k = Inr b"
    and dec_enc: "ok k \<Longrightarrow> Encode c k = Inr b \<Longrightarrow> Decode c b = Inr (length b, k)"
    and enc_nt_total: "ok_nt k \<Longrightarrow> \<exists>b. EncodeNonTerminal c k = Inr b"
    and dec_enc_nt: "ok_nt k \<Longrightarrow> EncodeNonTerminal c k = Inr b \<Longrightarrow>
      DecodeNonTerminal c (b @ rest) = Inr (length b, k)"
begin

lemma enc_inj: "ok k \<Longrightarrow> ok k' \<Longrightarrow> Encode c k = Inr b \<Longrightarrow> Encode c k' = Inr b \<Longrightarrow> k = k'"
  using dec_enc[of k b] dec_enc[of k' b] by simp

text \<open>Non-terminal encodings are uniquely decodable: none is a proper prefix of another.\<close>

lemma enc_nt_prefix_free:
  assumes "ok_nt k" and "ok_nt k'" and "EncodeNonTerminal c k = Inr b" and "EncodeNonTerminal c k' = Inr b'"
    and "prefix b b'"
  shows "k = k' \<and> b = b'"
proof -
  obtain r where r: "b' = b @ r" using assms(5) by (auto simp: prefix_def)
  have "DecodeNonTerminal c b' = Inr (length b, k)" using dec_enc_nt[OF assms(1,3)] r by simp
  moreover have "DecodeNonTerminal c b' = Inr (length b', k')" using dec_enc_nt[OF assms(2,4), of "[]"] by simp
  ultimately show ?thesis using assms(3,4) by simp
qed

text \<open>What a typed collection stores under a key is found again by its iterator.\<close>

lemma iterator_key:
  assumes "ok k" and "EncodeKeyWithPrefix p c k = Inr b"
  shows "Iterator_Key (length p) c b = Inr k"
proof -
  obtain b' where "Encode c k = Inr b'" "b = p @ b'"
    using assms(2) by (auto simp: EncodeKeyWithPrefix_def res_simps)
  then show ?thesis using dec_enc[OF assms(1)] by (simp add: Iterator_Key_def Let_def)
qed

end

lemma bytesKey_sel [simp]:
  "Encode bytesKey = Inr" "Decode bytesKey = (\<lambda>b. Inr (length b, b))"
  "EncodeNonTerminal bytesKey = bytesKey_EncodeNonTerminal"
  "DecodeNonTerminal bytesKey = bytesKey_DecodeNonTerminal"
  by (simp_all add: bytesKey_def)

interpretation bytes_codec: key_codec bytesKey "\<lambda>_. True" "\<lambda>k. length k \<le> MaxBytesKeyNonTerminalSize"
proof unfold_locales
  fix k b rest :: bytes
  assume *: "length k \<le> MaxBytesKeyNonTerminalSize" "EncodeNonTerminal bytesKey k = Inr b"
  then have "b = of_nat (length k) # k" by (auto simp: bytesKey_EncodeNonTerminal_def split: if_splits)
  moreover have "unat (of_nat (length k) :: 8 word) = length k"
    using *(1) by (simp add: unat_of_nat MaxBytesKeyNonTerminalSize_def)
  ultimately show "DecodeNonTerminal bytesKey (b @ rest) = Inr (length b, k)"
    by (simp add: bytesKey_DecodeNonTerminal_def Let_def)
qed (simp_all add: bytesKey_EncodeNonTerminal_def)

definition ascii_key :: "bytes \<Rightarrow> bool" where
  "ascii_key s \<longleftrightarrow> (\<forall>b\<in>set s. 0 < b \<and> b < 0x80)"

lemma stringKey_sel [simp]:
  "Encode stringKey = Inr" "Decode stringKey = (\<lambda>b. Inr (length b, b))"
  "EncodeNonTerminal stringKey = stringKey_EncodeNonTerminal"
  "DecodeNonTerminal stringKey = stringKey_DecodeNonTerminal"
  by (simp_all add: stringKey_def)

lemma rune_width_ascii: "c < 0x80 \<Longrightarrow> rune_width (c # cs) = 1"
proof -
  assume "c < 0x80"
  then have "\<not> 0xC2 \<le> c" "\<not> 0xE0 \<le> c" "\<not> 0xF0 \<le> c"
    by (auto simp: word_less_nat_alt word_le_nat_alt)
  then show ?thesis by (simp add: rune_width_def split: list.splits)
qed

lemma stringKey_write_ascii: "ascii_key s \<Longrightarrow> stringKey_write s = Inr s"
  by (induction s) (auto simp: ascii_key_def rune_width_ascii StringDelimiter_def Let_def)

interpretation string_codec: key_codec stringKey "\<lambda>_. True" ascii_key
proof unfold_locales
  fix k b rest :: bytes
  assume *: "ascii_key k" "EncodeNonTerminal stringKey k = Inr b"
  then have "b = k @ [0]" by (simp add: stringKey_EncodeNonTerminal_def stringKey_write_ascii)
  moreover have "takeWhile (\<lambda>x. x \<noteq> 0) (k @ 0 # rest) = k"
    using *(1) by (subst takeWhile_append2) (auto simp: ascii_key_def)
  ultimately show "DecodeNonTerminal stringKey (b @ rest) = Inr (length b, k)"
    by (simp add: stringKey_DecodeNonTerminal_def StringDelimiter_def Let_def)
qed (simp_all add: stringKey_EncodeNonTerminal_def stringKey_write_ascii)


section \<open>Big-endian numbers\<close>

definition be_val :: "bytes \<Rightarrow> nat" where
  "be_val bs = foldl (\<lambda>acc b. acc * 256 + unat b) 0 bs"

lemma be_val_foldl: "foldl (\<lambda>acc b. acc * 256 + unat b) a bs = a * 256 ^ length bs + be_val bs"
  unfolding be_val_def
proof (induction bs arbitrary: a)
  case (Cons b bs)
  from Cons.IH[of "a * 256 + unat b"] Cons.IH[of "unat b"] show ?case by (simp add: algebra_simps)
qed simp

lemma be_val_simps [simp]:
  "be_val [] = 0"
  "be_val (b # bs) = unat b * 256 ^ length bs + be_val bs"
  using be_val_foldl[of "unat b" bs] by (simp_all add: be_val_def)

lemma unat_less_pow: "unat (w :: 'a :: len word) < 2 ^ LENGTH('a)"
  by (rule unsigned_less)

lemma be_val_less: "be_val bs < 256 ^ length bs"
proof (induction bs)
  case (Cons b bs)
  have le: "unat b + 1 \<le> 256" using unat_less_pow[of b] by simp
  have "be_val (b # bs) < unat b * 256 ^ length bs + 256 ^ length bs" using Cons by simp
  also have "\<dots> = (unat b + 1) * 256 ^ length bs" by simp
  also have "\<dots> \<le> 256 * 256 ^ length bs" using le by (rule mult_right_mono) simp
  finally show ?case by simp
qed simp

lemma be_val_lex: "length xs = length ys \<Longrightarrow> xs < ys \<longleftrightarrow> be_val xs < be_val ys"
proof (induction xs ys rule: list_induct2)
  case (Cons x xs y ys)
  let ?P = "256 ^ length ys :: nat"
  have b: "be_val xs < ?P" "be_val ys < ?P" using be_val_less[of xs] be_val_less[of ys] Cons.hyps by simp_all
  consider "unat x < unat y" | "unat x = unat y" | "unat y < unat x" by linarith
  then show ?case
  proof cases
    case 1
    then have "(unat x + 1) * ?P \<le> unat y * ?P" by (intro mult_right_mono) simp_all
    with 1 b Cons.hyps show ?thesis by (simp add: word_less_nat_alt)
  next
    case 2
    then have "x = y" by (simp add: word_unat_eq_iff)
    then show ?thesis using Cons by simp
  next
    case 3
    then have "(unat y + 1) * ?P \<le> unat x * ?P" by (intro mult_right_mono) simp_all
    with 3 b Cons.hyps show ?thesis by (simp add: word_less_nat_alt) (metis not_less_iff_gr_or_eq unsigned_word_eqI)
  qed
qed simp

lemma PutUint64_val: "be_val (PutUint64 v) = unat v"
proof -
  have d: "be_val (map (\<lambda>i. ucast (drop_bit (8 * i) v)) (rev [0..<k])) = unat v mod 256 ^ k" for k
  proof (induction k)
    case (Suc k)
    have "unat (drop_bit (8 * k) v) = drop_bit (8 * k) (unat v)"
      using unat_less_pow[of v] by (simp only: unsigned_drop_bit_eq) (simp add: take_bit_nat_eq_self)
    then have "unat (drop_bit (8 * k) v) = unat v div 256 ^ k"
      by (simp only: drop_bit_eq_div power_mult) simp
    then have "unat (ucast (drop_bit (8 * k) v) :: 8 word) = (unat v div 256 ^ k) mod 256"
      by (simp only: unsigned_ucast_eq take_bit_eq_mod) simp
    moreover have "unat v mod (256 * 256 ^ k) = unat v div 256 ^ k mod 256 * 256 ^ k + unat v mod 256 ^ k"
      using mod_mult2_eq[of "unat v" "256 ^ k" 256] by (metis mult.commute)
    ultimately show ?case using Suc by simp
  qed simp
  have "[7, 6, 5, 4, 3, 2, 1, 0] = rev [0..<8 :: nat]" by (simp add: upt_rec)
  moreover have "unat v mod 256 ^ 8 = unat v" using unat_less_pow[of v] by simp
  ultimately show ?thesis unfolding PutUint64_def using d[of 8] by simp
qed

lemma Uint64_be_Put: "Uint64_be (PutUint64 v @ rest) = v"
proof (rule bit_word_eqI)
  fix n :: nat
  assume "n < LENGTH(64)"
  then consider "n < 8" | "8 \<le> n" "n < 16" | "16 \<le> n" "n < 24" | "24 \<le> n" "n < 32" | "32 \<le> n" "n < 40"
    | "40 \<le> n" "n < 48" | "48 \<le> n" "n < 56" | "56 \<le> n" "n < 64" by fastforce
  then show "bit (Uint64_be (PutUint64 v @ rest)) n = bit v n"
    by cases (auto simp: Uint64_be_def PutUint64_def bit_simps)
qed

lemma uint64Key_sel [simp]:
  "Encode uint64Key = (\<lambda>k. Inr (PutUint64 k))" "Decode uint64Key = uint64Key_Decode"
  "EncodeNonTerminal uint64Key = (\<lambda>k. Inr (PutUint64 k))" "DecodeNonTerminal uint64Key = uint64Key_Decode"
  by (simp_all add: uint64Key_def)

lemma PutUint64_length [simp]: "length (PutUint64 v) = 8"
  by (simp add: PutUint64_def)

interpretation uint64_codec: key_codec uint64Key "\<lambda>_. True" "\<lambda>_. True"
proof unfold_locales
  fix k :: "64 word" and b rest :: bytes
  assume "EncodeNonTerminal uint64Key k = Inr b"
  then show "DecodeNonTerminal uint64Key (b @ rest) = Inr (length b, k)"
    by (auto simp: uint64Key_Decode_def Uint64_be_Put)
next
  fix k :: "64 word" and b :: bytes
  assume "Encode uint64Key k = Inr b"
  then show "Decode uint64Key b = Inr (length b, k)"
    using Uint64_be_Put[of k "[]"] by (auto simp: uint64Key_Decode_def)
qed simp_all

text \<open>C32: numbers are stored in an order-preserving way: the byte order of two encodings
  is the numeric order, and \<open>BigEndianToUint64\<close> reads back what \<open>Uint64ToBigEndian\<close> wrote.\<close>

theorem Uint64ToBigEndian_order_iso:
  "(Uint64ToBigEndian a < Uint64ToBigEndian b \<longleftrightarrow> a < b) \<and> BigEndianToUint64 (Uint64ToBigEndian a) = Inr a"
  using be_val_lex[of "PutUint64 a" "PutUint64 b"] Uint64_be_Put[of a "[]"]
  by (auto simp: Uint64ToBigEndian_def BigEndianToUint64_def PutUint64_val word_less_nat_alt)

section \<open>Prefix bounds\<close>

lemma inc_last_append:
  "inc_last (xs @ ys) = (case inc_last xs of Some e \<Rightarrow> Some (e @ ys) | None \<Rightarrow> inc_last ys)"
  by (induction xs) auto

lemma nextBytesPrefixKey_Cons:
  "nextBytesPrefixKey (b # p) =
     (case nextBytesPrefixKey p of
        Some e \<Rightarrow> Some (b # e)
      | None \<Rightarrow> if b \<noteq> 255 then Some [b + 1] else None)"
  by (auto simp: nextBytesPrefixKey_def inc_last_append split: option.splits)

lemma byte_less_inc: "b \<noteq> 255 \<Longrightarrow> x < b + 1 \<longleftrightarrow> x \<le> b" for b x :: byte
proof -
  assume "b \<noteq> 255"
  then have "unat b \<noteq> 255" by (simp add: word_unat_eq_iff)
  then have "unat b + 1 < 256" using unat_less_pow[of b] by simp
  then have "unat (b + 1) = unat b + 1" by (simp add: unat_word_ariths)
  then show ?thesis by (simp add: word_less_nat_alt word_le_nat_alt less_Suc_eq_le)
qed

lemma byte_max: "x \<le> (255 :: byte)"
  using unat_less_pow[of x] by (simp add: word_le_nat_alt)

lemma prefix_range:
  "prefix p k \<longleftrightarrow> p \<le> k \<and> (case nextBytesPrefixKey p of None \<Rightarrow> True | Some e \<Rightarrow> k < e)"
proof (induction p arbitrary: k)
  case Nil
  then show ?case by (simp add: nextBytesPrefixKey_def)
next
  case (Cons b p)
  show ?case
  proof (cases k)
    case Nil
    then show ?thesis by simp
  next
    case (Cons x k')
    have "prefix (b # p) (x # k') \<longleftrightarrow> b = x \<and> prefix p k'" by auto
    then show ?thesis
      unfolding Cons nextBytesPrefixKey_Cons
      using Cons.IH[of k'] byte_less_inc[of b x] byte_max[of x]
      by (auto split: option.splits)
  qed
qed

text \<open>C30: the half-open range that \<open>PrefixEndBytes\<close> closes contains exactly the keys with
  the prefix, also when the prefix ends in bytes FF or consists of them.\<close>

theorem PrefixEndBytes_exact:
  "p \<le> k \<and> (case PrefixEndBytes p of None \<Rightarrow> True | Some e \<Rightarrow> k < e) \<longleftrightarrow> prefix p k"
  using prefix_range[of p k] by (simp add: PrefixEndBytes_def nextBytesPrefixKey_def)

section \<open>Pair keys\<close>

lemma PairKeyCodec_sel [simp]:
  "Encode (PairKeyCodec c1 c2) = pair_enc (EncodeNonTerminal c1) (Encode c2)"
  "Decode (PairKeyCodec c1 c2) = pair_dec (DecodeNonTerminal c1) (Decode c2)"
  "EncodeNonTerminal (PairKeyCodec c1 c2) = pair_enc (EncodeNonTerminal c1) (EncodeNonTerminal c2)"
  "DecodeNonTerminal (PairKeyCodec c1 c2) = pair_dec (DecodeNonTerminal c1) (DecodeNonTerminal c2)"
  by (simp_all add: PairKeyCodec_def)

definition pair_ok :: "('a \<Rightarrow> bool) \<Rightarrow> ('b \<Rightarrow> bool) \<Rightarrow> ('a, 'b) Pair \<Rightarrow> bool" where
  "pair_ok f g p = (case p of (Some a, Some b) \<Rightarrow> f a \<and> g b | _ \<Rightarrow> False)"

lemma pair_okE:
  assumes "pair_ok f g p"
  obtains a b where "p = Join a b" and "f a" and "g b"
  using assms by (cases p) (auto simp: pair_ok_def Join_def split: option.splits)

lemma pair_enc_Join:
  "pair_enc e1 e2 (Join a b) = Inr r \<longleftrightarrow> (\<exists>x y. e1 a = Inr x \<and> e2 b = Inr y \<and> r = x @ y)"
  by (auto simp: pair_enc_def Join_def enc_opt_def res_simps)

text \<open>Two lawful codecs make a lawful pair codec.\<close>

lemma pair_codec:
  assumes "key_codec c1 ok1 nt1" and "key_codec c2 ok2 nt2"
  shows "key_codec (PairKeyCodec c1 c2) (pair_ok nt1 ok2) (pair_ok nt1 nt2)"
proof -
  note c1 = key_codec.enc_nt_total[OF assms(1)] key_codec.dec_enc_nt[OF assms(1)]
  note c2 = key_codec.enc_total[OF assms(2)] key_codec.dec_enc[OF assms(2)]
    key_codec.enc_nt_total[OF assms(2)] key_codec.dec_enc_nt[OF assms(2)]
  show ?thesis
  proof unfold_locales
    fix k :: "('a, 'b) Pair" and r rest :: bytes
    show "\<exists>r. Encode (PairKeyCodec c1 c2) k = Inr r" if "pair_ok nt1 ok2 k"
      using that c1(1) c2(1) by (elim pair_okE) (simp add: pair_enc_Join, blast)
    show "\<exists>r. EncodeNonTerminal (PairKeyCodec c1 c2) k = Inr r" if "pair_ok nt1 nt2 k"
      using that c1(1) c2(3) by (elim pair_okE) (simp add: pair_enc_Join, blast)
    show "Decode (PairKeyCodec c1 c2) r = Inr (length r, k)"
      if "pair_ok nt1 ok2 k" "Encode (PairKeyCodec c1 c2) k = Inr r"
      using that by (elim pair_okE) (auto simp: pair_enc_Join pair_dec_def c1(2) c2(2))
    show "DecodeNonTerminal (PairKeyCodec c1 c2) (r @ rest) = Inr (length r, k)"
      if "pair_ok nt1 nt2 k" "EncodeNonTerminal (PairKeyCodec c1 c2) k = Inr r"
      using that by (elim pair_okE) (auto simp: pair_enc_Join pair_dec_def c1(2) c2(4))
  qed
qed

interpretation balance_codec: key_codec "PairKeyCodec bytesKey stringKey"
  "pair_ok (\<lambda>k. length k \<le> MaxBytesKeyNonTerminalSize) (\<lambda>_. True)"
  "pair_ok (\<lambda>k. length k \<le> MaxBytesKeyNonTerminalSize) ascii_key"
  by (rule pair_codec) (rule bytes_codec.key_codec_axioms string_codec.key_codec_axioms)+

text \<open>C31: a prefixed pair range over the keys of the bank balances (address, denomination)
  visits exactly the entries of that address: no entry is missed and none of another
  address, for example a longer one with the same leading bytes, is included.\<close>

theorem balance_range_exact:
  assumes "length a \<le> MaxBytesKeyNonTerminalSize" and "length a0 \<le> MaxBytesKeyNonTerminalSize"
    and "EncodeKeyWithPrefix pfx (PairKeyCodec bytesKey stringKey) (Join a d) = Inr k"
    and "encodeRangeBound pfx (PairKeyCodec bytesKey stringKey) rangeKeyExact (PairPrefix a0) = Inr lo"
    and "encodeRangeBound pfx (PairKeyCodec bytesKey stringKey) rangeKeyPrefixEnd (PairPrefix a0) = Inr hi"
  shows "(case lo of Some l \<Rightarrow> l \<le> k | None \<Rightarrow> True) \<and> (case hi of Some h \<Rightarrow> k < h | None \<Rightarrow> True) \<longleftrightarrow> a = a0"
proof -
  obtain ea where ea: "bytesKey_EncodeNonTerminal a = Inr ea" "k = pfx @ ea @ d"
    using assms(3) by (auto simp: EncodeKeyWithPrefix_def pair_enc_Join res_simps)
  obtain e0 where e0: "bytesKey_EncodeNonTerminal a0 = Inr e0"
    "lo = Some (pfx @ e0)" "hi = nextBytesPrefixKey (pfx @ e0)"
    using assms(4,5)
    by (auto simp: encodeRangeBound_def EncodeKeyWithPrefix_def pair_enc_def PairPrefix_def enc_opt_def res_simps)
  have "prefix e0 (ea @ d) \<longleftrightarrow> a = a0"
  proof
    assume "prefix e0 (ea @ d)"
    then obtain r where r: "ea @ d = e0 @ r" by (auto simp: prefix_def)
    have "bytesKey_DecodeNonTerminal (ea @ d) = Inr (length ea, a)"
      using bytes_codec.dec_enc_nt[OF assms(1), of ea d] ea(1) by simp
    moreover have "bytesKey_DecodeNonTerminal (e0 @ r) = Inr (length e0, a0)"
      using bytes_codec.dec_enc_nt[OF assms(2), of e0 r] e0(1) by simp
    ultimately show "a = a0" unfolding r by (simp only: sum.inject prod.inject)
  next
    assume "a = a0"
    with ea e0 show "prefix e0 (ea @ d)" by simp
  qed
  then show ?thesis using prefix_range[of "pfx @ e0" k] ea(2) e0(2,3) by simp
qed

lemma balance_range_exact_witness:
  "(case Some [2, 1, 7] of Some l \<Rightarrow> l \<le> [2, 1, 7, 97 :: byte] | None \<Rightarrow> True)
   \<and> (case Some [2, 1, 8] of Some h \<Rightarrow> [2, 1, 7, 97 :: byte] < h | None \<Rightarrow> True) \<longleftrightarrow> [7] = [7 :: byte]"
  by (rule balance_range_exact[of "[7]" "[7]" "[2]" "[97]"])
     (simp_all add: MaxBytesKeyNonTerminalSize_def EncodeKeyWithPrefix_def pair_enc_def Join_def PairPrefix_def
       enc_opt_def bytesKey_EncodeNonTerminal_def encodeRangeBound_def nextBytesPrefixKey_def)

section \<open>Store keys\<close>

lemma prefix_le: "prefix p k \<Longrightarrow> p \<le> k" for p k :: bytes
  by (simp add: prefix_range)

lemma prefix_between: "prefix a c \<Longrightarrow> a \<le> b \<Longrightarrow> b \<le> c \<Longrightarrow> prefix a b" for a b c :: bytes
  unfolding prefix_range[of a] by (auto split: option.splits)

lemma noCommonPrefix_loop_sorted:
  "sorted ks \<Longrightarrow> noCommonPrefix_loop ks = Inr () \<longleftrightarrow> sorted_wrt (\<lambda>a b. \<not> prefix a b) ks"
proof (induction ks rule: noCommonPrefix_loop.induct)
  case (1 a b rest)
  have "\<forall>c\<in>set rest. \<not> prefix a c" if "\<not> prefix a b"
    using 1(2) that prefix_between[of a _ b] by auto
  with 1 show ?case by auto
qed simp_all

lemma sorted_wrt_no_prefix:
  fixes ks :: "bytes list"
  assumes "sorted ks"
  shows "sorted_wrt (\<lambda>a b. \<not> prefix a b) ks \<longleftrightarrow>
    distinct ks \<and> (\<forall>a\<in>set ks. \<forall>b\<in>set ks. a \<noteq> b \<longrightarrow> \<not> prefix a b)"
  using assms
proof (induction ks)
  case (Cons k ks)
  then show ?case using prefix_le by (auto dest: order.antisym)
qed simp

text \<open>C33: comparing neighbours of the sorted store names is enough:
  \<open>assertNoCommonPrefix\<close> accepts a list of store keys exactly when they are pairwise
  different and none is a prefix of another.\<close>

theorem assertNoCommonPrefix_iff:
  "assertNoCommonPrefix keys = Inr () \<longleftrightarrow>
     distinct keys \<and> (\<forall>a\<in>set keys. \<forall>b\<in>set keys. a \<noteq> b \<longrightarrow> \<not> prefix a b)"
  using noCommonPrefix_loop_sorted[of "sort keys"] sorted_wrt_no_prefix[of "sort keys"]
  by (simp add: assertNoCommonPrefix_def)

lemma assertNoCommonPrefix_iff_witness:
  "assertNoCommonPrefix [[98, 97], [97]] = Inr () \<and> \<not> assertNoCommonPrefix [[98, 97], [98]] = Inr ()"
  unfolding assertNoCommonPrefix_iff by simp

end
