(* ===== verification/CacheKV.thy ===== *)
theory CacheKV
  imports KVMap Codec
begin

text \<open>
  The cache-wrapped store, \<^verbatim>\<open>src/store/cachekv/\<close>. A Go map is represented by the ordered
  map with the same entries; the code only ranges over its maps to collect keys it then
  sorts or to delete entries, so the order is not observable. The B-tree of the sorted
  cache and the parent store are represented by the ordered maps they implement, an
  iterator by the list of the entries it still has to visit. Mutexes are left out:
  operations are atomic steps.
\<close>

section \<open>The store\<close>

record cValue =
  cval :: "bytes option"
  dirty :: bool

record cstore =
  cache :: "(bytes, cValue) kvmap"
  unsortedCache :: "(bytes, unit) kvmap"
  sortedCache :: "(bytes, bytes option) kvmap"
  parent :: "(bytes, bytes) kvmap"

definition MaxKeyLength :: nat where
  "MaxKeyLength = 2 ^ 17 - 1"

definition MaxValueLength :: nat where
  "MaxValueLength = 2 ^ 31 - 1"

definition AssertValidKey :: "bytes \<Rightarrow> unit res" where
  "AssertValidKey key =
     (if length key = 0 then Inl (Panic ''key is nil or empty'')
      else if length key > MaxKeyLength then Inl (Panic ''key is too large'') else Inr ())"

definition AssertValidValue :: "bytes option \<Rightarrow> unit res" where
  "AssertValidValue v =
     (case v of
        None \<Rightarrow> Inl (Panic ''value is nil'')
      | Some b \<Rightarrow> if length b > MaxValueLength then Inl (Panic ''value is too large'') else Inr ())"

definition NewStore :: "(bytes, bytes) kvmap \<Rightarrow> cstore" where
  "NewStore p = \<lparr>cache = [], unsortedCache = [], sortedCache = [], parent = p\<rparr>"

definition setCacheValue :: "cstore \<Rightarrow> bytes \<Rightarrow> bytes option \<Rightarrow> bool \<Rightarrow> cstore" where
  "setCacheValue s key v d =
     (let s' = s\<lparr>cache := kv_set (cache s) key \<lparr>cval = v, dirty = d\<rparr>\<rparr> in
      if d then s'\<lparr>unsortedCache := kv_set (unsortedCache s') key ()\<rparr> else s')"

definition Cache_Get :: "bytes \<Rightarrow> (cstore, bytes option) op" where
  "Cache_Get key =
     bind_op (lift_op (AssertValidKey key)) (\<lambda>_ s.
       case kv_get (cache s) key of
         None \<Rightarrow> let v = kv_get (parent s) key in (Inr v, setCacheValue s key v False)
       | Some c \<Rightarrow> (Inr (cval c), s))"

definition Cache_Set :: "bytes \<Rightarrow> bytes option \<Rightarrow> (cstore, unit) op" where
  "Cache_Set key v =
     bind_op (lift_op (AssertValidKey key)) (\<lambda>_.
     bind_op (lift_op (AssertValidValue v)) (\<lambda>_.
     modify_op (\<lambda>s. setCacheValue s key v True)))"

definition Cache_Has :: "bytes \<Rightarrow> (cstore, bool) op" where
  "Cache_Has key = bind_op (Cache_Get key) (\<lambda>v. ret_op (v \<noteq> None))"

definition Cache_Delete :: "bytes \<Rightarrow> (cstore, unit) op" where
  "Cache_Delete key =
     bind_op (lift_op (AssertValidKey key)) (\<lambda>_. modify_op (\<lambda>s. setCacheValue s key None True))"

definition resetCaches :: "cstore \<Rightarrow> cstore" where
  "resetCaches s = s\<lparr>cache := [], unsortedCache := [], sortedCache := []\<rparr>"

definition write_entry :: "(bytes, bytes) kvmap \<Rightarrow> bytes \<times> cValue \<Rightarrow> (bytes, bytes) kvmap" where
  "write_entry p e = (case cval (snd e) of Some v \<Rightarrow> kv_set p (fst e) v | None \<Rightarrow> kv_del p (fst e))"

definition Cache_Write :: "cstore \<Rightarrow> cstore" where
  "Cache_Write s =
     (if cache s = [] \<and> unsortedCache s = [] then s\<lparr>sortedCache := []\<rparr>
      else let entries = sort_key fst (filter (\<lambda>e. dirty (snd e)) (cache s)); s' = resetCaches s in
        s'\<lparr>parent := foldl write_entry (parent s') entries\<rparr>)"

section \<open>Searching the unsorted keys\<close>

text \<open>The backward scan \<^verbatim>\<open>for i := mid - 1; i >= 0; i--\<close> for the first position whose predecessor
  fails the test.\<close>

fun scan_back :: "(bytes \<Rightarrow> bool) \<Rightarrow> bytes list \<Rightarrow> nat \<Rightarrow> nat" where
  "scan_back stop strL 0 = 0"
| "scan_back stop strL (Suc i) = (if stop (strL ! i) then Suc i else scan_back stop strL i)"

function findStart_loop :: "bytes list \<Rightarrow> bytes \<Rightarrow> int \<Rightarrow> int \<Rightarrow> int" where
  "findStart_loop strL startQ left right =
     (if left \<le> right then
        let mid = (left + right) div 2; midStr = strL ! nat mid in
        if midStr = startQ then int (scan_back (\<lambda>x. x \<noteq> midStr) strL (nat mid))
        else if midStr < startQ then findStart_loop strL startQ (mid + 1) right
        else findStart_loop strL startQ left (mid - 1)
      else if 0 \<le> left \<and> left < int (length strL) \<and> startQ \<le> strL ! nat left then left else - 1)"
  by pat_completeness auto
termination by (relation "measure (\<lambda>(strL, q, l, r). nat (r - l + 1))") auto

declare findStart_loop.simps [simp del]

definition findStartIndex :: "bytes list \<Rightarrow> bytes \<Rightarrow> int" where
  "findStartIndex strL startQ =
     (if length strL = 0 then - 1 else findStart_loop strL startQ 0 (int (length strL) - 1))"

text \<open>The final scan \<^verbatim>\<open>for i := right; i >= 0; i--\<close> of \<open>findEndIndex\<close>; the argument is \<open>right + 1\<close>.\<close>

fun scan_less :: "bytes list \<Rightarrow> bytes \<Rightarrow> nat \<Rightarrow> int" where
  "scan_less strL endQ 0 = - 1"
| "scan_less strL endQ (Suc i) = (if strL ! i < endQ then int i else scan_less strL endQ i)"

function findEnd_loop :: "bytes list \<Rightarrow> bytes \<Rightarrow> int \<Rightarrow> int \<Rightarrow> int" where
  "findEnd_loop strL endQ left right =
     (if left \<le> right then
        let mid = (left + right) div 2; midStr = strL ! nat mid in
        if midStr = endQ then int (scan_back (\<lambda>x. x < midStr) strL (nat mid))
        else if midStr < endQ then findEnd_loop strL endQ (mid + 1) right
        else findEnd_loop strL endQ left (mid - 1)
      else scan_less strL endQ (nat (right + 1)))"
  by pat_completeness auto
termination by (relation "measure (\<lambda>(strL, q, l, r). nat (r - l + 1))") auto

declare findEnd_loop.simps [simp del]

definition findEndIndex :: "bytes list \<Rightarrow> bytes \<Rightarrow> int" where
  "findEndIndex strL endQ =
     (if length strL = 0 then - 1 else findEnd_loop strL endQ 0 (int (length strL) - 1))"

definition minSortSize :: int where
  "minSortSize = 1024"

section \<open>Collecting the dirty items of a range\<close>

text \<open>The bounds of an iterator; \<open>None\<close> is Go's \<open>nil\<close>.\<close>

definition IsKeyInDomain :: "bytes \<Rightarrow> bytes option \<Rightarrow> bytes option \<Rightarrow> bool" where
  "IsKeyInDomain key start endk =
     ((case start of None \<Rightarrow> True | Some s \<Rightarrow> s \<le> key) \<and> (case endk of None \<Rightarrow> True | Some e \<Rightarrow> key < e))"

definition cached_value :: "cstore \<Rightarrow> bytes \<Rightarrow> bytes option" where
  "cached_value s key = (case kv_get (cache s) key of Some c \<Rightarrow> cval c | None \<Rightarrow> None)"

definition clearUnsortedCacheSubset :: "cstore \<Rightarrow> (bytes \<times> bytes option) list \<Rightarrow> cstore" where
  "clearUnsortedCacheSubset s unsorted =
     (let u = (if length unsorted = length (unsortedCache s) then []
               else foldl (\<lambda>m e. kv_del m (fst e)) (unsortedCache s) unsorted);
          sc = foldl (\<lambda>m e. kv_set m (fst e) (snd e)) (sortedCache s) (sort_key fst unsorted) in
      s\<lparr>unsortedCache := u, sortedCache := sc\<rparr>)"

text \<open>The index range of the large case, before and after it is widened.\<close>

definition dirty_range :: "bytes list \<Rightarrow> bytes option \<Rightarrow> bytes option \<Rightarrow> int \<times> int" where
  "dirty_range strL start endk =
     (let n = int (length strL);
          startIndex0 = findStartIndex strL (case start of Some s \<Rightarrow> s | None \<Rightarrow> []);
          startIndex = (if startIndex0 < 0 then 0 else startIndex0);
          endIndex0 = (case endk of None \<Rightarrow> n - 1 | Some e \<Rightarrow> findEndIndex strL e);
          endIndex = (if endIndex0 < 0 then n - 1 else endIndex0) in
      if endIndex - startIndex < minSortSize then
        let endIndex' = min (startIndex + minSortSize) (n - 1) in
        if endIndex' - startIndex < minSortSize then (max (endIndex' - minSortSize) 0, endIndex')
        else (startIndex, endIndex')
      else (startIndex, endIndex))"

definition dirtyItems :: "cstore \<Rightarrow> bytes option \<Rightarrow> bytes option \<Rightarrow> cstore" where
  "dirtyItems s start endk =
     (let startStr = (case start of Some x \<Rightarrow> x | None \<Rightarrow> []) in
      if (case endk of Some e \<Rightarrow> startStr > e | None \<Rightarrow> False) then s
      else
        let strL = map fst (unsortedCache s); n = int (length strL) in
        if n < minSortSize then
          clearUnsortedCacheSubset s
            (map (\<lambda>k. (k, cached_value s k)) (filter (\<lambda>k. IsKeyInDomain k start endk) strL))
        else
          let (startIndex, endIndex) = dirty_range strL start endk in
          clearUnsortedCacheSubset s
            (map (\<lambda>i. let k = strL ! nat i in (k, cached_value s k)) [startIndex..endIndex]))"

section \<open>Iterators\<close>

definition keyInRange :: "bool \<Rightarrow> bytes option \<Rightarrow> bytes option \<Rightarrow> bytes \<Rightarrow> bool" where
  "keyInRange ascending start endk key =
     (if ascending then (case endk of Some e \<Rightarrow> \<not> e \<le> key | None \<Rightarrow> True)
      else (case start of Some s \<Rightarrow> \<not> key < s | None \<Rightarrow> True))"

text \<open>The iterator of the parent, by the contract of a KVStore.\<close>

definition parent_iterator :: "bytes option \<Rightarrow> bytes option \<Rightarrow> (bytes, 'v) kvmap \<Rightarrow> bool \<Rightarrow> (bytes \<times> 'v) list" where
  "parent_iterator start endk items ascending =
     (let xs = filter (\<lambda>e. IsKeyInDomain (fst e) start endk) items in if ascending then xs else rev xs)"

definition memIterator :: "bytes option \<Rightarrow> bytes option \<Rightarrow> (bytes, 'v) kvmap \<Rightarrow> bool \<Rightarrow> (bytes \<times> 'v) list" where
  "memIterator start endk items ascending =
     takeWhile (\<lambda>e. keyInRange ascending start endk (fst e))
       (if ascending
        then (case start of Some s \<Rightarrow> dropWhile (\<lambda>e. fst e < s) items | None \<Rightarrow> items)
        else (case endk of Some x \<Rightarrow> dropWhile (\<lambda>e. x \<le> fst e) (rev items) | None \<Rightarrow> rev items))"

definition before :: "bool \<Rightarrow> bytes \<Rightarrow> bytes \<Rightarrow> bool" where
  "before ascending a b = (if ascending then a < b else b < a)"

fun skipCacheDeletes :: "bool \<Rightarrow> bytes option \<Rightarrow> (bytes \<times> bytes option) list \<Rightarrow> (bytes \<times> bytes option) list" where
  "skipCacheDeletes ascending until [] = []"
| "skipCacheDeletes ascending until ((k, v) # cs) =
     (if v = None \<and> (case until of None \<Rightarrow> True | Some u \<Rightarrow> before ascending k u)
      then skipCacheDeletes ascending until cs else (k, v) # cs)"

lemma skipCacheDeletes_length: "length (skipCacheDeletes ascending until cs) \<le> length cs"
  by (induction cs) auto

function skipUntilExistsOrInvalid :: "bool \<Rightarrow> (bytes \<times> bytes) list \<Rightarrow> (bytes \<times> bytes option) list
    \<Rightarrow> (bytes \<times> bytes) list \<times> (bytes \<times> bytes option) list \<times> bool" where
  "skipUntilExistsOrInvalid ascending [] cs =
     (let cs' = skipCacheDeletes ascending None cs in ([], cs', cs' \<noteq> []))"
| "skipUntilExistsOrInvalid ascending (p # ps) [] = (p # ps, [], True)"
| "skipUntilExistsOrInvalid ascending (p # ps) ((k, v) # cs) =
     (if before ascending (fst p) k then (p # ps, (k, v) # cs, True)
      else if fst p = k then
        (if v = None then skipUntilExistsOrInvalid ascending ps cs else (p # ps, (k, v) # cs, True))
      else if v = None then
        skipUntilExistsOrInvalid ascending (p # ps) (skipCacheDeletes ascending (Some (fst p)) ((k, v) # cs))
      else (p # ps, (k, v) # cs, True))"
  by pat_completeness auto
termination
proof (relation "measure (\<lambda>(_, ps, cs). length ps + length cs)", goal_cases)
  case (3 ascending p ps k v cs)
  then have "before ascending k (fst p)" by (auto simp: before_def split: if_splits)
  with 3 show ?case using skipCacheDeletes_length[of ascending "Some (fst p)" cs] by simp
qed auto

text \<open>\<open>Next\<close> on a valid iterator, before it skips.\<close>

definition merge_advance :: "bool \<Rightarrow> (bytes \<times> bytes) list \<Rightarrow> (bytes \<times> bytes option) list
    \<Rightarrow> (bytes \<times> bytes) list \<times> (bytes \<times> bytes option) list" where
  "merge_advance ascending ps cs =
     (case (ps, cs) of
        ([], _) \<Rightarrow> ([], tl cs)
      | (_ # ps', []) \<Rightarrow> (ps', [])
      | (p # ps', c # cs') \<Rightarrow>
          if before ascending (fst p) (fst c) then (ps', cs)
          else if fst p = fst c then (ps', cs')
          else (ps, cs'))"

definition merge_Key :: "bool \<Rightarrow> (bytes \<times> bytes) list \<Rightarrow> (bytes \<times> bytes option) list \<Rightarrow> bytes" where
  "merge_Key ascending ps cs =
     (case (ps, cs) of
        ([], _) \<Rightarrow> fst (hd cs)
      | (p # _, []) \<Rightarrow> fst p
      | (p # _, c # _) \<Rightarrow>
          if before ascending (fst p) (fst c) then fst p else if fst p = fst c then fst p else fst c)"

definition merge_Value :: "bool \<Rightarrow> (bytes \<times> bytes) list \<Rightarrow> (bytes \<times> bytes option) list \<Rightarrow> bytes option" where
  "merge_Value ascending ps cs =
     (case (ps, cs) of
        ([], _) \<Rightarrow> snd (hd cs)
      | (p # _, []) \<Rightarrow> Some (snd p)
      | (p # _, c # _) \<Rightarrow> if before ascending (fst p) (fst c) then Some (snd p) else snd c)"

lemma skipUntil_length:
  "skipUntilExistsOrInvalid ascending ps cs = (ps', cs', ok) \<Longrightarrow>
     length ps' + length cs' \<le> length ps + length cs \<and> (ok \<longrightarrow> ps' \<noteq> [] \<or> cs' \<noteq> [])"
proof (induction ascending ps cs rule: skipUntilExistsOrInvalid.induct)
  case (1 ascending cs)
  then show ?case using skipCacheDeletes_length[of ascending None cs] by (auto simp: Let_def)
next
  case (3 ascending p ps k v cs)
  then show ?case
    using skipCacheDeletes_length[of ascending "Some (fst p)" "(k, v) # cs"]
    by (auto split: if_splits simp del: skipCacheDeletes.simps)
qed auto

lemma merge_advance_length:
  "ps \<noteq> [] \<or> cs \<noteq> [] \<Longrightarrow> merge_advance ascending ps cs = (ps', cs') \<Longrightarrow>
     length ps' + length cs' < length ps + length cs"
  by (auto simp: merge_advance_def split: list.splits if_splits)

lemma merge_step_length:
  assumes "skipUntilExistsOrInvalid ascending ps cs = (ps', cs', True)"
    and "merge_advance ascending ps' cs' = (ps'', cs'')"
  shows "length ps'' + length cs'' < length ps + length cs"
  using skipUntil_length[OF assms(1)] merge_advance_length[OF _ assms(2)] by auto

text \<open>All entries that a merge iterator visits, from \<open>NewCacheMergeIterator\<close> until it is
  invalid.\<close>

function merge_entries :: "bool \<Rightarrow> (bytes \<times> bytes) list \<Rightarrow> (bytes \<times> bytes option) list
    \<Rightarrow> (bytes \<times> bytes option) list" where
  "merge_entries ascending ps cs =
     (case skipUntilExistsOrInvalid ascending ps cs of
        (ps', cs', ok) \<Rightarrow>
          if \<not> ok then []
          else (merge_Key ascending ps' cs', merge_Value ascending ps' cs') #
            (case merge_advance ascending ps' cs' of (ps'', cs'') \<Rightarrow> merge_entries ascending ps'' cs''))"
  by pat_completeness auto
termination
proof (relation "measure (\<lambda>(_, ps, cs). length ps + length cs)", goal_cases)
  case (2 ascending ps cs ps' y cs' ok ps'' cs'')
  then have "skipUntilExistsOrInvalid ascending ps cs = (ps', cs', True)"
    "merge_advance ascending ps' cs' = (ps'', cs'')" by auto
  from merge_step_length[OF this] show ?case by simp
qed simp

declare merge_entries.simps [simp del]

definition empty_bound :: "bytes option \<Rightarrow> bool" where
  "empty_bound b = (case b of Some k \<Rightarrow> length k = 0 | None \<Rightarrow> False)"

definition Cache_iterator :: "bytes option \<Rightarrow> bytes option \<Rightarrow> bool \<Rightarrow> (cstore, (bytes \<times> bytes option) list) op" where
  "Cache_iterator start endk ascending s =
     (let s' = dirtyItems s start endk in
      if empty_bound start \<or> empty_bound endk then (Inl (Panic ''key cannot be empty''), s')
      else (Inr (merge_entries ascending
              (parent_iterator start endk (parent s') ascending)
              (memIterator start endk (sortedCache s') ascending)), s'))"

section \<open>The merge iterator\<close>

lemma before_rules:
  "\<not> before asc a a"
  "before asc a b \<Longrightarrow> before asc b c \<Longrightarrow> before asc a c"
  "before asc a b \<or> a = b \<or> before asc b a"
  "before asc a b \<Longrightarrow> \<not> before asc b a"
  by (auto simp: before_def dest: less_trans less_not_sym split: if_splits)

definition rsorted :: "bool \<Rightarrow> (bytes \<times> 'v) list \<Rightarrow> bool" where
  "rsorted asc xs = sorted_wrt (before asc) (map fst xs)"

lemma rsorted_simps [simp]:
  "rsorted asc []"
  "rsorted asc (x # xs) \<longleftrightarrow> (\<forall>y\<in>set xs. before asc (fst x) (fst y)) \<and> rsorted asc xs"
  by (auto simp: rsorted_def)

lemma rsorted_not_in: "\<forall>y\<in>set xs. before asc k (fst y) \<Longrightarrow> map_of xs k = None"
  using before_rules(1) by (force simp: map_of_eq_None_iff)

lemma rsorted_distinct: "rsorted asc xs \<Longrightarrow> distinct (map fst xs)"
  by (induction xs) (auto simp: before_rules(1) dest: bspec)

lemma rsorted_map_of: "rsorted asc xs \<Longrightarrow> (k, v) \<in> set xs \<longleftrightarrow> map_of xs k = Some v"
  by (simp add: rsorted_distinct)

text \<open>The entries a reader is to see: the cache shadows the parent.\<close>

definition overlay :: "(bytes \<times> bytes) list \<Rightarrow> (bytes \<times> bytes option) list \<Rightarrow> bytes \<Rightarrow> bytes option" where
  "overlay ps cs k = (case map_of cs k of Some v \<Rightarrow> v | None \<Rightarrow> map_of ps k)"

lemma skipCacheDeletes_spec:
  assumes "rsorted asc cs"
    and "\<And>k. (case until of None \<Rightarrow> True | Some u \<Rightarrow> before asc k u) \<Longrightarrow> map_of ps k = None"
  shows "rsorted asc (skipCacheDeletes asc until cs) \<and> set (skipCacheDeletes asc until cs) \<subseteq> set cs
    \<and> (\<forall>k. overlay ps (skipCacheDeletes asc until cs) k = overlay ps cs k)"
  using assms(1)
proof (induction cs)
  case (Cons c cs)
  obtain k v where c: "c = (k, v)" by (cases c)
  show ?case
  proof (cases "v = None \<and> (case until of None \<Rightarrow> True | Some u \<Rightarrow> before asc k u)")
    case True
    then have "map_of ps k = None" using assms(2) by blast
    moreover have "map_of cs k = None" using Cons.prems c by (intro rsorted_not_in[of _ asc]) simp
    ultimately have "overlay ps cs x = overlay ps (c # cs) x" for x
      using True c by (auto simp: overlay_def)
    with Cons True c show ?thesis by auto
  next
    case False
    then show ?thesis using Cons.prems c by auto
  qed
qed simp

lemma skipUntil_spec:
  assumes "skipUntilExistsOrInvalid asc ps cs = (ps', cs', ok)" and "rsorted asc ps" and "rsorted asc cs"
  shows "rsorted asc ps' \<and> rsorted asc cs' \<and> (\<forall>k. overlay ps' cs' k = overlay ps cs k)
    \<and> (ok \<longrightarrow> merge_Value asc ps' cs' \<noteq> None \<and> (ps' \<noteq> [] \<or> cs' \<noteq> [])) \<and> (\<not> ok \<longrightarrow> ps' = [] \<and> cs' = [])"
  using assms
proof (induction asc ps cs rule: skipUntilExistsOrInvalid.induct)
  case (1 asc cs)
  let ?cs = "skipCacheDeletes asc None cs"
  have "snd (hd ?cs) \<noteq> None" if "?cs \<noteq> []"
    using that by (induction cs) (auto split: if_splits)
  moreover have eqs: "ps' = []" "cs' = ?cs" "ok \<longleftrightarrow> ?cs \<noteq> []" using "1.prems"(1) by (auto simp: Let_def)
  ultimately show ?case using skipCacheDeletes_spec[OF "1.prems"(3), of None "[]"]
    by (auto simp: merge_Value_def)
next
  case (2 asc p ps)
  then show ?case by (auto simp: merge_Value_def)
next
  case (3 asc p ps k v cs)
  consider (lt) "before asc (fst p) k" | (eqd) "fst p = k" "v = None" | (eq) "fst p = k" "v \<noteq> None"
    | (gtd) "before asc k (fst p)" "v = None" | (gt) "before asc k (fst p)" "v \<noteq> None"
    using before_rules(3)[of asc "fst p" k] by blast
  then show ?case
  proof cases
    case eqd
    have "overlay ps cs x = overlay (p # ps) ((k, v) # cs) x" for x
      using eqd "3.prems"(2,3) rsorted_not_in[of ps asc k] rsorted_not_in[of cs asc k]
      by (cases p) (auto simp: overlay_def split: option.splits)
    with 3 eqd before_rules(1)[of asc k] show ?thesis by simp
  next
    case gtd
    have ne: "\<not> before asc (fst p) k" "fst p \<noteq> k" using gtd before_rules(1,4) by blast+
    have "map_of (p # ps) x = None" if "before asc x (fst p)" for x
      using that "3.prems"(2) before_rules(2)[OF that] by (intro rsorted_not_in[of _ asc]) auto
    then have sk: "rsorted asc (skipCacheDeletes asc (Some (fst p)) ((k, v) # cs))
        \<and> (\<forall>x. overlay (p # ps) (skipCacheDeletes asc (Some (fst p)) ((k, v) # cs)) x
            = overlay (p # ps) ((k, v) # cs) x)"
      using skipCacheDeletes_spec[OF "3.prems"(3), of "Some (fst p)" "p # ps"] by simp
    have "skipUntilExistsOrInvalid asc (p # ps) (skipCacheDeletes asc (Some (fst p)) ((k, v) # cs)) = (ps', cs', ok)"
      using "3.prems"(1) ne gtd(2) by simp
    from "3.IH"(2)[OF ne gtd(2) this "3.prems"(2)] sk show ?thesis by simp
  qed (use 3 before_rules(1,4) in \<open>auto simp: merge_Value_def split: if_splits\<close>)
qed

lemma overlay_in:
  "overlay ps cs k = Some v \<Longrightarrow> k \<in> fst ` set ps \<union> fst ` set cs"
  by (auto simp: overlay_def image_iff split: option.splits dest!: map_of_SomeD intro: rev_bexI)

lemma merge_advance_spec:
  assumes "rsorted asc ps" and "rsorted asc cs" and "ps \<noteq> [] \<or> cs \<noteq> []"
    and "merge_advance asc ps cs = (ps', cs')"
  shows "rsorted asc ps' \<and> rsorted asc cs'
    \<and> overlay ps cs (merge_Key asc ps cs) = merge_Value asc ps cs
    \<and> (\<forall>k \<in> fst ` set ps' \<union> fst ` set cs'. before asc (merge_Key asc ps cs) k)
    \<and> (\<forall>k. k \<noteq> merge_Key asc ps cs \<longrightarrow> overlay ps' cs' k = overlay ps cs k)"
proof (cases ps)
  case Nil
  then obtain c cs1 where "cs = c # cs1" using assms(3) by (cases cs) auto
  with Nil assms show ?thesis
    by (cases c) (auto simp: merge_advance_def merge_Key_def merge_Value_def overlay_def)
next
  case (Cons p ps1)
  note ps = this
  show ?thesis
  proof (cases cs)
    case Nil
    with ps assms show ?thesis
      by (cases p) (auto simp: merge_advance_def merge_Key_def merge_Value_def overlay_def)
  next
    case (Cons c cs1)
    consider (lt) "before asc (fst p) (fst c)" | (eq) "fst p = fst c" | (gt) "before asc (fst c) (fst p)"
      using before_rules(3) by blast
    then show ?thesis
    proof cases
      case lt
      then have "\<forall>y\<in>set cs. before asc (fst p) (fst y)"
        using assms(2) Cons before_rules(2)[OF lt] by auto
      with rsorted_not_in[OF this] lt ps Cons assms show ?thesis
        by (cases p) (auto simp: merge_advance_def merge_Key_def merge_Value_def overlay_def split: option.splits)
    next
      case eq
      with ps Cons assms before_rules(1)[of asc "fst c"] show ?thesis
        by (cases p; cases c) (auto simp: merge_advance_def merge_Key_def merge_Value_def overlay_def
            split: option.splits)
    next
      case gt
      then have below: "\<forall>y\<in>set ps. before asc (fst c) (fst y)"
        using assms(1) ps before_rules(2)[OF gt] by auto
      have ne: "fst p \<noteq> fst c" "\<not> before asc (fst p) (fst c)"
        using gt before_rules(1)[of asc "fst c"] before_rules(4)[OF gt] by auto
      from below ne gt ps Cons assms show ?thesis
        by (cases c) (auto simp: merge_advance_def merge_Key_def merge_Value_def overlay_def
            split: option.splits)
    qed
  qed
qed

lemma merge_entries_spec:
  "rsorted asc ps \<Longrightarrow> rsorted asc cs \<Longrightarrow>
     rsorted asc (merge_entries asc ps cs)
     \<and> (\<forall>k v. (k, v) \<in> set (merge_entries asc ps cs) \<longleftrightarrow> v \<noteq> None \<and> overlay ps cs k = v)"
proof (induction asc ps cs rule: merge_entries.induct)
  case (1 asc ps cs)
  obtain ps' cs' ok where sk: "skipUntilExistsOrInvalid asc ps cs = (ps', cs', ok)" by (metis prod_cases3)
  note spec = skipUntil_spec[OF sk "1.prems"]
  show ?case
  proof (cases ok)
    case False
    then have "merge_entries asc ps cs = []" "overlay ps cs k = None" for k
      using spec sk by (auto simp: merge_entries.simps[of asc ps cs] overlay_def)
    then show ?thesis by auto
  next
    case True
    obtain ps'' cs'' where adv: "merge_advance asc ps' cs' = (ps'', cs'')" by (meson surj_pair)
    note ad = merge_advance_spec[OF _ _ _ adv]
    let ?K = "merge_Key asc ps' cs'" and ?V = "merge_Value asc ps' cs'"
    let ?rest = "merge_entries asc ps'' cs''"
    have es: "merge_entries asc ps cs = (?K, ?V) # ?rest"
      using sk True adv by (simp add: merge_entries.simps[of asc ps cs])
    have IH: "rsorted asc ?rest" "\<And>k v. (k, v) \<in> set ?rest \<longleftrightarrow> v \<noteq> None \<and> overlay ps'' cs'' k = v"
      using "1.IH"[OF sk[symmetric] refl _ adv[symmetric]] True spec ad by auto
    have above: "before asc ?K k" if "(k, v) \<in> set ?rest" for k v
      using that IH(2) overlay_in ad spec True by fastforce
    have "rsorted asc (merge_entries asc ps cs)" using above IH(1) es by auto
    moreover have "(k, v) \<in> set (merge_entries asc ps cs) \<longleftrightarrow> v \<noteq> None \<and> overlay ps cs k = v" for k v
    proof (cases "k = ?K")
      case True
      then have "(k, v) \<notin> set ?rest" using above before_rules(1) by blast
      with True spec ad \<open>ok\<close> es show ?thesis by auto
    next
      case False
      with spec ad True es IH(2) show ?thesis by auto
    qed
    ultimately show ?thesis by blast
  qed
qed

section \<open>The range of an iterator\<close>

lemma takeWhile_filter:
  "(\<And>x y. x \<in> set xs \<Longrightarrow> y \<in> set xs \<Longrightarrow> before asc (fst x) (fst y) \<Longrightarrow> P y \<Longrightarrow> P x) \<Longrightarrow> rsorted asc xs \<Longrightarrow>
     takeWhile P xs = filter P xs"
proof (induction xs)
  case (Cons x xs)
  show ?case
  proof (cases "P x")
    case True
    with Cons show ?thesis by auto
  next
    case False
    then have "\<not> P y" if "y \<in> set xs" for y
      using Cons.prems(1)[of x y] Cons.prems(2) that by auto
    with False show ?thesis by (simp add: filter_empty_conv)
  qed
qed simp

lemma dropWhile_filter:
  "(\<And>x y. x \<in> set xs \<Longrightarrow> y \<in> set xs \<Longrightarrow> before asc (fst x) (fst y) \<Longrightarrow> P y \<Longrightarrow> P x) \<Longrightarrow> rsorted asc xs \<Longrightarrow>
     dropWhile P xs = filter (\<lambda>x. \<not> P x) xs"
proof (induction xs)
  case (Cons x xs)
  show ?case
  proof (cases "P x")
    case True
    with Cons show ?thesis by auto
  next
    case False
    then have "\<not> P y" if "y \<in> set xs" for y
      using Cons.prems(1)[of x y] Cons.prems(2) that by auto
    with False show ?thesis by (simp add: filter_id_conv)
  qed
qed simp

lemma rsorted_filter: "rsorted asc xs \<Longrightarrow> rsorted asc (filter P xs)"
  by (induction xs) auto

lemma before_eq: "before True = (<)" "before False = (\<lambda>a b. b < a)"
  by (auto simp: before_def fun_eq_iff)

lemma rsorted_asc: "rsorted True xs \<longleftrightarrow> kv_wf xs"
  by (simp add: rsorted_def kv_wf_def before_eq)

lemma rsorted_desc: "kv_wf xs \<Longrightarrow> rsorted False (rev xs)"
  by (simp add: rsorted_def kv_wf_def before_eq sorted_wrt_rev flip: rev_map)

lemma memIterator_eq:
  assumes "kv_wf m"
  shows "memIterator start endk m asc = parent_iterator start endk m asc"
proof (cases asc)
  case True
  let ?xs = "filter (\<lambda>e. case start of None \<Rightarrow> True | Some s \<Rightarrow> s \<le> fst e) m"
  have "dropWhile (\<lambda>e. fst e < s) m = filter (\<lambda>e. \<not> fst e < s) m" for s
    using assms by (intro dropWhile_filter[of _ True]) (simp_all add: before_eq rsorted_asc)
  then have "(case start of Some s \<Rightarrow> dropWhile (\<lambda>e. fst e < s) m | None \<Rightarrow> m) = ?xs"
    by (simp add: not_less split: option.split)
  moreover have "takeWhile (\<lambda>e. keyInRange True start endk (fst e)) ?xs = filter (\<lambda>e. keyInRange True start endk (fst e)) ?xs"
    using rsorted_filter[of True m] assms
    by (intro takeWhile_filter[of _ True]) (auto simp: keyInRange_def before_eq rsorted_asc split: option.split_asm option.split)
  moreover have "filter (\<lambda>e. keyInRange True start endk (fst e)) ?xs = filter (\<lambda>e. IsKeyInDomain (fst e) start endk) m"
    unfolding filter_filter by (rule filter_cong) (auto simp: keyInRange_def IsKeyInDomain_def split: option.split)
  ultimately show ?thesis using True by (simp add: memIterator_def parent_iterator_def)
next
  case False
  let ?xs = "filter (\<lambda>e. case endk of None \<Rightarrow> True | Some x \<Rightarrow> fst e < x) (rev m)"
  have "dropWhile (\<lambda>e. x \<le> fst e) (rev m) = filter (\<lambda>e. \<not> x \<le> fst e) (rev m)" for x
    using rsorted_desc[OF assms] by (intro dropWhile_filter[of _ False]) (simp_all add: before_eq)
  then have "(case endk of Some x \<Rightarrow> dropWhile (\<lambda>e. x \<le> fst e) (rev m) | None \<Rightarrow> rev m) = ?xs"
    by (simp add: not_le split: option.split)
  moreover have "takeWhile (\<lambda>e. keyInRange False start endk (fst e)) ?xs = filter (\<lambda>e. keyInRange False start endk (fst e)) ?xs"
    using rsorted_filter[OF rsorted_desc[OF assms]]
    by (intro takeWhile_filter[of _ False]) (auto simp: keyInRange_def before_eq split: option.split_asm option.split)
  moreover have "filter (\<lambda>e. keyInRange False start endk (fst e)) ?xs
      = filter (\<lambda>e. IsKeyInDomain (fst e) start endk) (rev m)"
    unfolding filter_filter by (rule filter_cong) (auto simp: keyInRange_def IsKeyInDomain_def split: option.split)
  ultimately show ?thesis using False by (simp add: memIterator_def parent_iterator_def rev_filter)
qed

section \<open>The binary searches\<close>

lemma scan_back_spec:
  "scan_back stop xs m \<le> m
   \<and> (\<forall>i. scan_back stop xs m \<le> i \<longrightarrow> i < m \<longrightarrow> \<not> stop (xs ! i))
   \<and> (scan_back stop xs m = 0 \<or> stop (xs ! (scan_back stop xs m - 1)))"
proof (induction m)
  case (Suc m)
  then show ?case by (auto simp: less_Suc_eq)
qed simp

lemma mid_bounds: "l \<le> r \<Longrightarrow> l \<le> (l + r) div 2 \<and> (l + r) div 2 \<le> r" for l r :: int
  by auto

text \<open>The first position at or after the bound.\<close>

definition is_first_ge :: "bytes list \<Rightarrow> bytes \<Rightarrow> int \<Rightarrow> bool" where
  "is_first_ge xs q r \<longleftrightarrow>
     (if r = - 1 then \<forall>x\<in>set xs. x < q
      else 0 \<le> r \<and> r < int (length xs) \<and> (\<forall>i<length xs. q \<le> xs ! i \<longleftrightarrow> r \<le> int i))"

lemma findStart_found:
  assumes "sorted xs" and "m < length xs" and "xs ! m = q"
  shows "is_first_ge xs q (int (scan_back (\<lambda>x. x \<noteq> q) xs m))"
proof -
  let ?j = "scan_back (\<lambda>x. x \<noteq> q) xs m"
  note sb = scan_back_spec[of "\<lambda>x. x \<noteq> q" xs m]
  have ge: "q \<le> xs ! i" if "?j \<le> i" "i < length xs" for i
  proof (cases "i < m")
    case True
    then show ?thesis using sb that by auto
  next
    case False
    then show ?thesis using sorted_nth_mono[OF assms(1), of m i] that assms by simp
  qed
  have less: "xs ! i < q" if "i < ?j" for i
  proof -
    have "xs ! i \<le> xs ! (?j - 1)" "xs ! (?j - 1) \<le> xs ! m"
      using that sb assms by (auto intro!: sorted_nth_mono)
    moreover have "xs ! (?j - 1) \<noteq> q" using sb that by auto
    ultimately show ?thesis using assms(3) by auto
  qed
  have "q \<le> xs ! i \<longleftrightarrow> ?j \<le> i" if "i < length xs" for i
    using ge[OF _ that] less[of i] by (cases "?j \<le> i") auto
  with sb assms(2) show ?thesis by (simp add: is_first_ge_def)
qed

lemma findStart_loop_spec:
  assumes "sorted xs" and "0 \<le> left" and "right < int (length xs)" and "left \<le> right + 1"
    and "\<forall>i<length xs. int i < left \<longrightarrow> xs ! i < q" and "\<forall>i<length xs. right < int i \<longrightarrow> q < xs ! i"
  shows "is_first_ge xs q (findStart_loop xs q left right)"
  using assms
proof (induction xs q left right rule: findStart_loop.induct)
  case (1 xs q left right)
  show ?case
  proof (cases "left \<le> right")
    case True
    define mid where "mid = (left + right) div 2"
    have mid: "left \<le> mid" "mid \<le> right" using mid_bounds[OF True] by (simp_all add: mid_def)
    have le_mid: "xs ! i \<le> xs ! nat mid" if "int i \<le> mid" for i
      using that mid "1.prems" by (intro sorted_nth_mono) auto
    have mid_le: "xs ! nat mid \<le> xs ! i" if "mid \<le> int i" "i < length xs" for i
      using that mid "1.prems" by (intro sorted_nth_mono) auto
    have step: "findStart_loop xs q left right =
       (if xs ! nat mid = q then int (scan_back (\<lambda>x. x \<noteq> q) xs (nat mid))
        else if xs ! nat mid < q then findStart_loop xs q (mid + 1) right
        else findStart_loop xs q left (mid - 1))"
      using True by (subst findStart_loop.simps) (simp add: mid_def Let_def)
    consider (eq) "xs ! nat mid = q" | (lt) "xs ! nat mid < q" | (gt) "q < xs ! nat mid" by (meson linorder_cases)
    then show ?thesis
    proof cases
      case eq
      then show ?thesis using findStart_found[of xs "nat mid" q] 1 mid by (simp add: step)
    next
      case lt
      have "xs ! i < q" if "i < length xs" "int i < mid + 1" for i
        using le_mid[of i] that lt by auto
      moreover have "xs ! nat mid \<noteq> q" using lt by auto
      ultimately show ?thesis using "1.IH"(1)[OF True mid_def refl] lt "1.prems" mid by (simp add: step)
    next
      case gt
      have "q < xs ! i" if "i < length xs" "mid - 1 < int i" for i
        using mid_le[of i] that gt by auto
      moreover have "xs ! nat mid \<noteq> q" "\<not> xs ! nat mid < q" using gt by auto
      ultimately show ?thesis using "1.IH"(2)[OF True mid_def refl] "1.prems" mid by (simp add: step)
    qed
  next
    case False
    then have left: "left = right + 1" using "1.prems" by simp
    have iff: "q \<le> xs ! i \<longleftrightarrow> left \<le> int i" if "i < length xs" for i
      using that "1.prems"(5,6) left by (cases "left \<le> int i") auto
    show ?thesis
    proof (cases "left < int (length xs)")
      case True
      then show ?thesis using False iff "1.prems"(2)
        by (subst findStart_loop.simps) (auto simp: is_first_ge_def nat_less_iff)
    next
      case l: False
      then have "\<forall>x\<in>set xs. x < q" using iff by (auto simp: in_set_conv_nth not_le[symmetric])
      with l False show ?thesis by (subst findStart_loop.simps) (simp add: is_first_ge_def)
    qed
  qed
qed

text \<open>\<open>findStartIndex\<close> returns the first position of a sorted slice whose key is at or
  after the bound, and -1 exactly when there is none, also in the presence of duplicates.\<close>

theorem findStartIndex_first:
  assumes "sorted xs"
  shows "if findStartIndex xs q = - 1 then \<forall>x\<in>set xs. x < q
    else 0 \<le> findStartIndex xs q \<and> findStartIndex xs q < int (length xs)
      \<and> (\<forall>i<length xs. q \<le> xs ! i \<longleftrightarrow> findStartIndex xs q \<le> int i)"
proof (cases "xs = []")
  case True
  then show ?thesis by (simp add: findStartIndex_def)
next
  case False
  have "is_first_ge xs q (findStart_loop xs q 0 (int (length xs) - 1))"
    using assms False by (intro findStart_loop_spec) auto
  with False show ?thesis by (simp add: findStartIndex_def is_first_ge_def)
qed

lemma findStartIndex_first_witness:
  "if findStartIndex [[1 :: byte], [2], [2], [5]] [2] = - 1 then \<forall>x\<in>set [[1 :: byte], [2], [2], [5]]. x < [2 :: byte]
    else 0 \<le> findStartIndex [[1 :: byte], [2], [2], [5]] [2] \<and> findStartIndex [[1 :: byte], [2], [2], [5]] [2] < int (length [[1 :: byte], [2], [2], [5]])
      \<and> (\<forall>i<length [[1 :: byte], [2], [2], [5]]. [2 :: byte] \<le> [[1 :: byte], [2], [2], [5]] ! i \<longleftrightarrow> findStartIndex [[1 :: byte], [2], [2], [5]] [2] \<le> int i)"
  by (rule findStartIndex_first) simp

lemma findStartIndex_le:
  assumes "sorted xs" and "i < length xs" and "q \<le> xs ! i"
  shows "findStartIndex xs q \<le> int i" and "findStartIndex xs q < int (length xs)"
proof -
  have "is_first_ge xs q (findStartIndex xs q)"
  proof (cases "xs = []")
    case False
    then show ?thesis using assms(1) unfolding findStartIndex_def
      by (simp, intro findStart_loop_spec) auto
  qed (use assms in simp)
  then show "findStartIndex xs q \<le> int i" "findStartIndex xs q < int (length xs)"
    using assms(2,3) by (auto simp: is_first_ge_def split: if_splits)
qed

lemma scan_less_spec:
  "- 1 \<le> scan_less xs q m \<and> scan_less xs q m < int m \<and> (\<forall>i<m. xs ! i < q \<longrightarrow> int i \<le> scan_less xs q m)"
proof (induction m)
  case (Suc m)
  then show ?case by (auto simp: less_Suc_eq)
qed simp

lemma findEnd_loop_spec:
  assumes "sorted xs" and "0 \<le> left" and "right < int (length xs)" and "left \<le> right + 1"
    and "\<forall>i<length xs. right < int i \<longrightarrow> q < xs ! i"
  shows "findEnd_loop xs q left right < int (length xs)
    \<and> (\<forall>i<length xs. xs ! i < q \<longrightarrow> int i \<le> findEnd_loop xs q left right)"
  using assms
proof (induction xs q left right rule: findEnd_loop.induct)
  case (1 xs q left right)
  show ?case
  proof (cases "left \<le> right")
    case True
    define mid where "mid = (left + right) div 2"
    have mid: "left \<le> mid" "mid \<le> right" using mid_bounds[OF True] by (simp_all add: mid_def)
    have mid_le: "xs ! nat mid \<le> xs ! i" if "mid \<le> int i" "i < length xs" for i
      using that mid "1.prems" by (intro sorted_nth_mono) auto
    have step: "findEnd_loop xs q left right =
       (if xs ! nat mid = q then int (scan_back (\<lambda>x. x < q) xs (nat mid))
        else if xs ! nat mid < q then findEnd_loop xs q (mid + 1) right
        else findEnd_loop xs q left (mid - 1))"
      using True by (subst findEnd_loop.simps) (simp add: mid_def Let_def)
    consider (eq) "xs ! nat mid = q" | (lt) "xs ! nat mid < q" | (gt) "q < xs ! nat mid" by (meson linorder_cases)
    then show ?thesis
    proof cases
      case eq
      let ?j = "scan_back (\<lambda>x. x < q) xs (nat mid)"
      note sb = scan_back_spec[of "\<lambda>x. x < q" xs "nat mid"]
      have "i \<le> ?j" if "i < length xs" "xs ! i < q" for i
      proof -
        have "i < nat mid" using mid_le[of i] that eq mid "1.prems" by (cases "mid \<le> int i") auto
        then have "\<not> ?j \<le> i" using sb that(2) by blast
        then show ?thesis by simp
      qed
      moreover have "?j < length xs" using conjunct1[OF sb] mid "1.prems"(2,3) by linarith
      ultimately show ?thesis using eq by (simp add: step)
    next
      case lt
      moreover have "xs ! nat mid \<noteq> q" using lt by auto
      ultimately show ?thesis using "1.IH"(1)[OF True mid_def refl] "1.prems" mid by (simp add: step)
    next
      case gt
      have "q < xs ! i" if "i < length xs" "mid - 1 < int i" for i
        using mid_le[of i] that gt by auto
      moreover have "xs ! nat mid \<noteq> q" "\<not> xs ! nat mid < q" using gt by auto
      ultimately show ?thesis using "1.IH"(2)[OF True mid_def refl] "1.prems" mid by (simp add: step)
    qed
  next
    case False
    have le: "int i \<le> scan_less xs q (nat (right + 1))" if "i < length xs" "xs ! i < q" for i
    proof -
      have "\<not> right < int i" using "1.prems"(5) that less_not_sym by blast
      then have "i < nat (right + 1)" by simp
      then show ?thesis using scan_less_spec[of xs q "nat (right + 1)"] that(2) by blast
    qed
    have "findEnd_loop xs q left right = scan_less xs q (nat (right + 1))"
      using False by (subst findEnd_loop.simps) simp
    then show ?thesis using le scan_less_spec[of xs q "nat (right + 1)"] "1.prems"(3,4,2) by auto
  qed
qed

lemma findEndIndex_ge:
  assumes "sorted xs" and "i < length xs" and "xs ! i < q"
  shows "int i \<le> findEndIndex xs q" and "findEndIndex xs q < int (length xs)"
proof -
  have "xs \<noteq> []" using assms(2) by auto
  then show "int i \<le> findEndIndex xs q" "findEndIndex xs q < int (length xs)"
    using findEnd_loop_spec[OF assms(1), of 0 "int (length xs) - 1" q] assms(2,3)
    by (simp_all add: findEndIndex_def)
qed

lemma findEndIndex_less: "sorted xs \<Longrightarrow> xs \<noteq> [] \<Longrightarrow> findEndIndex xs q < int (length xs)"
  using findEnd_loop_spec[of xs 0 "int (length xs) - 1" q] by (auto simp: findEndIndex_def Suc_le_eq)

text \<open>The widened index range stays inside the slice and covers every key of the domain.\<close>

lemma dirty_range_spec:
  assumes "sorted strL" and "strL \<noteq> []" and "dirty_range strL start endk = (a, b)"
  shows "0 \<le> a" and "b < int (length strL)"
    and "i < length strL \<Longrightarrow> IsKeyInDomain (strL ! i) start endk \<Longrightarrow> a \<le> int i \<and> int i \<le> b"
proof -
  let ?n = "int (length strL)"
  define s0 where "s0 = findStartIndex strL (case start of Some s \<Rightarrow> s | None \<Rightarrow> [])"
  define e0 where "e0 = (case endk of None \<Rightarrow> ?n - 1 | Some e \<Rightarrow> findEndIndex strL e)"
  define sx where "sx = (if s0 < 0 then 0 else s0)"
  define ex where "ex = (if e0 < 0 then ?n - 1 else e0)"
  have n: "0 < ?n" using assms(2) by simp
  have e0: "e0 < ?n" using findEndIndex_less[OF assms(1,2)] n by (auto simp: e0_def split: option.splits)
  have ab: "(a, b) = (if ex - sx < minSortSize then
      (if min (sx + minSortSize) (?n - 1) - sx < minSortSize
       then (max (min (sx + minSortSize) (?n - 1) - minSortSize) 0, min (sx + minSortSize) (?n - 1))
       else (sx, min (sx + minSortSize) (?n - 1))) else (sx, ex))"
    using assms(3)
    unfolding dirty_range_def Let_def s0_def[symmetric] e0_def[symmetric] sx_def[symmetric] ex_def[symmetric]
    by (rule sym)
  have sx: "0 \<le> sx" and ex: "ex < ?n" using e0 n by (auto simp: sx_def ex_def)
  have lo: "a \<le> sx" and hi: "ex \<le> b"
    using ab sx ex by (auto split: if_splits simp: minSortSize_def)
  show "0 \<le> a" and "b < ?n" using ab sx ex n by (auto split: if_splits simp: minSortSize_def)
  assume i: "i < length strL" and dom: "IsKeyInDomain (strL ! i) start endk"
  have "(case start of Some s \<Rightarrow> s | None \<Rightarrow> []) \<le> strL ! i"
    using dom by (auto simp: IsKeyInDomain_def split: option.splits)
  from findStartIndex_le[OF assms(1) i this] have "sx \<le> int i" by (simp add: sx_def s0_def)
  moreover have "int i \<le> ex"
    using findEndIndex_ge[OF assms(1) i] dom i by (auto simp: ex_def e0_def IsKeyInDomain_def split: option.splits)
  ultimately show "a \<le> int i \<and> int i \<le> b" using lo hi by simp
qed

section \<open>The invariant of the cache\<close>

definition view :: "cstore \<Rightarrow> bytes \<Rightarrow> bytes option" where
  "view s k = (case kv_get (cache s) k of Some c \<Rightarrow> cval c | None \<Rightarrow> kv_get (parent s) k)"

definition cinv :: "cstore \<Rightarrow> bool" where
  "cinv s \<longleftrightarrow> kv_wf (cache s) \<and> kv_wf (unsortedCache s) \<and> kv_wf (sortedCache s) \<and> kv_wf (parent s)
     \<and> (\<forall>k c. kv_get (cache s) k = Some c \<longrightarrow> dirty c \<longrightarrow>
          kv_get (unsortedCache s) k = Some () \<or> kv_get (sortedCache s) k = Some (cval c))
     \<and> (\<forall>k. kv_get (unsortedCache s) k = Some () \<longrightarrow> (\<exists>c. kv_get (cache s) k = Some c \<and> dirty c))
     \<and> (\<forall>k v. kv_get (sortedCache s) k = Some v \<longrightarrow> kv_get (unsortedCache s) k = None \<longrightarrow>
          (\<exists>c. kv_get (cache s) k = Some c \<and> dirty c \<and> cval c = v))
     \<and> (\<forall>k c. kv_get (cache s) k = Some c \<longrightarrow> \<not> dirty c \<longrightarrow> cval c = kv_get (parent s) k)"

lemma cinv_wf:
  "cinv s \<Longrightarrow> kv_wf (cache s)" "cinv s \<Longrightarrow> kv_wf (unsortedCache s)"
  "cinv s \<Longrightarrow> kv_wf (sortedCache s)" "cinv s \<Longrightarrow> kv_wf (parent s)"
  by (simp_all add: cinv_def)

lemma cinv_dirty:
  "cinv s \<Longrightarrow> kv_get (cache s) k = Some c \<Longrightarrow> dirty c \<Longrightarrow>
     kv_get (unsortedCache s) k = Some () \<or> kv_get (sortedCache s) k = Some (cval c)"
  by (simp add: cinv_def)

lemma cinv_unsorted:
  "cinv s \<Longrightarrow> kv_get (unsortedCache s) k = Some u \<Longrightarrow> \<exists>c. kv_get (cache s) k = Some c \<and> dirty c"
  by (simp add: cinv_def)

lemma cinv_sorted:
  "cinv s \<Longrightarrow> kv_get (sortedCache s) k = Some v \<Longrightarrow> kv_get (unsortedCache s) k = None \<Longrightarrow>
     \<exists>c. kv_get (cache s) k = Some c \<and> dirty c \<and> cval c = v"
  by (simp add: cinv_def)

lemma cinv_clean:
  "cinv s \<Longrightarrow> kv_get (cache s) k = Some c \<Longrightarrow> \<not> dirty c \<Longrightarrow> cval c = kv_get (parent s) k"
  by (simp add: cinv_def)

lemma setCacheValue_sel:
  "cache (setCacheValue s k v d) = kv_set (cache s) k \<lparr>cval = v, dirty = d\<rparr>"
  "unsortedCache (setCacheValue s k v d) = (if d then kv_set (unsortedCache s) k () else unsortedCache s)"
  "sortedCache (setCacheValue s k v d) = sortedCache s"
  "parent (setCacheValue s k v d) = parent s"
  by (simp_all add: setCacheValue_def Let_def)

lemma NewStore_cinv: "kv_wf p \<Longrightarrow> cinv (NewStore p)"
  by (simp add: cinv_def NewStore_def)

lemma setCacheValue_dirty:
  assumes "cinv s"
  shows "cinv (setCacheValue s k v True)" and "view (setCacheValue s k v True) = (view s)(k := v)"
proof -
  note wf = cinv_wf[OF assms]
  show "view (setCacheValue s k v True) = (view s)(k := v)"
    by (auto simp: view_def setCacheValue_sel kv_get_set[OF wf(1)] fun_eq_iff split: option.split)
  show "cinv (setCacheValue s k v True)"
    using assms unfolding cinv_def setCacheValue_sel kv_get_set[OF wf(1)]
    by (simp add: kv_wf_set kv_get_set[OF wf(2)])
qed

lemma setCacheValue_clean:
  assumes "cinv s" and "kv_get (cache s) k = None"
  shows "cinv (setCacheValue s k (kv_get (parent s) k) False)"
    and "view (setCacheValue s k (kv_get (parent s) k) False) = view s"
proof -
  note wf = cinv_wf[OF assms(1)]
  show "view (setCacheValue s k (kv_get (parent s) k) False) = view s"
    using assms(2) by (auto simp: view_def setCacheValue_sel kv_get_set[OF wf(1)] fun_eq_iff split: option.split)
  show "cinv (setCacheValue s k (kv_get (parent s) k) False)"
    unfolding cinv_def setCacheValue_sel kv_get_set[OF wf(1)] if_False
  proof (intro conjI allI impI)
    have un: "kv_get (unsortedCache s) k = None" 
      using cinv_unsorted[OF assms(1), of k] assms(2) by (cases "kv_get (unsortedCache s) k") auto
    then have so: "kv_get (sortedCache s) k = None"
      using cinv_sorted[OF assms(1), of k] assms(2) by (cases "kv_get (sortedCache s) k") auto
    let ?c = "\<lambda>x. if k = x then Some \<lparr>cval = kv_get (parent s) k, dirty = False\<rparr> else kv_get (cache s) x"
    fix x c v
    show "kv_get (unsortedCache s) x = Some () \<or> kv_get (sortedCache s) x = Some (cval c)"
      if "?c x = Some c" "dirty c"
      using cinv_dirty[OF assms(1)] that by (auto split: if_splits)
    show "\<exists>c. ?c x = Some c \<and> dirty c" if "kv_get (unsortedCache s) x = Some ()"
      using cinv_unsorted[OF assms(1)] that un by (cases "k = x") auto
    show "\<exists>c. ?c x = Some c \<and> dirty c \<and> cval c = v"
      if "kv_get (sortedCache s) x = Some v" "kv_get (unsortedCache s) x = None"
      using cinv_sorted[OF assms(1)] that so by (cases "k = x") auto
    show "cval c = kv_get (parent s) x" if "?c x = Some c" "\<not> dirty c"
      using cinv_clean[OF assms(1)] that by (auto split: if_splits)
  qed (use wf in \<open>simp_all add: kv_wf_set\<close>)
qed

lemma foldl_kv_del:
  "kv_wf m \<Longrightarrow> kv_wf (foldl (\<lambda>m e. kv_del m (fst e)) m es)
     \<and> (\<forall>k. kv_get (foldl (\<lambda>m e. kv_del m (fst e)) m es) k = (if k \<in> fst ` set es then None else kv_get m k))"
  by (induction es arbitrary: m) (auto simp: kv_wf_del kv_get_del)

lemma foldl_kv_set:
  "kv_wf m \<Longrightarrow> \<forall>e\<in>set es. snd e = f (fst e) \<Longrightarrow> kv_wf (foldl (\<lambda>m e. kv_set m (fst e) (snd e)) m es)
     \<and> (\<forall>k. kv_get (foldl (\<lambda>m e. kv_set m (fst e) (snd e)) m es) k =
          (if k \<in> fst ` set es then Some (f k) else kv_get m k))"
  by (induction es arbitrary: m) (auto simp: kv_wf_set kv_get_set)

lemma kv_keys: "kv_wf m \<Longrightarrow> k \<in> fst ` set m \<longleftrightarrow> kv_get m k \<noteq> None"
  using kv.keys_items[of m] by (auto simp: set_eq_iff)

lemma kv_keys_unit: "kv_wf m \<Longrightarrow> k \<in> fst ` set m \<longleftrightarrow> kv_get m k = Some ()"
  by (auto simp: kv_keys)

lemma clearUnsorted_spec:
  fixes ks :: "bytes list"
  assumes inv: "cinv s" and ks: "distinct ks" "set ks \<subseteq> fst ` set (unsortedCache s)"
  defines "s' \<equiv> clearUnsortedCacheSubset s (map (\<lambda>k. (k, cached_value s k)) ks)"
  shows "cinv s' \<and> view s' = view s \<and> parent s' = parent s
    \<and> (\<forall>k. kv_get (unsortedCache s') k = (if k \<in> set ks then None else kv_get (unsortedCache s) k))"
proof -
  note wf = cinv_wf[OF inv]
  let ?es = "map (\<lambda>k. (k, cached_value s k)) ks"
  have sel: "cache s' = cache s" "parent s' = parent s"
    "sortedCache s' = foldl (\<lambda>m e. kv_set m (fst e) (snd e)) (sortedCache s) (sort_key fst ?es)"
    by (simp_all add: s'_def clearUnsortedCacheSubset_def Let_def)
  have fstes: "fst ` set ?es = set ks" by force
  have un: "kv_wf (unsortedCache s') \<and>
      (\<forall>k. kv_get (unsortedCache s') k = (if k \<in> set ks then None else kv_get (unsortedCache s) k))"
  proof (cases "length ks = length (unsortedCache s)")
    case True
    have "card (fst ` set (unsortedCache s)) = length (unsortedCache s)"
      using kv.distinct_keys[OF wf(2)] by (metis distinct_card length_map set_map)
    then have "set ks = fst ` set (unsortedCache s)"
      using True ks by (intro card_subset_eq) (simp_all add: distinct_card)
    then have "kv_get (unsortedCache s) k = None" if "k \<notin> set ks" for k
      using that by (intro kv_get_notin) simp
    then show ?thesis using True by (simp add: s'_def clearUnsortedCacheSubset_def Let_def)
  next
    case False
    then show ?thesis using foldl_kv_del[OF wf(2), of ?es]
      by (simp add: s'_def clearUnsortedCacheSubset_def Let_def fstes image_image)
  qed
  have so: "kv_wf (sortedCache s') \<and> (\<forall>k. kv_get (sortedCache s') k =
      (if k \<in> set ks then Some (cached_value s k) else kv_get (sortedCache s) k))"
    using foldl_kv_set[OF wf(3), of "sort_key fst ?es" "cached_value s"] sel(3) by (auto simp: fstes image_image)
  have ksd: "\<exists>c. kv_get (cache s) k = Some c \<and> dirty c" if "k \<in> set ks" for k
  proof -
    have "kv_get (unsortedCache s) k = Some ()" using that ks(2) kv_keys_unit[OF wf(2), of k] by blast
    then show ?thesis by (rule cinv_unsorted[OF inv])
  qed
  have val: "cached_value s k = cval c" if "kv_get (cache s) k = Some c" for k c
    using that by (simp add: cached_value_def)
  have "cinv s'" unfolding cinv_def sel(1,2)
  proof (intro conjI allI impI)
    fix k c v
    show "kv_get (unsortedCache s') k = Some () \<or> kv_get (sortedCache s') k = Some (cval c)"
      if "kv_get (cache s) k = Some c" "dirty c"
      using cinv_dirty[OF inv that] un so val[OF that(1)] by (cases "k \<in> set ks") simp_all
    show "\<exists>c. kv_get (cache s) k = Some c \<and> dirty c" if "kv_get (unsortedCache s') k = Some ()"
      using cinv_unsorted[OF inv, of k] that un by (cases "k \<in> set ks") simp_all
    show "\<exists>c. kv_get (cache s) k = Some c \<and> dirty c \<and> cval c = v"
      if "kv_get (sortedCache s') k = Some v" "kv_get (unsortedCache s') k = None"
    proof (cases "k \<in> set ks")
      case True
      with ksd[OF True] that so val show ?thesis by auto
    next
      case False
      then show ?thesis using cinv_sorted[OF inv, of k v] that un so by simp
    qed
    show "cval c = kv_get (parent s) k" if "kv_get (cache s) k = Some c" "\<not> dirty c"
      using cinv_clean[OF inv that] .
  qed (use wf un so in simp_all)
  moreover have "view s' = view s" unfolding view_def sel ..
  ultimately show ?thesis using un sel(2) by blast
qed

lemma unsorted_strL:
  assumes "cinv s"
  shows "sorted (map fst (unsortedCache s))" and "distinct (map fst (unsortedCache s))"
  using cinv_wf(2)[OF assms] by (simp_all add: kv_wf_def strict_sorted_iff)

text \<open>After \<open>dirtyItems\<close> no key of the range is left unsorted, in the small case and in the
  case of the binary searches alike.\<close>

lemma dirtyItems_spec:
  fixes start endk :: "bytes option"
  assumes inv: "cinv s"
  defines "s' \<equiv> dirtyItems s start endk"
  shows "cinv s' \<and> view s' = view s \<and> parent s' = parent s
    \<and> (\<forall>k. IsKeyInDomain k start endk \<longrightarrow> kv_get (unsortedCache s') k = None)"
proof -
  let ?strL = "map fst (unsortedCache s)"
  note so = unsorted_strL[OF inv]
  have clear: "cinv t \<and> view t = view s \<and> parent t = parent s
      \<and> (\<forall>k. IsKeyInDomain k start endk \<longrightarrow> kv_get (unsortedCache t) k = None)"
    if t: "t = clearUnsortedCacheSubset s (map (\<lambda>k. (k, cached_value s k)) ks)"
      and ks: "distinct ks" "set ks \<subseteq> set ?strL"
      and all: "\<And>k. k \<in> set ?strL \<Longrightarrow> IsKeyInDomain k start endk \<Longrightarrow> k \<in> set ks" for t ks
  proof -
    have "kv_get (unsortedCache s) k = None" if "k \<notin> set ?strL" for k
      using that by (intro kv_get_notin) simp
    then show ?thesis using clearUnsorted_spec[OF inv ks(1)] ks(2) all unfolding t by (auto simp: if_split_mem2)
  qed
  consider (none) e where "endk = Some e" "(case start of Some x \<Rightarrow> x | None \<Rightarrow> []) > e"
    | (small) "\<not> (case endk of Some e \<Rightarrow> (case start of Some x \<Rightarrow> x | None \<Rightarrow> []) > e | None \<Rightarrow> False)"
        "int (length ?strL) < minSortSize"
    | (large) "\<not> (case endk of Some e \<Rightarrow> (case start of Some x \<Rightarrow> x | None \<Rightarrow> []) > e | None \<Rightarrow> False)"
        "\<not> int (length ?strL) < minSortSize"
    by (cases endk) auto
  then show ?thesis
  proof cases
    case none
    then have "s' = s" by (simp add: s'_def dirtyItems_def)
    moreover have "\<not> IsKeyInDomain k start endk" for k
      using none by (auto simp: IsKeyInDomain_def split: option.splits)
    ultimately show ?thesis using inv by simp
  next
    case small
    then have "s' = clearUnsortedCacheSubset s
        (map (\<lambda>k. (k, cached_value s k)) (filter (\<lambda>k. IsKeyInDomain k start endk) ?strL))"
      unfolding s'_def dirtyItems_def Let_def by (simp only: if_False if_True)
    from clear[OF this] so show ?thesis by auto
  next
    case large
    obtain a b where ab: "dirty_range ?strL start endk = (a, b)" by (meson surj_pair)
    have ne: "?strL \<noteq> []" using large(2) by (auto simp: minSortSize_def)
    note rg = dirty_range_spec[OF so(1) ne ab]
    let ?ks = "map (\<lambda>i. ?strL ! nat i) [a..b]"
    have eq: "s' = clearUnsortedCacheSubset s (map (\<lambda>k. (k, cached_value s k)) ?ks)"
      using large ab unfolding s'_def dirtyItems_def Let_def by (simp only: if_False if_True prod.case map_map comp_def)
    have "inj_on (\<lambda>i. ?strL ! nat i) {a..b}"
    proof (rule inj_onI)
      fix x y assume xy: "x \<in> {a..b}" "y \<in> {a..b}" "?strL ! nat x = ?strL ! nat y"
      then have "nat x < length ?strL" "nat y < length ?strL" using rg(1,2) by auto
      then have "nat x = nat y" using nth_eq_iff_index_eq[OF so(2)] xy(3) by blast
      moreover have "0 \<le> x" "0 \<le> y" using xy rg(1) by auto
      ultimately show "x = y" by simp
    qed
    then have dist: "distinct ?ks" by (simp add: distinct_map)
    have sub: "set ?ks \<subseteq> set ?strL"
    proof
      fix k assume "k \<in> set ?ks"
      then obtain i where "i \<in> {a..b}" "k = ?strL ! nat i" by auto
      moreover from this(1) have "nat i < length ?strL" using rg(1,2) by auto
      ultimately show "k \<in> set ?strL" using nth_mem by blast
    qed
    have all: "k \<in> set ?ks" if "k \<in> set ?strL" "IsKeyInDomain k start endk" for k
    proof -
      obtain i where "i < length ?strL" "k = ?strL ! i" using \<open>k \<in> set ?strL\<close> by (metis in_set_conv_nth)
      then have "int i \<in> {a..b}" "k = ?strL ! nat (int i)" using rg(3)[of i] that(2) by simp_all
      then show ?thesis unfolding set_map set_upto by blast
    qed
    show ?thesis by (rule clear[OF eq dist sub all])
  qed
qed

section \<open>Correctness\<close>

lemma Cache_Get_run:
  assumes "cinv s" and "AssertValidKey key = Inr ()"
  shows "\<exists>s'. Cache_Get key s = (Inr (view s key), s') \<and> cinv s' \<and> view s' = view s \<and> parent s' = parent s"
proof (cases "kv_get (cache s) key")
  case None
  then have "Cache_Get key s = (Inr (view s key), setCacheValue s key (kv_get (parent s) key) False)"
    using assms(2) by (simp add: Cache_Get_def bind_op_def lift_op_def view_def Let_def)
  with setCacheValue_clean[OF assms(1) None] show ?thesis by (simp add: setCacheValue_sel)
next
  case (Some c)
  then show ?thesis using assms by (simp add: Cache_Get_def bind_op_def lift_op_def view_def)
qed

lemma foldl_write_entry:
  "kv_wf p \<Longrightarrow> distinct (map fst es) \<Longrightarrow> kv_wf (foldl write_entry p es)
     \<and> (\<forall>k. kv_get (foldl write_entry p es) k = (case map_of es k of Some c \<Rightarrow> cval c | None \<Rightarrow> kv_get p k))"
proof (induction es arbitrary: p)
  case (Cons e es)
  have "kv_wf (write_entry p e)"
    "\<And>k. kv_get (write_entry p e) k = (if fst e = k then cval (snd e) else kv_get p k)"
    using Cons.prems by (auto simp: write_entry_def kv_wf_set kv_wf_del kv_get_set kv_get_del split: option.splits)
  moreover have "map_of es (fst e) = None" using Cons.prems by (simp add: map_of_eq_None_iff)
  ultimately show ?case using Cons.IH[of "write_entry p e"] Cons.prems
    by (cases e) (auto split: option.splits)
qed simp

lemma option_eqI: "(\<And>v. x = Some v \<longleftrightarrow> y = Some v) \<Longrightarrow> x = y"
  by (cases x; cases y) auto

lemma dirty_entries:
  assumes "kv_wf m"
  shows "distinct (map fst (sort_key fst (filter (\<lambda>e. dirty (snd e)) m)))"
    and "map_of (sort_key fst (filter (\<lambda>e. dirty (snd e)) m)) k =
      (case kv_get m k of Some c \<Rightarrow> if dirty c then Some c else None | None \<Rightarrow> None)"
proof -
  let ?f = "filter (\<lambda>e. dirty (snd e)) m"
  have wf: "kv_wf ?f" using assms by (simp add: kv_wf_def sorted_wrt_filter sorted_wrt_map)
  then have "sorted (map fst ?f)" by (simp add: kv_wf_def strict_sorted_iff)
  then have id: "sort_key fst ?f = ?f" by (simp add: sort_key_id_if_sorted sorted_sort_id)
  show "distinct (map fst (sort_key fst ?f))" using wf by (simp add: id kv_wf_def strict_sorted_iff)
  have "(k, c) \<in> set ?f \<longleftrightarrow> kv_get m k = Some c \<and> dirty c" for c
    using kv.in_items[OF assms, of k c] by auto
  moreover have "distinct (map fst ?f)" using wf by (simp add: kv_wf_def strict_sorted_iff)
  ultimately have "map_of ?f k = Some c \<longleftrightarrow> kv_get m k = Some c \<and> dirty c" for c by simp
  then show "map_of (sort_key fst ?f) k =
      (case kv_get m k of Some c \<Rightarrow> if dirty c then Some c else None | None \<Rightarrow> None)"
    unfolding id by (intro option_eqI) (auto split: option.split)
qed

lemma Cache_Write_view:
  assumes "cinv s"
  shows "kv_get (parent (Cache_Write s)) k = view s k" and "kv_wf (parent (Cache_Write s))"
    and "cache (Cache_Write s) = []" and "unsortedCache (Cache_Write s) = []" and "sortedCache (Cache_Write s) = []"
proof -
  note wf = cinv_wf[OF assms]
  show e: "cache (Cache_Write s) = []" "unsortedCache (Cache_Write s) = []" "sortedCache (Cache_Write s) = []"
    by (simp_all add: Cache_Write_def resetCaches_def Let_def)
  let ?es = "sort_key fst (filter (\<lambda>e. dirty (snd e)) (cache s))"
  note fw = foldl_write_entry[OF wf(4) dirty_entries(1)[OF wf(1)]]
  have "parent (Cache_Write s) = foldl write_entry (parent s) ?es"
    by (simp add: Cache_Write_def resetCaches_def Let_def)
  with fw show "kv_wf (parent (Cache_Write s))" "kv_get (parent (Cache_Write s)) k = view s k"
    using assms by (auto simp: dirty_entries(2)[OF wf(1)] view_def cinv_def split: option.splits)
qed

lemma parent_iterator_map_of:
  "kv_wf m \<Longrightarrow> rsorted asc (parent_iterator start endk m asc)
     \<and> map_of (parent_iterator start endk m asc) k = (if IsKeyInDomain k start endk then kv_get m k else None)"
proof -
  assume wf: "kv_wf m"
  have r: "rsorted asc (parent_iterator start endk m asc)"
    using wf rsorted_filter[OF rsorted_desc[OF wf]] rsorted_filter[of True m]
    by (cases asc) (auto simp: parent_iterator_def Let_def rsorted_asc rev_filter)
  have "(k, v) \<in> set (parent_iterator start endk m asc) \<longleftrightarrow> IsKeyInDomain k start endk \<and> kv_get m k = Some v" for v
    using kv.in_items[OF wf, of k v] by (auto simp: parent_iterator_def Let_def)
  then have "map_of (parent_iterator start endk m asc) k = Some v \<longleftrightarrow> IsKeyInDomain k start endk \<and> kv_get m k = Some v" for v
    by (simp add: rsorted_map_of[OF r, symmetric])
  then have "map_of (parent_iterator start endk m asc) k = (if IsKeyInDomain k start endk then kv_get m k else None)"
    by (intro option_eqI) simp
  with r show ?thesis ..
qed

lemma sorted_view:
  assumes inv: "cinv s" and un: "kv_get (unsortedCache s) k = None"
  shows "(case kv_get (sortedCache s) k of Some v \<Rightarrow> v | None \<Rightarrow> kv_get (parent s) k) = view s k"
proof (cases "kv_get (sortedCache s) k")
  case None
  show ?thesis
  proof (cases "kv_get (cache s) k")
    case (Some c)
    then have "\<not> dirty c" using cinv_dirty[OF inv Some] un None by auto
    then have "cval c = kv_get (parent s) k" using cinv_clean[OF inv Some] by simp
    with None Some show ?thesis by (simp add: view_def)
  qed (simp add: None view_def)
next
  case (Some v)
  then obtain c where "kv_get (cache s) k = Some c" "cval c = v" using cinv_sorted[OF inv _ un] by blast
  with Some show ?thesis by (simp add: view_def)
qed

lemma Cache_iterator_run:
  assumes "cinv s" and "\<not> empty_bound start" and "\<not> empty_bound endk"
  shows "\<exists>es s'. Cache_iterator start endk asc s = (Inr es, s') \<and> cinv s' \<and> view s' = view s
    \<and> sorted_wrt (before asc) (map fst es)
    \<and> (\<forall>k v. (k, v) \<in> set es \<longleftrightarrow> v \<noteq> None \<and> IsKeyInDomain k start endk \<and> view s k = v)"
proof -
  let ?s = "dirtyItems s start endk"
  note d = dirtyItems_spec[OF assms(1), of start endk]
  have wf: "kv_wf (parent ?s)" "kv_wf (sortedCache ?s)" using d cinv_wf by blast+
  let ?ps = "parent_iterator start endk (parent ?s) asc" and ?cs = "parent_iterator start endk (sortedCache ?s) asc"
  note p = parent_iterator_map_of[OF wf(1), of asc start endk] and c = parent_iterator_map_of[OF wf(2), of asc start endk]
  have ov: "overlay ?ps ?cs k = (if IsKeyInDomain k start endk then view s k else None)" for k
  proof (cases "IsKeyInDomain k start endk")
    case True
    then have un: "kv_get (unsortedCache ?s) k = None" using d by blast
    have "cinv ?s" using d by blast
    from sorted_view[OF this un]
    have "(case kv_get (sortedCache ?s) k of Some v \<Rightarrow> v | None \<Rightarrow> kv_get (parent ?s) k) = view ?s k" .
    moreover have "view ?s = view s" using d by blast
    ultimately show ?thesis unfolding overlay_def p[THEN conjunct2] c[THEN conjunct2] using True by simp
  next
    case False
    then show ?thesis unfolding overlay_def p[THEN conjunct2] c[THEN conjunct2] by simp
  qed
  have "Cache_iterator start endk asc s = (Inr (merge_entries asc ?ps ?cs), ?s)"
    using assms(2,3) wf by (simp add: Cache_iterator_def Let_def memIterator_eq)
  moreover have "rsorted asc (merge_entries asc ?ps ?cs)"
    "\<And>k v. (k, v) \<in> set (merge_entries asc ?ps ?cs) \<longleftrightarrow> v \<noteq> None \<and> overlay ?ps ?cs k = v"
    using merge_entries_spec[of asc ?ps ?cs] p c by blast+
  ultimately show ?thesis using d ov unfolding rsorted_def by (intro exI[of _ "merge_entries asc ?ps ?cs"] exI[of _ ?s]) auto
qed

text \<open>C29: an iterator over the cache-wrapped store visits, in the order asked for, exactly
  the live entries of the range as later reads would return them: cached writes shadow
  the parent, deleted keys are skipped, and none is visited twice. The binary searches
  that bound the sorting work do not lose entries.\<close>

theorem Cache_iterator_exact:
  assumes "cinv s" and "\<not> empty_bound start" and "\<not> empty_bound endk"
  shows "\<exists>es s'. Cache_iterator start endk asc s = (Inr es, s') \<and> cinv s' \<and> view s' = view s
    \<and> sorted_wrt (before asc) (map fst es)
    \<and> (\<forall>k v. (k, v) \<in> set es \<longleftrightarrow> v \<noteq> None \<and> IsKeyInDomain k start endk \<and> view s k = v)"
  by (rule Cache_iterator_run[OF assms])

lemma Cache_iterator_exact_witness:
  "\<exists>es s'. Cache_iterator None None True (setCacheValue (NewStore [([1], [7])]) [1] None True) = (Inr es, s')
    \<and> cinv s' \<and> view s' = view (setCacheValue (NewStore [([1], [7])]) [1] None True)
    \<and> sorted_wrt (before True) (map fst es)
    \<and> (\<forall>k v. (k, v) \<in> set es \<longleftrightarrow> v \<noteq> None \<and> IsKeyInDomain k None None
        \<and> view (setCacheValue (NewStore [([1], [7])]) [1] None True) k = v)"
  by (rule Cache_iterator_exact) (simp_all add: setCacheValue_dirty NewStore_cinv empty_bound_def)

end
