(* ===== verification/CacheRefine.thy ===== *)
theory CacheRefine
  imports CacheKV
begin

text \<open>
  The cache-wrapped store refines the store it wraps. A client is a sequence of calls of
  the interface \<open>KVStore\<close> (\<^verbatim>\<open>src/core/store/store.go\<close>); the abstract machine runs them on
  an ordered map, the concrete one on a cache over that map. The simulation relation is
  that the view of the cache is the ordered map. The theory also shows that the
  cache-wrapped store satisfies the contract \<open>ordered_store\<close>.
\<close>

section \<open>Calls and replies\<close>

datatype store_call =
    CGet bytes
  | CHas bytes
  | CSet bytes "bytes option"
  | CDelete bytes
  | CIterate "bytes option" "bytes option" bool

datatype reply = RValue "bytes option" | RBool bool | RUnit | REntries "(bytes \<times> bytes option) list"

definition reply_op :: "('a \<Rightarrow> reply) \<Rightarrow> ('s, 'a) op \<Rightarrow> ('s, reply) op" where
  "reply_op f m = bind_op m (\<lambda>x. ret_op (f x))"

fun cache_call :: "store_call \<Rightarrow> (cstore, reply) op" where
  "cache_call (CGet k) = reply_op RValue (Cache_Get k)"
| "cache_call (CHas k) = reply_op RBool (Cache_Has k)"
| "cache_call (CSet k v) = reply_op (\<lambda>_. RUnit) (Cache_Set k v)"
| "cache_call (CDelete k) = reply_op (\<lambda>_. RUnit) (Cache_Delete k)"
| "cache_call (CIterate start endk asc) = reply_op REntries (Cache_iterator start endk asc)"

text \<open>The same calls on the ordered map itself.\<close>

fun direct_call :: "store_call \<Rightarrow> ((bytes, bytes) kvmap, reply) op" where
  "direct_call (CGet k) =
     bind_op (lift_op (AssertValidKey k)) (\<lambda>_. gets_op (\<lambda>m. RValue (kv_get m k)))"
| "direct_call (CHas k) =
     bind_op (lift_op (AssertValidKey k)) (\<lambda>_. gets_op (\<lambda>m. RBool (kv_has m k)))"
| "direct_call (CSet k v) =
     bind_op (lift_op (AssertValidKey k)) (\<lambda>_. bind_op (lift_op (AssertValidValue v)) (\<lambda>_.
       bind_op (modify_op (\<lambda>m. kv_set m k (the v))) (\<lambda>_. ret_op RUnit)))"
| "direct_call (CDelete k) =
     bind_op (lift_op (AssertValidKey k)) (\<lambda>_. bind_op (modify_op (\<lambda>m. kv_del m k)) (\<lambda>_. ret_op RUnit))"
| "direct_call (CIterate start endk asc) =
     bind_op (lift_op (assert_r (\<not> (empty_bound start \<or> empty_bound endk)) (Panic ''key cannot be empty''))) (\<lambda>_.
       gets_op (\<lambda>m. REntries (map (\<lambda>(k, v). (k, Some v)) (parent_iterator start endk m asc))))"

fun run_calls :: "('c \<Rightarrow> ('s, 'r) op) \<Rightarrow> 'c list \<Rightarrow> ('s, 'r list) op" where
  "run_calls f [] = ret_op []"
| "run_calls f (c # cs) = bind_op (f c) (\<lambda>r. bind_op (run_calls f cs) (\<lambda>rs. ret_op (r # rs)))"

section \<open>The simulation\<close>

definition simulates :: "cstore \<Rightarrow> (bytes, bytes) kvmap \<Rightarrow> bool" where
  "simulates s m \<longleftrightarrow> cinv s \<and> kv_wf m \<and> view s = kv_get m"

lemma entries_unique:
  assumes "sorted_wrt (before asc) (map fst xs)" and "sorted_wrt (before asc) (map fst ys)" and "set xs = set ys"
  shows "xs = ys"
proof -
  have irr: "sorted_wrt (before asc) (map fst zs) \<Longrightarrow>
      sorted_wrt (\<lambda>a b. if asc then fst a < fst b else fst b < fst a) zs" for zs :: "(bytes \<times> 'a) list"
    by (simp add: sorted_wrt_map before_def)
  let ?R = "\<lambda>a b :: bytes \<times> 'a. if asc then fst a < fst b else fst b < fst a"
  have "sorted_wrt ?R xs \<Longrightarrow> sorted_wrt ?R ys \<Longrightarrow> set xs = set ys \<Longrightarrow> xs = ys"
  proof (induction xs arbitrary: ys)
    case (Cons x xs)
    then obtain y ys' where ys: "ys = y # ys'" by (cases ys) auto
    have asym: "?R a b \<Longrightarrow> \<not> ?R b a" for a b using less_not_sym by (auto split: if_splits)
    have "x = y"
    proof (rule ccontr)
      assume "x \<noteq> y"
      then have "x \<in> set ys'" "y \<in> set xs" using Cons.prems(3) ys by auto
      then have "?R y x" "?R x y" using Cons.prems(1,2) ys by auto
      then show False using asym by blast
    qed
    moreover have "x \<notin> set xs" "y \<notin> set ys'" using Cons.prems(1,2) ys asym by auto
    ultimately have "set xs = set ys'" using Cons.prems(3) ys by auto
    then show ?case using Cons.IH[of ys'] Cons.prems(1,2) ys \<open>x = y\<close> by simp
  qed simp
  then show ?thesis using assms irr by blast
qed

lemma iterator_simulates:
  assumes "simulates s m" and "\<not> empty_bound start" and "\<not> empty_bound endk"
  shows "\<exists>s'. Cache_iterator start endk asc s =
      (Inr (map (\<lambda>(k, v). (k, Some v)) (parent_iterator start endk m asc)), s') \<and> simulates s' m"
proof -
  have inv: "cinv s" and wf: "kv_wf m" and vw: "view s = kv_get m" using assms(1) by (auto simp: simulates_def)
  obtain es s' where es: "Cache_iterator start endk asc s = (Inr es, s')" "cinv s'" "view s' = view s"
    "sorted_wrt (before asc) (map fst es)"
    "\<And>k v. (k, v) \<in> set es \<longleftrightarrow> v \<noteq> None \<and> IsKeyInDomain k start endk \<and> view s k = v"
    using Cache_iterator_run[OF inv assms(2,3), of asc] by blast
  let ?ps = "parent_iterator start endk m asc"
  have p: "rsorted asc ?ps" using parent_iterator_map_of[OF wf] by blast
  have "es = map (\<lambda>(k, v). (k, Some v)) ?ps"
  proof (rule entries_unique[OF es(4)])
    show "sorted_wrt (before asc) (map fst (map (\<lambda>(k, v). (k, Some v)) ?ps))"
      using p by (simp add: rsorted_def comp_def case_prod_unfold)
    have in_ps: "(k, v) \<in> set ?ps \<longleftrightarrow> IsKeyInDomain k start endk \<and> kv_get m k = Some v" for k v
      using kv.in_items[OF wf, of k v] by (auto simp: parent_iterator_def Let_def)
    have in_map: "(k, w) \<in> set (map (\<lambda>(k, v). (k, Some v)) ?ps) \<longleftrightarrow> (\<exists>v. w = Some v \<and> (k, v) \<in> set ?ps)" for k w
      by (auto simp: image_iff) (metis case_prod_conv)+
    show "set es = set (map (\<lambda>(k, v). (k, Some v)) ?ps)"
    proof (rule set_eqI, clarify)
      fix k w
      show "(k, w) \<in> set es \<longleftrightarrow> (k, w) \<in> set (map (\<lambda>(k, v). (k, Some v)) ?ps)"
        unfolding in_map in_ps es(5) vw by (cases w) auto
    qed
  qed
  with es(1-3) wf vw show ?thesis by (auto simp: simulates_def)
qed

lemma call_simulates:
  assumes "simulates s m"
  shows "fst (cache_call c s) = fst (direct_call c m) \<and> simulates (snd (cache_call c s)) (snd (direct_call c m))"
proof -
  have inv: "cinv s" and wf: "kv_wf m" and vw: "view s = kv_get m" using assms by (auto simp: simulates_def)
  have get: "\<exists>s'. Cache_Get k s = (Inr (kv_get m k), s') \<and> simulates s' m" if "AssertValidKey k = Inr u" for k u
    using Cache_Get_run[OF inv, of k] that wf vw by (auto simp: simulates_def)
  have get_bad: "Cache_Get k s = (Inl e, s)" if "AssertValidKey k = Inl e" for k e
    using that by (simp add: Cache_Get_def bind_op_def lift_op_def)
  show ?thesis
  proof (cases c)
    case (CGet k)
    then show ?thesis
      using get[of k] get_bad[of k] assms
      by (cases "AssertValidKey k") (auto simp: reply_op_def bind_op_def op_run)
  next
    case (CHas k)
    then show ?thesis
      using get[of k] get_bad[of k] assms
      by (cases "AssertValidKey k") (auto simp: reply_op_def Cache_Has_def bind_op_def op_run)
  next
    case (CSet k v)
    have "simulates (setCacheValue s k (Some b) True) (kv_set m k b)" for b
      using setCacheValue_dirty[OF inv] wf vw by (simp add: simulates_def kv_wf_set kv_get_set fun_eq_iff)
    then show ?thesis
      using assms CSet
      by (cases "AssertValidKey k"; cases v)
        (auto simp: reply_op_def Cache_Set_def bind_op_def op_run AssertValidValue_def)
  next
    case (CDelete k)
    have "simulates (setCacheValue s k None True) (kv_del m k)"
      using setCacheValue_dirty[OF inv] wf vw by (simp add: simulates_def kv_wf_del kv_get_del fun_eq_iff)
    then show ?thesis
      using assms CDelete
      by (cases "AssertValidKey k") (auto simp: reply_op_def Cache_Delete_def bind_op_def op_run)
  next
    case (CIterate start endk asc)
    show ?thesis
    proof (cases "empty_bound start \<or> empty_bound endk")
      case True
      have "simulates (dirtyItems s start endk) m"
        using dirtyItems_spec[OF inv, of start endk] wf vw by (simp add: simulates_def)
      with True CIterate show ?thesis
        by (auto simp: reply_op_def Cache_iterator_def bind_op_def op_run assert_r_def Let_def)
    next
      case False
      then show ?thesis using CIterate iterator_simulates[OF assms, of start endk asc]
        by (auto simp: reply_op_def bind_op_def op_run assert_r_def)
    qed
  qed
qed

lemma Cache_Get_parent: "parent (snd (Cache_Get k s)) = parent s"
  by (auto simp: Cache_Get_def bind_op_def op_run setCacheValue_sel Let_def split: sum.split option.split)

lemma dirtyItems_parent: "parent (dirtyItems s start endk) = parent s"
  by (auto simp: dirtyItems_def clearUnsortedCacheSubset_def Let_def split: option.split prod.split)

abbreviation same_parent :: "cstore \<Rightarrow> cstore \<Rightarrow> bool" where
  "same_parent s s' \<equiv> parent s' = parent s"

lemma same_parent_order: "reflp same_parent" "transp same_parent"
  by (auto intro: reflpI transpI)

lemma cache_call_parent: "keeps same_parent (cache_call c)"
proof -
  have w: "keeps same_parent (modify_op (\<lambda>s. setCacheValue s k v d))" for k v d
    by (simp add: keeps_def modify_op_def setCacheValue_sel)
  have g: "keeps same_parent (Cache_Get k)" for k by (simp add: keeps_def Cache_Get_parent)
  have i: "keeps same_parent (Cache_iterator start endk asc)" for start endk asc
    by (simp add: keeps_def Cache_iterator_def dirtyItems_parent Let_def)
  show ?thesis
    by (cases c) (auto simp: reply_op_def Cache_Has_def Cache_Set_def Cache_Delete_def
        intro!: keeps_intros same_parent_order w g i)
qed

lemma run_calls_keeps [keeps_intros]:
  "reflp R \<Longrightarrow> transp R \<Longrightarrow> (\<And>c. keeps R (f c)) \<Longrightarrow> keeps R (run_calls f cs)"
  by (induction cs) (simp_all add: keeps_intros)

lemma run_calls_parent: "parent (snd (run_calls cache_call cs s)) = parent s"
  using run_calls_keeps[OF same_parent_order cache_call_parent, of "\<lambda>c. c" cs] by (simp add: keeps_def)

lemma run_simulates:
  assumes "simulates s m"
  shows "fst (run_calls cache_call cs s) = fst (run_calls direct_call cs m)
    \<and> simulates (snd (run_calls cache_call cs s)) (snd (run_calls direct_call cs m))"
  using assms
proof (induction cs arbitrary: s m)
  case (Cons c cs)
  obtain r s1 where s1: "cache_call c s = (r, s1)" by fastforce
  obtain q m1 where m1: "direct_call c m = (q, m1)" by fastforce
  have one: "q = r" "simulates s1 m1" using call_simulates[OF Cons.prems, of c] s1 m1 by auto
  show ?case
    using Cons.IH[OF one(2)] s1 m1 one
    by (cases r; cases "run_calls cache_call cs s1"; cases "run_calls direct_call cs m1"; cases "fst (run_calls cache_call cs s1)")
      (auto simp: bind_op_def op_run)
qed (simp add: op_run)

lemma simulates_NewStore: "kv_wf p \<Longrightarrow> simulates (NewStore p) p"
  unfolding simulates_def using NewStore_cinv[of p] by (auto simp: view_def NewStore_def)

text \<open>C10: a transaction run on a cache-wrapped store is indistinguishable from one run on the
  store itself. For every sequence of calls, iterators over any range and in both
  directions included, the replies and the errors are the same; flushing the cache then
  leaves the parent with exactly the entries of the direct run, and until then the
  parent is unchanged.\<close>

theorem cache_refines_direct:
  assumes "kv_wf p"
  shows "fst (run_calls cache_call cs (NewStore p)) = fst (run_calls direct_call cs p)
    \<and> parent (Cache_Write (snd (run_calls cache_call cs (NewStore p)))) = snd (run_calls direct_call cs p)
    \<and> parent (snd (run_calls cache_call cs (NewStore p))) = p"
proof -
  let ?s = "snd (run_calls cache_call cs (NewStore p))" and ?m = "snd (run_calls direct_call cs p)"
  note r = run_simulates[OF simulates_NewStore[OF assms], of cs]
  then have "cinv ?s" "kv_wf ?m" "view ?s = kv_get ?m" by (auto simp: simulates_def)
  then have "parent (Cache_Write ?s) = ?m"
    using Cache_Write_view[of ?s] by (intro kv.items_cong) simp_all
  moreover have "parent ?s = p" by (simp add: run_calls_parent NewStore_def)
  ultimately show ?thesis using r by blast
qed

lemma cache_refines_direct_witness:
  "fst (run_calls cache_call [CSet [1] (Some [9]), CIterate None None True, CDelete [1], CHas [1]] (NewStore [([1], [7])]))
     = fst (run_calls direct_call [CSet [1] (Some [9]), CIterate None None True, CDelete [1], CHas [1]] [([1], [7])])
   \<and> parent (Cache_Write (snd (run_calls cache_call [CSet [1] (Some [9]), CIterate None None True, CDelete [1], CHas [1]] (NewStore [([1], [7])]))))
     = snd (run_calls direct_call [CSet [1] (Some [9]), CIterate None None True, CDelete [1], CHas [1]] [([1], [7])])
   \<and> parent (snd (run_calls cache_call [CSet [1] (Some [9]), CIterate None None True, CDelete [1], CHas [1]] (NewStore [([1], [7])]))) = [([1], [7])]"
  by (rule cache_refines_direct) simp

section \<open>The cache-wrapped store as an ordered store\<close>

definition cache_items :: "cstore \<Rightarrow> (bytes \<times> bytes) list" where
  "cache_items s =
     (case Cache_iterator None None True s of
        (Inr es, _) \<Rightarrow> map (\<lambda>(k, v). (k, the v)) es
      | (Inl _, _) \<Rightarrow> [])"

lemma cache_items_spec:
  assumes "cinv s"
  shows "sorted_wrt (<) (map fst (cache_items s))" and "view s k = map_of (cache_items s) k"
proof -
  have ne: "\<not> empty_bound None" by (simp add: empty_bound_def)
  obtain es s' where es: "Cache_iterator None None True s = (Inr es, s')"
    "sorted_wrt (before True) (map fst es)"
    "\<And>k v. (k, v) \<in> set es \<longleftrightarrow> v \<noteq> None \<and> IsKeyInDomain k None None \<and> view s k = v"
    using Cache_iterator_run[OF assms ne ne, of True] by blast
  have items: "cache_items s = map (\<lambda>(k, v). (k, the v)) es" by (simp add: cache_items_def es(1))
  have b: "before True = (<)" by (auto simp: before_def fun_eq_iff)
  have keys: "map fst (cache_items s) = map fst es" by (auto simp: items)
  show sorted: "sorted_wrt (<) (map fst (cache_items s))" using es(2) by (simp add: keys b)
  then have d: "distinct (map fst (cache_items s))" by (simp add: strict_sorted_iff)
  have "(k, v) \<in> set (cache_items s) \<longleftrightarrow> view s k = Some v" for v
  proof -
    have "(k, v) \<in> set (cache_items s) \<longleftrightarrow> (k, Some v) \<in> set es"
    proof
      assume "(k, v) \<in> set (cache_items s)"
      then obtain w where w: "(k, w) \<in> set es" "v = the w" by (auto simp: items)
      then show "(k, Some v) \<in> set es" using es(3)[of k w] by auto
    next
      assume "(k, Some v) \<in> set es"
      then have "(\<lambda>(k, v). (k, the v)) (k, Some v) \<in> set (cache_items s)" unfolding items set_map by (rule imageI)
      then show "(k, v) \<in> set (cache_items s)" by simp
    qed
    then show ?thesis by (simp add: es(3) IsKeyInDomain_def)
  qed
  then show "view s k = map_of (cache_items s) k" using d by (intro option_eqI) simp
qed

interpretation cachekv: ordered_store view "\<lambda>s k v. setCacheValue s k (Some v) True"
  "\<lambda>s k. setCacheValue s k None True" cache_items cinv
  by unfold_locales (auto simp: setCacheValue_dirty cache_items_spec)

end
