(* ===== verification/PrefixKV.thy ===== *)
theory PrefixKV
  imports CacheRefine
begin

text \<open>
  The prefix store, \<^verbatim>\<open>src/store/prefix/store.go\<close>: the view a module has of the part of a
  store whose keys start with its prefix. The parent is the parameter \<open>par\<close>, which runs a
  call; a \<open>nil\<close> key is \<open>None\<close>.
\<close>

section \<open>The store\<close>

definition cloneAppend :: "bytes \<Rightarrow> bytes option \<Rightarrow> bytes" where
  "cloneAppend bz tail = bz @ (case tail of None \<Rightarrow> [] | Some t \<Rightarrow> t)"

definition prefix_key :: "bytes \<Rightarrow> bytes option \<Rightarrow> bytes res" where
  "prefix_key pfx key =
     (case key of None \<Rightarrow> Inl (Panic ''nil key on Store'') | Some k \<Rightarrow> Inr (cloneAppend pfx (Some k)))"

definition cpIncr :: "bytes \<Rightarrow> bytes option" where
  "cpIncr bz = PrefixEndBytes bz"

definition stripPrefix :: "bytes \<Rightarrow> bytes \<Rightarrow> bytes res" where
  "stripPrefix key pfx =
     (if length key < length pfx \<or> take (length pfx) key \<noteq> pfx then Inl (Panic ''should not happen'')
      else Inr (drop (length pfx) key))"

definition Prefix_Get :: "(store_call \<Rightarrow> ('p, reply) op) \<Rightarrow> bytes \<Rightarrow> bytes option \<Rightarrow> ('p, reply) op" where
  "Prefix_Get par pfx key = bind_op (lift_op (prefix_key pfx key)) (\<lambda>k. par (CGet k))"

definition Prefix_Has :: "(store_call \<Rightarrow> ('p, reply) op) \<Rightarrow> bytes \<Rightarrow> bytes option \<Rightarrow> ('p, reply) op" where
  "Prefix_Has par pfx key = bind_op (lift_op (prefix_key pfx key)) (\<lambda>k. par (CHas k))"

definition Prefix_Set :: "(store_call \<Rightarrow> ('p, reply) op) \<Rightarrow> bytes \<Rightarrow> bytes option \<Rightarrow> bytes option \<Rightarrow> ('p, reply) op" where
  "Prefix_Set par pfx key v =
     seq_op (lift_op (AssertValidKey (case key of None \<Rightarrow> [] | Some k \<Rightarrow> k)))
     (seq_op (lift_op (AssertValidValue v))
     (bind_op (lift_op (prefix_key pfx key)) (\<lambda>k. par (CSet k v))))"

definition Prefix_Delete :: "(store_call \<Rightarrow> ('p, reply) op) \<Rightarrow> bytes \<Rightarrow> bytes option \<Rightarrow> ('p, reply) op" where
  "Prefix_Delete par pfx key = bind_op (lift_op (prefix_key pfx key)) (\<lambda>k. par (CDelete k))"

text \<open>A prefix iterator is the list of the entries its parent still has to visit with the
  flag \<open>valid\<close>; the entries it visits are collected by \<open>prefix_visit\<close>.\<close>

definition newPrefixIterator :: "bytes \<Rightarrow> (bytes \<times> bytes option) list \<Rightarrow> bool" where
  "newPrefixIterator pfx es = (es \<noteq> [] \<and> prefix pfx (fst (hd es)))"

definition prefixIterator_Next :: "bytes \<Rightarrow> (bytes \<times> bytes option) list \<Rightarrow> (bytes \<times> bytes option) list \<times> bool" where
  "prefixIterator_Next pfx es =
     (let es' = tl es in (es', \<not> (es' = [] \<or> \<not> prefix pfx (fst (hd es')))))"

definition prefixIterator_Key :: "bytes \<Rightarrow> (bytes \<times> bytes option) list \<Rightarrow> bytes res" where
  "prefixIterator_Key pfx es = stripPrefix (fst (hd es)) pfx"

fun prefix_visit :: "nat \<Rightarrow> bytes \<Rightarrow> (bytes \<times> bytes option) list \<Rightarrow> bool \<Rightarrow> (bytes \<times> bytes option) list res" where
  "prefix_visit 0 pfx es valid = Inr []"
| "prefix_visit (Suc n) pfx es valid =
     (if valid \<and> es \<noteq> [] then
        bind_r (prefixIterator_Key pfx es) (\<lambda>k.
          let (es', valid') = prefixIterator_Next pfx es in
          bind_r (prefix_visit n pfx es' valid') (\<lambda>rest. Inr ((k, snd (hd es)) # rest)))
      else Inr [])"

definition entries_of :: "reply \<Rightarrow> (bytes \<times> bytes option) list" where
  "entries_of r = (case r of REntries es \<Rightarrow> es | _ \<Rightarrow> [])"

definition Prefix_iterator :: "(store_call \<Rightarrow> ('p, reply) op) \<Rightarrow> bytes \<Rightarrow> bytes option \<Rightarrow> bytes option \<Rightarrow> bool \<Rightarrow> ('p, reply) op" where
  "Prefix_iterator par pfx start endk ascending =
     (let newstart = cloneAppend pfx start;
          newend = (case endk of None \<Rightarrow> cpIncr pfx | Some e \<Rightarrow> Some (cloneAppend pfx (Some e))) in
      bind_op (par (CIterate (Some newstart) newend ascending)) (\<lambda>r.
        let es = entries_of r in
        bind_op (lift_op (prefix_visit (length es) pfx es (newPrefixIterator pfx es))) (\<lambda>out. ret_op (REntries out))))"

fun prefix_call :: "(store_call \<Rightarrow> ('p, reply) op) \<Rightarrow> bytes \<Rightarrow> store_call \<Rightarrow> ('p, reply) op" where
  "prefix_call par pfx (CGet k) = Prefix_Get par pfx (Some k)"
| "prefix_call par pfx (CHas k) = Prefix_Has par pfx (Some k)"
| "prefix_call par pfx (CSet k v) = Prefix_Set par pfx (Some k) v"
| "prefix_call par pfx (CDelete k) = Prefix_Delete par pfx (Some k)"
| "prefix_call par pfx (CIterate start endk asc) = Prefix_iterator par pfx start endk asc"

section \<open>The part of a store under a prefix\<close>

definition sub :: "bytes \<Rightarrow> (bytes, 'v) kvmap \<Rightarrow> (bytes, 'v) kvmap" where
  "sub pfx m = map (\<lambda>e. (drop (length pfx) (fst e), snd e)) (filter (\<lambda>e. prefix pfx (fst e)) m)"

definition outside :: "bytes \<Rightarrow> (bytes, 'v) kvmap \<Rightarrow> (bytes, 'v) kvmap" where
  "outside pfx m = filter (\<lambda>e. \<not> prefix pfx (fst e)) m"

lemma append_less [simp]: "pfx @ a < pfx @ b \<longleftrightarrow> a < b" for pfx a b :: bytes
  by (induction pfx) simp_all

lemma append_le [simp]: "pfx @ a \<le> pfx @ b \<longleftrightarrow> a \<le> b" for pfx a b :: bytes
  by (induction pfx) simp_all

lemma drop_prefix: "prefix pfx k \<Longrightarrow> pfx @ drop (length pfx) k = k"
  by (auto simp: prefix_def)

lemma kv_wf_sub: "kv_wf m \<Longrightarrow> kv_wf (sub pfx m)"
proof -
  assume "kv_wf m"
  then have "sorted_wrt (\<lambda>a b. fst a < fst b) (filter (\<lambda>e. prefix pfx (fst e)) m)"
    by (simp add: kv_wf_def sorted_wrt_map sorted_wrt_filter)
  then show ?thesis
    unfolding kv_wf_def sub_def sorted_wrt_map
    by (rule sorted_wrt_mono_rel[rotated]) (auto simp: prefix_def)
qed

lemma kv_get_sub: "kv_wf m \<Longrightarrow> kv_get (sub pfx m) k = kv_get m (pfx @ k)"
proof (rule option_eqI)
  fix v assume wf: "kv_wf m"
  have "kv_get (sub pfx m) k = Some v \<longleftrightarrow> (k, v) \<in> set (sub pfx m)"
    using kv.in_items[OF kv_wf_sub[OF wf]] by simp
  also have "\<dots> \<longleftrightarrow> (pfx @ k, v) \<in> set m" by (force simp: sub_def prefix_def image_iff)
  also have "\<dots> \<longleftrightarrow> kv_get m (pfx @ k) = Some v" using kv.in_items[OF wf] by simp
  finally show "kv_get (sub pfx m) k = Some v \<longleftrightarrow> kv_get m (pfx @ k) = Some v" .
qed

lemma kv_wf_outside: "kv_wf m \<Longrightarrow> kv_wf (outside pfx m)"
  by (simp add: kv_wf_def outside_def sorted_wrt_map sorted_wrt_filter)

lemma kv_get_outside: "kv_wf m \<Longrightarrow> kv_get (outside pfx m) k = (if prefix pfx k then None else kv_get m k)"
proof (rule option_eqI)
  fix v assume wf: "kv_wf m"
  show "kv_get (outside pfx m) k = Some v \<longleftrightarrow> (if prefix pfx k then None else kv_get m k) = Some v"
    using kv.in_items[OF kv_wf_outside[OF wf], of k v pfx] kv.in_items[OF wf, of k v] by (auto simp: outside_def)
qed

lemma sub_update:
  assumes "kv_wf m"
  shows "sub pfx (kv_set m (pfx @ k) v) = kv_set (sub pfx m) k v" "sub pfx (kv_del m (pfx @ k)) = kv_del (sub pfx m) k"
    "outside pfx (kv_set m (pfx @ k) v) = outside pfx m" "outside pfx (kv_del m (pfx @ k)) = outside pfx m"
  by (rule kv.items_cong;
      auto simp: assms kv_wf_sub kv_wf_outside kv_wf_set kv_wf_del kv_get_sub kv_get_outside kv_get_set kv_get_del)+

section \<open>Iteration\<close>

lemma prefix_domain:
  assumes "newend = (case endk of None \<Rightarrow> cpIncr pfx | Some e \<Rightarrow> Some (cloneAppend pfx (Some e)))"
  shows "IsKeyInDomain k (Some (cloneAppend pfx start)) newend \<longleftrightarrow>
    prefix pfx k \<and> IsKeyInDomain (drop (length pfx) k) start endk"
proof -
  let ?s = "case start of None \<Rightarrow> [] | Some t \<Rightarrow> t"
  have end_ok: "(case cpIncr pfx of None \<Rightarrow> True | Some e \<Rightarrow> k < e) \<Longrightarrow> pfx \<le> k \<Longrightarrow> prefix pfx k"
    "prefix pfx k \<Longrightarrow> (case cpIncr pfx of None \<Rightarrow> True | Some e \<Rightarrow> k < e)"
    using prefix_range[of pfx k] by (auto simp: cpIncr_def PrefixEndBytes_def nextBytesPrefixKey_def)
  have le: "pfx \<le> k" if "pfx @ ?s \<le> k" using that prefix_le[of pfx "pfx @ ?s"] by (meson order_trans prefixI)
  have pre: "prefix pfx k" if "pfx \<le> k" "k < pfx @ e" for e
    using prefix_between[of pfx "pfx @ e" k] that by (meson less_imp_le prefixI)
  have "prefix pfx k" if "IsKeyInDomain k (Some (cloneAppend pfx start)) newend"
    using that assms le pre end_ok(1) by (auto simp: IsKeyInDomain_def cloneAppend_def split: option.splits)
  moreover have "IsKeyInDomain k (Some (cloneAppend pfx start)) newend \<longleftrightarrow> IsKeyInDomain (drop (length pfx) k) start endk"
    if pk: "prefix pfx k"
  proof -
    obtain r where k: "k = pfx @ r" using pk by (auto simp: prefix_def)
    show ?thesis using assms end_ok(2)[OF pk] unfolding k
      by (cases start; cases endk) (auto simp: IsKeyInDomain_def cloneAppend_def prefix_le)
  qed
  ultimately show ?thesis by blast
qed

lemma prefix_visit_all:
  assumes "\<forall>e\<in>set es. prefix pfx (fst e)" and "length es \<le> n"
  shows "prefix_visit n pfx es (newPrefixIterator pfx es) = Inr (map (\<lambda>e. (drop (length pfx) (fst e), snd e)) es)"
  using assms
proof (induction n arbitrary: es)
  case (Suc n)
  show ?case
  proof (cases es)
    case (Cons e es')
    have p: "prefix pfx (fst e)" using Suc.prems(1) Cons by simp
    then have key: "prefixIterator_Key pfx es = Inr (drop (length pfx) (fst e))"
      by (auto simp: prefixIterator_Key_def stripPrefix_def Cons prefix_def)
    have nxt: "prefixIterator_Next pfx es = (es', newPrefixIterator pfx es')"
      by (auto simp: prefixIterator_Next_def newPrefixIterator_def Cons)
    show ?thesis using Suc.IH[of es'] Suc.prems Cons p key nxt by (simp add: newPrefixIterator_def)
  qed simp
qed simp

lemma prefix_parent_iterator:
  fixes m :: "(bytes, bytes) kvmap"
  assumes "newend = (case endk of None \<Rightarrow> cpIncr pfx | Some e \<Rightarrow> Some (cloneAppend pfx (Some e)))"
  shows "map (\<lambda>e. (drop (length pfx) (fst e), snd e)) (parent_iterator (Some (cloneAppend pfx start)) newend m asc)
      = parent_iterator start endk (sub pfx m) asc"
    and "\<forall>e\<in>set (parent_iterator (Some (cloneAppend pfx start)) newend m asc). prefix pfx (fst e)"
proof -
  note d = prefix_domain[OF assms]
  have "filter (\<lambda>e. IsKeyInDomain (fst e) (Some (cloneAppend pfx start)) newend) m
      = filter (\<lambda>e. IsKeyInDomain (drop (length pfx) (fst e)) start endk) (filter (\<lambda>e. prefix pfx (fst e)) m)"
    by (simp add: d conj_commute)
  then show "map (\<lambda>e. (drop (length pfx) (fst e), snd e)) (parent_iterator (Some (cloneAppend pfx start)) newend m asc)
      = parent_iterator start endk (sub pfx m) asc"
    by (simp add: parent_iterator_def sub_def filter_map comp_def rev_map Let_def)
  show "\<forall>e\<in>set (parent_iterator (Some (cloneAppend pfx start)) newend m asc). prefix pfx (fst e)"
    by (simp add: parent_iterator_def Let_def d)
qed

section \<open>Refinement\<close>

text \<open>The calls that stay within the size limits once the prefix is added.\<close>

fun call_fits :: "bytes \<Rightarrow> store_call \<Rightarrow> bool" where
  "call_fits pfx (CGet k) = (k \<noteq> [] \<and> length pfx + length k \<le> MaxKeyLength)"
| "call_fits pfx (CHas k) = (k \<noteq> [] \<and> length pfx + length k \<le> MaxKeyLength)"
| "call_fits pfx (CSet k v) = (k \<noteq> [] \<and> length pfx + length k \<le> MaxKeyLength)"
| "call_fits pfx (CDelete k) = (k \<noteq> [] \<and> length pfx + length k \<le> MaxKeyLength)"
| "call_fits pfx (CIterate start endk asc) = (\<not> empty_bound start \<and> \<not> empty_bound endk)"

lemma valid_key: "k \<noteq> [] \<Longrightarrow> length pfx + length k \<le> MaxKeyLength \<Longrightarrow>
    AssertValidKey (pfx @ k) = Inr () \<and> AssertValidKey k = Inr ()"
  by (auto simp: AssertValidKey_def)

lemma prefix_call_refines:
  assumes "kv_wf m" and "call_fits pfx c" and "pfx \<noteq> []"
  shows "fst (prefix_call direct_call pfx c m) = fst (direct_call c (sub pfx m))
    \<and> sub pfx (snd (prefix_call direct_call pfx c m)) = snd (direct_call c (sub pfx m))
    \<and> outside pfx (snd (prefix_call direct_call pfx c m)) = outside pfx m
    \<and> kv_wf (snd (prefix_call direct_call pfx c m))"
proof (cases c)
  case (CIterate start endk asc)
  let ?ne = "case endk of None \<Rightarrow> cpIncr pfx | Some e \<Rightarrow> Some (cloneAppend pfx (Some e))"
  let ?ps = "parent_iterator (Some (cloneAppend pfx start)) ?ne m asc"
  let ?es = "map (\<lambda>(k, v). (k, Some v)) ?ps"
  note it = prefix_parent_iterator[OF refl, of pfx start endk m asc]
  have inc: "inc_last xs \<noteq> Some []" for xs by (induction xs) simp_all
  then have "cpIncr pfx \<noteq> Some []" by (auto simp: cpIncr_def PrefixEndBytes_def)
  then have eb: "\<not> empty_bound (Some (cloneAppend pfx start))" "\<not> empty_bound ?ne"
    using assms(3) by (auto simp: empty_bound_def cloneAppend_def split: option.splits)
  have vis: "prefix_visit (length ?es) pfx ?es (newPrefixIterator pfx ?es)
      = Inr (map (\<lambda>(k, v). (k, Some v)) (parent_iterator start endk (sub pfx m) asc))"
    using prefix_visit_all[of ?es pfx "length ?es"] it(2)
    by (simp add: it(1)[symmetric] case_prod_unfold comp_def)
  have par: "direct_call (CIterate (Some (cloneAppend pfx start)) ?ne asc) m = (Inr (REntries ?es), m)"
    using eb by (simp add: bind_op_def op_run assert_r_def)
  show ?thesis using assms(1,2) par vis
    by (simp add: CIterate Prefix_iterator_def Let_def bind_op_def op_run assert_r_def entries_of_def del: direct_call.simps(5))
      (simp add: bind_op_def op_run assert_r_def)
qed (use assms valid_key[of _ pfx] in \<open>auto simp: Prefix_Get_def Prefix_Has_def Prefix_Set_def Prefix_Delete_def
    prefix_key_def cloneAppend_def bind_op_def op_run seq_op_def sub_update kv_get_sub kv_wf_set kv_wf_del split: sum.split\<close>)

text \<open>C16: a module that works on a prefix store works on a store of its own. Any sequence of
  calls gives the replies it would give on the part of the store under the prefix, with
  the prefix removed, and changes that part accordingly; the entries of other modules are
  neither seen nor changed. A prefix that ends in bytes 255 is no exception.\<close>

theorem prefix_store_isolated:
  assumes "kv_wf m" and "list_all (call_fits pfx) cs" and "pfx \<noteq> []"
  shows "fst (run_calls (prefix_call direct_call pfx) cs m) = fst (run_calls direct_call cs (sub pfx m))
    \<and> sub pfx (snd (run_calls (prefix_call direct_call pfx) cs m)) = snd (run_calls direct_call cs (sub pfx m))
    \<and> outside pfx (snd (run_calls (prefix_call direct_call pfx) cs m)) = outside pfx m"
  using assms(1,2)
proof (induction cs arbitrary: m)
  case (Cons c cs)
  obtain r m1 where m1: "prefix_call direct_call pfx c m = (r, m1)" by fastforce
  then have one: "direct_call c (sub pfx m) = (r, sub pfx m1)" "outside pfx m1 = outside pfx m" "kv_wf m1"
    using prefix_call_refines[OF Cons.prems(1) _ assms(3), of c] Cons.prems(2) by (auto simp: prod_eq_iff)
  show ?case
    using Cons.IH[OF one(3)] Cons.prems(2) m1 one
    by (cases r; cases "run_calls (prefix_call direct_call pfx) cs m1"; cases "run_calls direct_call cs (sub pfx m1)";
        cases "fst (run_calls direct_call cs (sub pfx m1))") (auto simp: bind_op_def op_run)
qed (simp add: op_run)

lemma prefix_store_isolated_witness:
  "fst (run_calls (prefix_call direct_call [255]) [CIterate None None False, CDelete [1]] [([2], [0]), ([255, 1], [7])])
     = fst (run_calls direct_call [CIterate None None False, CDelete [1]] (sub [255] [([2], [0]), ([255, 1], [7])]))
   \<and> sub [255] (snd (run_calls (prefix_call direct_call [255]) [CIterate None None False, CDelete [1]] [([2], [0]), ([255, 1], [7])]))
     = snd (run_calls direct_call [CIterate None None False, CDelete [1]] (sub [255] [([2], [0]), ([255, 1], [7])]))
   \<and> outside [255] (snd (run_calls (prefix_call direct_call [255]) [CIterate None None False, CDelete [1]] [([2], [0]), ([255, 1], [7])]))
     = outside [255] [([2], [0]), ([255, 1], [7])]"
  by (rule prefix_store_isolated) (simp_all add: empty_bound_def MaxKeyLength_def)

end
