(* ===== verification/MathInt.thy ===== *)
theory MathInt
  imports Prelude
begin

text \<open>
  The bounded integers of \<^verbatim>\<open>src/math/int.go\<close>.

  A Go \<^verbatim>\<open>*big.Int\<close> is an \<open>int\<close>; the wrapper \<open>Int\<close> is the same value
  under the bit-length checks written in the source, so every checked operation returns
  a result that may be a panic. The uninitialised wrapper (a nil pointer) is outside the
  model: each operation below dereferences its operands, so on such a value the Go code
  stops with a run-time error before it does anything. A machine integer argument
  (\<open>int64\<close>, \<open>uint64\<close>) is a 64-bit word.

  The locale \<open>checked_arith\<close> states what the other components use of a bounded addition
  and subtraction; it is interpreted for \<open>Int\<close> here and for \<open>LegacyDec\<close> in \<open>MathDec\<close>.
\<close>

type_synonym big_int = int
type_synonym sdk_Int = int
type_synonym int64 = "64 word"
type_synonym uint64 = "64 word"

named_theorems math_defs \<open>definitions of the arithmetic wrappers\<close>

section \<open>The operations of big.Int that the wrappers use\<close>

fun nat_bit_len :: "nat \<Rightarrow> nat" where
  "nat_bit_len n = (if n = 0 then 0 else Suc (nat_bit_len (n div 2)))"

declare nat_bit_len.simps [simp del]

definition BitLen :: "big_int \<Rightarrow> nat" where
  "BitLen x = nat_bit_len (nat \<bar>x\<bar>)"

text \<open>\<open>Quo\<close> and \<open>Rem\<close> truncate towards zero; \<open>Mod\<close> is the Euclidean modulus.\<close>

definition big_Quo :: "big_int \<Rightarrow> big_int \<Rightarrow> big_int" where
  "big_Quo x y = sgn x * sgn y * (\<bar>x\<bar> div \<bar>y\<bar>)"

definition big_Rem :: "big_int \<Rightarrow> big_int \<Rightarrow> big_int" where
  "big_Rem x y = x - y * big_Quo x y"

definition big_Mod :: "big_int \<Rightarrow> big_int \<Rightarrow> big_int" where
  "big_Mod x y = x mod \<bar>y\<bar>"

definition IsInt64 :: "big_int \<Rightarrow> bool" where
  "IsInt64 x = (- (2 ^ 63) \<le> x \<and> x < 2 ^ 63)"

definition IsUint64 :: "big_int \<Rightarrow> bool" where
  "IsUint64 x = (0 \<le> x \<and> x < 2 ^ 64)"

lemma nat_bit_len_le: "nat_bit_len n \<le> k \<longleftrightarrow> n < 2 ^ k"
proof (induction n arbitrary: k rule: nat_bit_len.induct)
  case (1 n)
  show ?case
  proof (cases "n = 0")
    case True
    then show ?thesis by (simp add: nat_bit_len.simps)
  next
    case False
    note eq = nat_bit_len.simps[of n]
    show ?thesis
    proof (cases k)
      case 0
      with False eq show ?thesis by simp
    next
      case (Suc k')
      have "nat_bit_len n \<le> k \<longleftrightarrow> n div 2 < 2 ^ k'"
        using "1.IH"[OF False, of k'] False eq Suc by simp
      also have "\<dots> \<longleftrightarrow> n < 2 ^ k" using Suc by (simp add: less_mult_imp_div_less mult.commute div_less_iff_less_mult)
      finally show ?thesis .
    qed
  qed
qed

lemma BitLen_le: "BitLen x \<le> k \<longleftrightarrow> \<bar>x\<bar> < 2 ^ k"
  by (auto simp: BitLen_def nat_bit_len_le nat_less_iff)

lemma BitLen_gt: "k < BitLen x \<longleftrightarrow> 2 ^ k \<le> \<bar>x\<bar>"
  using BitLen_le[of x k] by linarith

lemma big_Quo_nonneg: "0 \<le> x \<Longrightarrow> 0 < y \<Longrightarrow> big_Quo x y = x div y"
  by (cases "x = 0") (simp_all add: big_Quo_def)

lemma big_Quo_abs_le: "\<bar>big_Quo x y\<bar> \<le> \<bar>x\<bar>"
proof (cases "x = 0 \<or> y = 0")
  case True
  then show ?thesis by (auto simp: big_Quo_def)
next
  case False
  then have "\<bar>big_Quo x y\<bar> = \<bar>x\<bar> div \<bar>y\<bar>"
    by (simp add: big_Quo_def abs_mult abs_sgn_eq pos_imp_zdiv_nonneg_iff)
  also have "\<dots> \<le> \<bar>x\<bar>"
    using False zdiv_mono2[of "\<bar>x\<bar>" 1 "\<bar>y\<bar>"] by (simp add: int_one_le_iff_zero_less)
  finally show ?thesis .
qed

lemma big_Quo_minus: "big_Quo (- x) y = - big_Quo x y"
  by (simp add: big_Quo_def sgn_minus)

lemma big_Rem_bounds:
  assumes "0 < y"
  shows "\<bar>big_Rem x y\<bar> < y" and "0 \<le> x \<Longrightarrow> 0 \<le> big_Rem x y" and "x \<le> 0 \<Longrightarrow> big_Rem x y \<le> 0"
proof -
  have pos: "0 \<le> big_Rem z y \<and> big_Rem z y < y" if "0 \<le> z" for z
    using that assms by (simp add: big_Rem_def big_Quo_nonneg minus_mult_div_eq_mod)
  have neg: "big_Rem (- z) y = - big_Rem z y" for z
    by (simp add: big_Rem_def big_Quo_minus)
  show "\<bar>big_Rem x y\<bar> < y"
    using pos[of x] pos[of "- x"] neg[of "- x"] by (cases "0 \<le> x") auto
  show "0 \<le> x \<Longrightarrow> 0 \<le> big_Rem x y" using pos by blast
  show "x \<le> 0 \<Longrightarrow> big_Rem x y \<le> 0" using pos[of "- x"] neg[of "- x"] by auto
qed

section \<open>Checked arithmetic as an interface\<close>

text \<open>
  What the coin arithmetic and the modules rely on: an addition and a subtraction on
  integers that return the exact value when it is below a bound and panic otherwise.
\<close>

locale checked_arith =
  fixes bound :: int
    and add_c :: "int \<Rightarrow> int \<Rightarrow> int res"
    and sub_c :: "int \<Rightarrow> int \<Rightarrow> int res"
  assumes bound_pos: "0 < bound"
    and add_in_range: "\<bar>a + b\<bar> < bound \<Longrightarrow> add_c a b = Inr (a + b)"
    and add_overflow: "bound \<le> \<bar>a + b\<bar> \<Longrightarrow> \<exists>m. add_c a b = Inl (Panic m)"
    and sub_in_range: "\<bar>a - b\<bar> < bound \<Longrightarrow> sub_c a b = Inr (a - b)"
    and sub_overflow: "bound \<le> \<bar>a - b\<bar> \<Longrightarrow> \<exists>m. sub_c a b = Inl (Panic m)"
begin

lemma add_Inr: "add_c a b = Inr c \<longleftrightarrow> \<bar>a + b\<bar> < bound \<and> c = a + b"
  using add_in_range[of a b] add_overflow[of a b] by (cases "\<bar>a + b\<bar> < bound") auto

lemma sub_Inr: "sub_c a b = Inr c \<longleftrightarrow> \<bar>a - b\<bar> < bound \<and> c = a - b"
  using sub_in_range[of a b] sub_overflow[of a b] by (cases "\<bar>a - b\<bar> < bound") auto

lemma add_Inl: "add_c a b = Inl e \<Longrightarrow> bound \<le> \<bar>a + b\<bar> \<and> (\<exists>m. e = Panic m)"
  using add_in_range[of a b] add_overflow[of a b] by (cases "\<bar>a + b\<bar> < bound") auto

lemma sub_nonneg_Inr:
  assumes "0 \<le> a" and "0 \<le> b" and "a < bound" and "b < bound"
  shows "sub_c a b = Inr (a - b)"
  using assms by (intro sub_in_range) auto

text \<open>Adding up a list: the result is the sum, and it exists when no partial sum of
  non-negative terms leaves the range.\<close>

lemma fold_add_Inr: "fold_r add_c a xs = Inr s \<Longrightarrow> s = a + sum_list xs"
proof (induction xs arbitrary: a)
  case Nil
  then show ?case by simp
next
  case (Cons x xs)
  from Cons.prems have "fold_r add_c (a + x) xs = Inr s"
    by (auto simp: res_simps add_Inr)
  from Cons.IH[OF this] show ?case by simp
qed

lemma fold_add_total:
  assumes "0 \<le> a" and "\<forall>x\<in>set xs. 0 \<le> x" and "a + sum_list xs < bound"
  shows "fold_r add_c a xs = Inr (a + sum_list xs)"
  using assms
proof (induction xs arbitrary: a)
  case Nil
  then show ?case by simp
next
  case (Cons x xs)
  then have "0 \<le> sum_list xs" by (simp add: sum_list_nonneg)
  with Cons.prems have "add_c a x = Inr (a + x)" by (intro add_in_range) simp
  with Cons show ?case by simp
qed

end

section \<open>Int\<close>

definition MaxBitLen :: nat where
  "MaxBitLen = 256"

text \<open>The documented range: \<open>-(2^256 - 1)\<close> to \<open>2^256 - 1\<close>.\<close>

definition wf_Int :: "sdk_Int \<Rightarrow> bool" where
  "wf_Int i \<longleftrightarrow> \<bar>i\<bar> < 2 ^ MaxBitLen"

definition big_min :: "big_int \<Rightarrow> big_int \<Rightarrow> big_int" where
  "big_min i i2 = (if i > i2 then i2 else i)"

definition big_max :: "big_int \<Rightarrow> big_int \<Rightarrow> big_int" where
  "big_max i i2 = (if i < i2 then i2 else i)"

definition NewInt :: "int64 \<Rightarrow> sdk_Int" where
  "NewInt n = sint n"

definition NewIntFromUint64 :: "uint64 \<Rightarrow> sdk_Int" where
  "NewIntFromUint64 n = uint n"

definition NewIntFromBigInt :: "big_int \<Rightarrow> sdk_Int res" where
  "NewIntFromBigInt i =
     (if BitLen i > MaxBitLen then Inl (Panic ''NewIntFromBigInt() out of bound'') else Inr i)"

definition NewIntWithDecimal :: "int64 \<Rightarrow> int \<Rightarrow> sdk_Int res" where
  "NewIntWithDecimal n dec =
     (if dec < 0 then Inl (Panic ''NewIntWithDecimal() decimal is negative'')
      else let i = sint n * 10 ^ nat dec in
        if BitLen i > MaxBitLen then Inl (Panic ''NewIntWithDecimal() out of bound'')
        else Inr i)"

definition ZeroInt :: sdk_Int where
  "ZeroInt = 0"

definition OneInt :: sdk_Int where
  "OneInt = 1"

definition Int_Int64 :: "sdk_Int \<Rightarrow> int64 res" where
  "Int_Int64 i = (if \<not> IsInt64 i then Inl (Panic ''Int64() out of bound'') else Inr (word_of_int i))"

definition Int_Uint64 :: "sdk_Int \<Rightarrow> uint64 res" where
  "Int_Uint64 i = (if \<not> IsUint64 i then Inl (Panic ''Uint64() out of bounds'') else Inr (word_of_int i))"

definition Int_IsZero :: "sdk_Int \<Rightarrow> bool" where
  "Int_IsZero i = (sgn i = 0)"

definition Int_IsNegative :: "sdk_Int \<Rightarrow> bool" where
  "Int_IsNegative i = (sgn i = -1)"

definition Int_IsPositive :: "sdk_Int \<Rightarrow> bool" where
  "Int_IsPositive i = (sgn i = 1)"

definition Int_Add :: "sdk_Int \<Rightarrow> sdk_Int \<Rightarrow> sdk_Int res" where
  "Int_Add i i2 =
     (let res = i + i2 in if BitLen res > MaxBitLen then Inl (Panic ''Int overflow'') else Inr res)"

definition Int_AddRaw :: "sdk_Int \<Rightarrow> int64 \<Rightarrow> sdk_Int res" where
  "Int_AddRaw i i2 = Int_Add i (NewInt i2)"

definition Int_Sub :: "sdk_Int \<Rightarrow> sdk_Int \<Rightarrow> sdk_Int res" where
  "Int_Sub i i2 =
     (let res = i - i2 in if BitLen res > MaxBitLen then Inl (Panic ''Int overflow'') else Inr res)"

definition Int_SubRaw :: "sdk_Int \<Rightarrow> int64 \<Rightarrow> sdk_Int res" where
  "Int_SubRaw i i2 = Int_Sub i (NewInt i2)"

text \<open>The first guard is evaluated on machine ints, where \<open>0 + 0 - 1\<close> is \<open>-1\<close>.\<close>

definition Int_Mul :: "sdk_Int \<Rightarrow> sdk_Int \<Rightarrow> sdk_Int res" where
  "Int_Mul i i2 =
     (if int (BitLen i) + int (BitLen i2) - 1 > int MaxBitLen then Inl (Panic ''Int overflow'')
      else let res = i * i2 in
        if BitLen res > MaxBitLen then Inl (Panic ''Int overflow'') else Inr res)"

definition Int_MulRaw :: "sdk_Int \<Rightarrow> int64 \<Rightarrow> sdk_Int res" where
  "Int_MulRaw i i2 = Int_Mul i (NewInt i2)"

definition Int_Quo :: "sdk_Int \<Rightarrow> sdk_Int \<Rightarrow> sdk_Int res" where
  "Int_Quo i i2 = (if sgn i2 = 0 then Inl (Panic ''Division by zero'') else Inr (big_Quo i i2))"

definition Int_QuoRaw :: "sdk_Int \<Rightarrow> int64 \<Rightarrow> sdk_Int res" where
  "Int_QuoRaw i i2 = Int_Quo i (NewInt i2)"

definition Int_Mod :: "sdk_Int \<Rightarrow> sdk_Int \<Rightarrow> sdk_Int res" where
  "Int_Mod i i2 = (if sgn i2 = 0 then Inl (Panic ''division-by-zero'') else Inr (big_Mod i i2))"

definition Int_ModRaw :: "sdk_Int \<Rightarrow> int64 \<Rightarrow> sdk_Int res" where
  "Int_ModRaw i i2 = Int_Mod i (NewInt i2)"

definition Int_Neg :: "sdk_Int \<Rightarrow> sdk_Int" where
  "Int_Neg i = - i"

definition Int_Abs :: "sdk_Int \<Rightarrow> sdk_Int" where
  "Int_Abs i = \<bar>i\<bar>"

definition MinInt :: "sdk_Int \<Rightarrow> sdk_Int \<Rightarrow> sdk_Int" where
  "MinInt i1 i2 = big_min i1 i2"

definition MaxInt :: "sdk_Int \<Rightarrow> sdk_Int \<Rightarrow> sdk_Int" where
  "MaxInt i i2 = big_max i i2"

lemma Int_sign_simps [simp]:
  "Int_IsZero i \<longleftrightarrow> i = 0"
  "Int_IsNegative i \<longleftrightarrow> i < 0"
  "Int_IsPositive i \<longleftrightarrow> 0 < i"
  by (auto simp: Int_IsZero_def Int_IsNegative_def Int_IsPositive_def sgn_if)

lemma Int_const_simps [simp]: "ZeroInt = 0" "OneInt = 1" "Int_Neg i = - i" "Int_Abs i = \<bar>i\<bar>"
  by (simp_all add: ZeroInt_def OneInt_def Int_Neg_def Int_Abs_def)

lemma MinMaxInt [simp]: "MinInt i j = min i j" "MaxInt i j = max i j"
  by (auto simp: MinInt_def MaxInt_def big_min_def big_max_def)

interpretation int_arith: checked_arith "2 ^ MaxBitLen" Int_Add Int_Sub
  by unfold_locales (auto simp: Int_Add_def Int_Sub_def Let_def BitLen_gt)

lemmas Int_Add_Inr = int_arith.add_Inr
lemmas Int_Sub_Inr = int_arith.sub_Inr

lemma NewIntFromBigInt_Inr: "NewIntFromBigInt i = Inr j \<longleftrightarrow> wf_Int i \<and> j = i"
  by (auto simp: NewIntFromBigInt_def BitLen_gt wf_Int_def)

lemma MaxBitLen_power: "(2::int) ^ MaxBitLen = 2 ^ 256"
  by (simp add: MaxBitLen_def)

text \<open>The first guard of \<open>Mul\<close> never rejects a product that fits: a product of numbers
  of bit lengths \<open>m\<close> and \<open>n\<close> has at least \<open>m + n - 1\<close> bits.\<close>

lemma BitLen_mult_lower:
  assumes "0 < BitLen x" and "0 < BitLen y"
  shows "BitLen x + BitLen y - 2 < BitLen (x * y)"
proof -
  have "(2::int) ^ (BitLen x - 1) \<le> \<bar>x\<bar>" "(2::int) ^ (BitLen y - 1) \<le> \<bar>y\<bar>"
    using assms by (simp_all add: BitLen_gt[symmetric])
  then have "(2::int) ^ (BitLen x - 1) * 2 ^ (BitLen y - 1) \<le> \<bar>x\<bar> * \<bar>y\<bar>"
    by (intro mult_mono) auto
  moreover have "BitLen x + BitLen y - 2 = (BitLen x - 1) + (BitLen y - 1)"
    using assms by simp
  ultimately show ?thesis
    by (simp add: BitLen_gt power_add abs_mult)
qed

text \<open>C19: on operands in the documented range, \<open>Int.Mul\<close> panics exactly when the
  product leaves the range, and otherwise returns the exact product.\<close>

theorem Int_Mul_exact:
  assumes "wf_Int i" and "wf_Int j"
  shows "Int_Mul i j = (if wf_Int (i * j) then Inr (i * j) else Inl (Panic ''Int overflow''))"
proof (cases "int (BitLen i) + int (BitLen j) - 1 > int MaxBitLen")
  case True
  have "BitLen i \<le> MaxBitLen" "BitLen j \<le> MaxBitLen"
    using assms by (simp_all add: wf_Int_def BitLen_le)
  with True have pos: "0 < BitLen i" "0 < BitLen j" by linarith+
  have "MaxBitLen < BitLen (i * j)"
    using BitLen_mult_lower[OF pos] True pos by linarith
  with True show ?thesis by (simp add: Int_Mul_def wf_Int_def BitLen_gt)
next
  case False
  then show ?thesis by (simp add: Int_Mul_def wf_Int_def BitLen_gt Let_def)
qed

lemma Int_Mul_exact_witness:
  "wf_Int (2 ^ 200) \<and> Int_Mul (2 ^ 200) (2 ^ 55) = Inr (2 ^ 255)
   \<and> Int_Mul (2 ^ 200) (2 ^ 56) = Inl (Panic ''Int overflow'')"
  using Int_Mul_exact[of "2 ^ 200" "2 ^ 55"] Int_Mul_exact[of "2 ^ 200" "2 ^ 56"]
  by (simp add: wf_Int_def MaxBitLen_def)

lemma Int_Mul_Inr: "Int_Mul i j = Inr k \<Longrightarrow> k = i * j \<and> wf_Int k"
  by (auto simp: Int_Mul_def Let_def wf_Int_def BitLen_gt split: if_splits)

lemma Int_Quo_Inr: "Int_Quo i j = Inr k \<longleftrightarrow> j \<noteq> 0 \<and> k = big_Quo i j"
  by (auto simp: Int_Quo_def sgn_eq_0_iff)

text \<open>C20: every operation that returns an \<open>Int\<close> keeps the documented range.\<close>

theorem Int_ops_wf:
  assumes "wf_Int i" and "wf_Int j"
    and "k \<in> {NewInt n, NewIntFromUint64 n, Int_Neg i, Int_Abs i, MinInt i j, MaxInt i j}
         \<or> Inr k \<in> {NewIntFromBigInt b, NewIntWithDecimal n d, Int_Add i j, Int_Sub i j, Int_Mul i j, Int_Quo i j,
                    Int_Mod i j, Int_AddRaw i n, Int_SubRaw i n, Int_MulRaw i n, Int_QuoRaw i n, Int_ModRaw i n}"
  shows "wf_Int k"
proof -
  have n: "wf_Int (sint n)"
    using sint_greater_eq[of n] sint_less[of n] by (simp add: wf_Int_def MaxBitLen_def)
  have u: "wf_Int (uint n)"
    using uint_bounded[of n] by (simp add: wf_Int_def MaxBitLen_def)
  have quo: "wf_Int (big_Quo i b)" for b
    using assms(1) big_Quo_abs_le[of i b] unfolding wf_Int_def by linarith
  have modulo: "wf_Int (big_Mod i b)" if "b \<noteq> 0" "wf_Int b" for b
  proof -
    have "0 \<le> i mod \<bar>b\<bar>" "i mod \<bar>b\<bar> < \<bar>b\<bar>" using that(1) by simp_all
    with that(2) show ?thesis by (simp add: wf_Int_def big_Mod_def)
  qed
  have "wf_Int k" if "k \<in> {NewInt n, NewIntFromUint64 n, Int_Neg i, Int_Abs i, MinInt i j, MaxInt i j}"
    using that assms(1,2) n u
    by (auto simp: NewInt_def NewIntFromUint64_def) (auto simp: wf_Int_def)
  moreover have "wf_Int k" if "Inr k \<in> {NewIntFromBigInt b, NewIntWithDecimal n d}"
    using that by (auto simp: NewIntFromBigInt_def NewIntWithDecimal_def Let_def wf_Int_def BitLen_gt split: if_splits)
  moreover have "wf_Int k" if "Inr k \<in> {Int_Add i j, Int_Sub i j, Int_Mul i j, Int_AddRaw i n, Int_SubRaw i n, Int_MulRaw i n}"
    using that by (auto simp: Int_AddRaw_def Int_SubRaw_def Int_MulRaw_def Int_Add_Inr Int_Sub_Inr
        wf_Int_def eq_commute[of "Inr k"] dest!: Int_Mul_Inr)
  moreover have "wf_Int k" if "Inr k \<in> {Int_Quo i j, Int_Mod i j, Int_QuoRaw i n, Int_ModRaw i n}"
    using that assms(2) n quo modulo
    by (auto simp: Int_Quo_def Int_Mod_def Int_QuoRaw_def Int_ModRaw_def NewInt_def sgn_eq_0_iff split: if_splits)
  ultimately show ?thesis using assms(3) by auto
qed

lemma Int_ops_wf_witness: "wf_Int 7 \<and> wf_Int (- 2) \<and> Int_Quo 7 (- 2) = Inr (- 3) \<and> wf_Int (- 3)"
proof -
  have q: "Int_Quo 7 (- 2) = Inr (- 3)" by (simp add: Int_Quo_def big_Quo_def)
  have w: "wf_Int 7" "wf_Int (- 2)" by (simp_all add: wf_Int_def MaxBitLen_def)
  have "wf_Int (- 3)" by (rule Int_ops_wf[OF w, where n = 0 and b = 0 and d = 0]) (simp add: q)
  with q w show ?thesis by blast
qed

end
