(* ===== verification/MathDec.thy ===== *)
theory MathDec
  imports MathInt
begin

text \<open>
  The fixed-point decimals of \<^verbatim>\<open>src/math/dec.go\<close>: a \<open>LegacyDec\<close> holds an integer \<open>i\<close> and
  stands for \<open>i / 10^18\<close>. The \<open>Mut\<close> methods of the source overwrite their receiver and
  return it; the plain methods clone the receiver first (\<open>ImmutOp\<close>), so both are the same
  function from the operands to the result, and the model has one definition for each
  pair, named after the plain method.
\<close>

type_synonym LegacyDec = int

definition LegacyPrecision :: nat where
  "LegacyPrecision = 18"

definition LegacyDecimalPrecisionBits :: nat where
  "LegacyDecimalPrecisionBits = 60"

definition decimalTruncateBits :: nat where
  "decimalTruncateBits = LegacyDecimalPrecisionBits - 1"

definition maxDecBitLen :: nat where
  "maxDecBitLen = MaxBitLen + decimalTruncateBits"

definition maxApproxRootIterations :: nat where
  "maxApproxRootIterations = 300"

definition precisionReuse :: big_int where
  "precisionReuse = 10 ^ LegacyPrecision"

definition fivePrecision :: big_int where
  "fivePrecision = big_Quo precisionReuse 2"

definition squaredPrecisionReuse :: big_int where
  "squaredPrecisionReuse = precisionReuse * precisionReuse"

definition wf_Dec :: "LegacyDec \<Rightarrow> bool" where
  "wf_Dec d \<longleftrightarrow> \<bar>d\<bar> < 2 ^ maxDecBitLen"

definition LegacyZeroDec :: LegacyDec where
  "LegacyZeroDec = 0"

definition LegacyOneDec :: LegacyDec where
  "LegacyOneDec = precisionReuse"

definition LegacySmallestDec :: LegacyDec where
  "LegacySmallestDec = 1"

section \<open>Construction\<close>

definition calcPrecisionMultiplier :: "int \<Rightarrow> big_int res" where
  "calcPrecisionMultiplier prec =
     (if prec < 0 then Inl (Panic ''negative precision'')
      else if prec > int LegacyPrecision then Inl (Panic ''too much precision'')
      else Inr (10 ^ nat (int LegacyPrecision - prec)))"

text \<open>The table filled by \<open>init\<close>; none of its entries panics.\<close>

definition precisionMultipliers :: "big_int res list" where
  "precisionMultipliers = map (\<lambda>i. calcPrecisionMultiplier (int i)) [0..<LegacyPrecision + 1]"

definition precisionMultiplier :: "int \<Rightarrow> big_int res" where
  "precisionMultiplier prec =
     (if prec < 0 then Inl (Panic ''negative precision'')
      else if prec > int LegacyPrecision then Inl (Panic ''too much precision'')
      else precisionMultipliers ! nat prec)"

definition LegacyNewDecFromBigIntWithPrec :: "big_int \<Rightarrow> int \<Rightarrow> LegacyDec res" where
  "LegacyNewDecFromBigIntWithPrec i prec = bind_r (precisionMultiplier prec) (\<lambda>m. Inr (i * m))"

definition LegacyNewDecWithPrec :: "int64 \<Rightarrow> int \<Rightarrow> LegacyDec res" where
  "LegacyNewDecWithPrec i prec = bind_r (precisionMultiplier prec) (\<lambda>m. Inr (sint i * m))"

definition LegacyNewDec :: "int64 \<Rightarrow> LegacyDec res" where
  "LegacyNewDec i = LegacyNewDecWithPrec i 0"

definition LegacyNewDecFromBigInt :: "big_int \<Rightarrow> LegacyDec res" where
  "LegacyNewDecFromBigInt i = LegacyNewDecFromBigIntWithPrec i 0"

definition LegacyNewDecFromIntWithPrec :: "sdk_Int \<Rightarrow> int \<Rightarrow> LegacyDec res" where
  "LegacyNewDecFromIntWithPrec i prec = bind_r (precisionMultiplier prec) (\<lambda>m. Inr (i * m))"

definition LegacyNewDecFromInt :: "sdk_Int \<Rightarrow> LegacyDec res" where
  "LegacyNewDecFromInt i = LegacyNewDecFromIntWithPrec i 0"

lemma precisionReuse_val: "precisionReuse = 1000000000000000000"
  by (simp add: precisionReuse_def LegacyPrecision_def)

lemma fivePrecision_val: "fivePrecision = 500000000000000000"
  by (simp add: fivePrecision_def precisionReuse_val big_Quo_nonneg)

lemma precisionReuse_pos [simp]: "0 < precisionReuse" "precisionReuse \<noteq> 0" "0 \<le> precisionReuse"
  by (simp_all add: precisionReuse_val)

lemma five_twice: "2 * fivePrecision = precisionReuse"
  by (simp add: precisionReuse_val fivePrecision_val)

lemma maxDecBitLen_val: "maxDecBitLen = 315"
  by (simp add: maxDecBitLen_def MaxBitLen_def decimalTruncateBits_def LegacyDecimalPrecisionBits_def)

lemma precisionMultiplier_eq:
  "0 \<le> prec \<Longrightarrow> prec \<le> 18 \<Longrightarrow> precisionMultiplier prec = Inr (10 ^ nat (18 - prec))"
  by (simp add: precisionMultiplier_def precisionMultipliers_def calcPrecisionMultiplier_def
      LegacyPrecision_def nth_append del: upt_Suc)

lemma LegacyNewDecFromInt_eq [simp]:
  "LegacyNewDecFromInt i = Inr (i * precisionReuse)"
  "LegacyNewDecFromBigInt i = Inr (i * precisionReuse)"
  by (simp_all add: LegacyNewDecFromInt_def LegacyNewDecFromIntWithPrec_def LegacyNewDecFromBigInt_def
      LegacyNewDecFromBigIntWithPrec_def precisionMultiplier_eq precisionReuse_def LegacyPrecision_def)

section \<open>Chopping: the three rounding modes\<close>

text \<open>\<open>chopPrecisionAndRound\<close> recurses once, on the negated argument.\<close>

definition chopPrecisionAndRound_nonneg :: "big_int \<Rightarrow> big_int" where
  "chopPrecisionAndRound_nonneg d =
     (let quo = big_Quo d precisionReuse; rem = big_Rem d precisionReuse in
      if sgn rem = 0 then quo
      else if rem < fivePrecision then quo
      else if rem > fivePrecision then quo + 1
      else if even quo then quo else quo + 1)"

definition chopPrecisionAndRound :: "big_int \<Rightarrow> big_int" where
  "chopPrecisionAndRound d =
     (if sgn d = -1 then - chopPrecisionAndRound_nonneg (- d) else chopPrecisionAndRound_nonneg d)"

definition chopPrecisionAndTruncate :: "big_int \<Rightarrow> big_int" where
  "chopPrecisionAndTruncate d = big_Quo d precisionReuse"

definition chopPrecisionAndRoundUp :: "big_int \<Rightarrow> big_int" where
  "chopPrecisionAndRoundUp d =
     (if sgn d = -1 then - chopPrecisionAndTruncate (- d)
      else let quo = big_Quo d precisionReuse; rem = big_Rem d precisionReuse in
        if sgn rem = 0 then quo else quo + 1)"

text \<open>Reference: \<open>q\<close> is \<open>d / P\<close> rounded to the nearest integer, ties to even.\<close>

definition half_even :: "int \<Rightarrow> int \<Rightarrow> int \<Rightarrow> bool" where
  "half_even P d q \<longleftrightarrow> 2 * \<bar>d - q * P\<bar> \<le> P \<and> (2 * \<bar>d - q * P\<bar> = P \<longrightarrow> even q)"

lemma tie_squeeze:
  fixes x y z p :: int
  assumes "p \<le> z" and "z \<le> x + y" and "2 * x \<le> p" and "2 * y \<le> p"
  shows "2 * y = p \<and> 2 * x = p \<and> z = p"
  using assms by linarith

lemma half_even_unique:
  assumes "0 < P" and "half_even P d q" and "half_even P d r"
  shows "q = r"
proof (rule ccontr)
  assume "q \<noteq> r"
  have near: "2 * \<bar>d - q * P\<bar> \<le> P" "2 * \<bar>d - r * P\<bar> \<le> P"
    using assms(2,3) by (simp_all add: half_even_def)
  have "\<bar>q - r\<bar> * P = \<bar>(d - r * P) - (d - q * P)\<bar>"
    using assms(1) by (simp add: left_diff_distrib[symmetric] abs_mult)
  also have "\<dots> \<le> \<bar>d - r * P\<bar> + \<bar>d - q * P\<bar>" by (rule abs_triangle_ineq4)
  finally have dist: "\<bar>q - r\<bar> * P \<le> \<bar>d - r * P\<bar> + \<bar>d - q * P\<bar>" .
  have "1 * P \<le> \<bar>q - r\<bar> * P"
    using \<open>q \<noteq> r\<close> assms(1) by (intro mult_right_mono) auto
  then have "P \<le> \<bar>q - r\<bar> * P" by simp
  from tie_squeeze[OF this dist near(2,1)]
  have tie: "2 * \<bar>d - q * P\<bar> = P" and tie': "2 * \<bar>d - r * P\<bar> = P" and one: "\<bar>q - r\<bar> * P = P"
    by simp_all
  from tie tie' have "even q" "even r" using assms(2,3) by (simp_all add: half_even_def)
  moreover have "\<bar>q - r\<bar> = 1" using one assms(1) by simp
  ultimately show False by presburger
qed

lemma half_even_minus: "half_even P (- d) (- q) \<longleftrightarrow> half_even P d q"
proof -
  have "\<bar>- d - - q * P\<bar> = \<bar>d - q * P\<bar>" by (simp add: abs_minus_commute)
  then show ?thesis by (simp add: half_even_def)
qed

lemma chop_nonneg_half_even:
  assumes "0 \<le> d"
  shows "half_even precisionReuse d (chopPrecisionAndRound_nonneg d)"
proof -
  let ?P = precisionReuse
  define q where "q = d div ?P"
  define r where "r = d mod ?P"
  have d: "d = q * ?P + r" and r: "0 \<le> r" "r < ?P"
    by (simp_all add: q_def r_def)
  have qr: "big_Quo d ?P = q" "big_Rem d ?P = r"
    using assms by (simp_all add: big_Rem_def big_Quo_nonneg q_def r_def minus_mult_div_eq_mod)
  have up: "d - (q + 1) * ?P = r - ?P" and down: "d - q * ?P = r"
    by (simp_all add: d algebra_simps)
  show ?thesis
    using r five_twice
    by (auto simp: chopPrecisionAndRound_nonneg_def Let_def qr half_even_def up down sgn_if)
qed

lemma chopPrecisionAndRound_iff:
  "half_even precisionReuse d q \<longleftrightarrow> q = chopPrecisionAndRound d"
proof -
  have "half_even precisionReuse d (chopPrecisionAndRound d)"
    using chop_nonneg_half_even[of d] chop_nonneg_half_even[of "- d"]
      half_even_minus[of precisionReuse d "- chopPrecisionAndRound_nonneg (- d)"]
    by (cases "d < 0") (auto simp: chopPrecisionAndRound_def sgn_if)
  then show ?thesis using half_even_unique[OF precisionReuse_pos(1)] by blast
qed

text \<open>C21: \<open>chopPrecisionAndRound\<close> is banker's rounding: the result is the integer nearest
  to \<open>d / 10^18\<close>, the even one of the two when \<open>d\<close> is exactly half way, for every sign
  of \<open>d\<close>; and it is the only integer with that property.\<close>

theorem chopPrecisionAndRound_bankers:
  "half_even precisionReuse d q \<longleftrightarrow> q = chopPrecisionAndRound d"
  by (rule chopPrecisionAndRound_iff)

section \<open>Arithmetic\<close>

definition Dec_check :: "big_int \<Rightarrow> LegacyDec res" where
  "Dec_check i = (if BitLen i > maxDecBitLen then Inl (Panic ''Int overflow'') else Inr i)"

definition Dec_IsZero :: "LegacyDec \<Rightarrow> bool" where
  "Dec_IsZero d = (sgn d = 0)"

definition Dec_IsNegative :: "LegacyDec \<Rightarrow> bool" where
  "Dec_IsNegative d = (sgn d = -1)"

definition Dec_IsPositive :: "LegacyDec \<Rightarrow> bool" where
  "Dec_IsPositive d = (sgn d = 1)"

definition Dec_Neg :: "LegacyDec \<Rightarrow> LegacyDec" where
  "Dec_Neg d = - d"

definition Dec_Abs :: "LegacyDec \<Rightarrow> LegacyDec" where
  "Dec_Abs d = \<bar>d\<bar>"

definition Dec_Add :: "LegacyDec \<Rightarrow> LegacyDec \<Rightarrow> LegacyDec res" where
  "Dec_Add d d2 = Dec_check (d + d2)"

definition Dec_Sub :: "LegacyDec \<Rightarrow> LegacyDec \<Rightarrow> LegacyDec res" where
  "Dec_Sub d d2 = Dec_check (d - d2)"

definition Dec_Mul :: "LegacyDec \<Rightarrow> LegacyDec \<Rightarrow> LegacyDec res" where
  "Dec_Mul d d2 = Dec_check (chopPrecisionAndRound (d * d2))"

definition Dec_MulTruncate :: "LegacyDec \<Rightarrow> LegacyDec \<Rightarrow> LegacyDec res" where
  "Dec_MulTruncate d d2 = Dec_check (chopPrecisionAndTruncate (d * d2))"

definition Dec_MulInt :: "LegacyDec \<Rightarrow> sdk_Int \<Rightarrow> LegacyDec res" where
  "Dec_MulInt d i = Dec_check (d * i)"

definition Dec_MulInt64 :: "LegacyDec \<Rightarrow> int64 \<Rightarrow> LegacyDec res" where
  "Dec_MulInt64 d i = Dec_check (d * sint i)"

text \<open>\<open>big.Int.Quo\<close> panics on a zero divisor.\<close>

definition big_Quo_r :: "big_int \<Rightarrow> big_int \<Rightarrow> big_int res" where
  "big_Quo_r x y = (if y = 0 then Inl (Panic ''division by zero'') else Inr (big_Quo x y))"

definition Dec_Quo :: "LegacyDec \<Rightarrow> LegacyDec \<Rightarrow> LegacyDec res" where
  "Dec_Quo d d2 =
     bind_r (big_Quo_r (d * squaredPrecisionReuse) d2) (\<lambda>q. Dec_check (chopPrecisionAndRound q))"

definition Dec_QuoTruncate :: "LegacyDec \<Rightarrow> LegacyDec \<Rightarrow> LegacyDec res" where
  "Dec_QuoTruncate d d2 =
     bind_r (big_Quo_r (d * squaredPrecisionReuse) d2) (\<lambda>q. Dec_check (chopPrecisionAndTruncate q))"

definition Dec_QuoRoundUp :: "LegacyDec \<Rightarrow> LegacyDec \<Rightarrow> LegacyDec res" where
  "Dec_QuoRoundUp d d2 =
     bind_r (big_Quo_r (d * squaredPrecisionReuse) d2) (\<lambda>q. Dec_check (chopPrecisionAndRoundUp q))"

definition Dec_QuoInt :: "LegacyDec \<Rightarrow> sdk_Int \<Rightarrow> LegacyDec res" where
  "Dec_QuoInt d i = big_Quo_r d i"

definition Dec_QuoInt64 :: "LegacyDec \<Rightarrow> int64 \<Rightarrow> LegacyDec res" where
  "Dec_QuoInt64 d i = big_Quo_r d (sint i)"

definition Dec_RoundInt64 :: "LegacyDec \<Rightarrow> int64 res" where
  "Dec_RoundInt64 d =
     (let chopped = chopPrecisionAndRound d in
      if \<not> IsInt64 chopped then Inl (Panic ''Int64() out of bound'') else Inr (word_of_int chopped))"

definition Dec_RoundInt :: "LegacyDec \<Rightarrow> sdk_Int res" where
  "Dec_RoundInt d = NewIntFromBigInt (chopPrecisionAndRound d)"

definition Dec_TruncateInt64 :: "LegacyDec \<Rightarrow> int64 res" where
  "Dec_TruncateInt64 d =
     (let chopped = chopPrecisionAndTruncate d in
      if \<not> IsInt64 chopped then Inl (Panic ''Int64() out of bound'') else Inr (word_of_int chopped))"

definition Dec_TruncateInt :: "LegacyDec \<Rightarrow> sdk_Int res" where
  "Dec_TruncateInt d = NewIntFromBigInt (chopPrecisionAndTruncate d)"

definition Dec_TruncateDec :: "LegacyDec \<Rightarrow> LegacyDec res" where
  "Dec_TruncateDec d = LegacyNewDecFromBigInt (chopPrecisionAndTruncate d)"

definition Dec_IsInteger :: "LegacyDec \<Rightarrow> bool" where
  "Dec_IsInteger d = (sgn (big_Rem d precisionReuse) = 0)"

definition Dec_Ceil :: "LegacyDec \<Rightarrow> LegacyDec res" where
  "Dec_Ceil d =
     (let quo = big_Quo d precisionReuse; rem = big_Rem d precisionReuse in
      if rem = 0 then LegacyNewDecFromBigInt quo
      else if sgn rem = -1 then LegacyNewDecFromBigInt quo
      else LegacyNewDecFromBigInt (quo + 1))"

definition LegacyMinDec :: "LegacyDec \<Rightarrow> LegacyDec \<Rightarrow> LegacyDec" where
  "LegacyMinDec d1 d2 = (if d1 < d2 then d1 else d2)"

definition LegacyMaxDec :: "LegacyDec \<Rightarrow> LegacyDec \<Rightarrow> LegacyDec" where
  "LegacyMaxDec d1 d2 = (if d1 < d2 then d2 else d1)"

section \<open>Powers and roots\<close>

text \<open>The loop of \<open>PowerMut\<close>: \<open>for i := power; i > 1\<close>, halving \<open>i\<close>.\<close>

fun PowerMut_loop :: "nat \<Rightarrow> LegacyDec \<Rightarrow> LegacyDec \<Rightarrow> (LegacyDec \<times> LegacyDec) res" where
  "PowerMut_loop i tmp d =
     (if i > 1 then
        bind_r (if i mod 2 \<noteq> 0 then Dec_Mul tmp d else Inr tmp)
          (\<lambda>tmp'. bind_r (Dec_Mul d d) (\<lambda>d'. PowerMut_loop (i div 2) tmp' d'))
      else Inr (tmp, d))"

declare PowerMut_loop.simps [simp del]

definition Dec_Power :: "LegacyDec \<Rightarrow> uint64 \<Rightarrow> LegacyDec res" where
  "Dec_Power d pow =
     (if pow = 0 then Inr precisionReuse
      else bind_r (PowerMut_loop (unat pow) LegacyOneDec d) (\<lambda>(tmp, d'). Dec_Mul d' tmp))"

text \<open>The Newton loop of \<open>ApproxRoot\<close>; the first argument counts the iterations left
  of \<open>maxApproxRootIterations\<close>. \<open>big.Int.Rsh\<close> shifts arithmetically, that is, it rounds
  towards minus infinity, and the conversion \<open>int64(root)\<close> reinterprets the word.\<close>

fun ApproxRoot_loop :: "nat \<Rightarrow> LegacyDec \<Rightarrow> uint64 \<Rightarrow> LegacyDec \<Rightarrow> LegacyDec \<Rightarrow> LegacyDec res" where
  "ApproxRoot_loop 0 d root guess delta = Inr guess"
| "ApproxRoot_loop (Suc n) d root guess delta =
     (if Dec_Abs delta > LegacySmallestDec then
        bind_r (if root \<noteq> 2 then Dec_Power guess (root - 1) else Inr guess) (\<lambda>prev0.
        let prev = (if Dec_IsZero prev0 then LegacySmallestDec else prev0) in
        bind_r (Dec_Quo d prev) (\<lambda>delta1.
        bind_r (Dec_Sub delta1 guess) (\<lambda>delta2.
        bind_r (if root = 2 then Inr (delta2 div 2) else Dec_QuoInt64 delta2 root) (\<lambda>delta3.
        bind_r (Dec_Add guess delta3) (\<lambda>guess'.
        ApproxRoot_loop n d root guess' delta3)))))
      else Inr guess)"

text \<open>The deferred \<open>recover\<close> turns every panic into an error.\<close>

definition recover_r :: "'a res \<Rightarrow> 'a res" where
  "recover_r r = (case r of Inl (Panic _) \<Rightarrow> Inl (Err ''out of bounds'') | _ \<Rightarrow> r)"

definition ApproxRoot_nonneg :: "LegacyDec \<Rightarrow> uint64 \<Rightarrow> LegacyDec res" where
  "ApproxRoot_nonneg d root =
     (if root = 1 \<or> Dec_IsZero d \<or> d = LegacyOneDec then Inr d
      else if root = 0 then Inr LegacyOneDec
      else recover_r (ApproxRoot_loop maxApproxRootIterations d root LegacyOneDec LegacyOneDec))"

definition Dec_ApproxRoot :: "LegacyDec \<Rightarrow> uint64 \<Rightarrow> LegacyDec res" where
  "Dec_ApproxRoot d root =
     (if Dec_IsNegative d then bind_r (ApproxRoot_nonneg (Dec_Neg d) root) (\<lambda>absRoot. Inr (Dec_Neg absRoot))
      else ApproxRoot_nonneg d root)"

definition Dec_ApproxSqrt :: "LegacyDec \<Rightarrow> LegacyDec res" where
  "Dec_ApproxSqrt d = Dec_ApproxRoot d 2"

section \<open>Facts about the arithmetic\<close>

lemma Dec_simps [simp]:
  "Dec_IsZero d \<longleftrightarrow> d = 0"
  "Dec_IsNegative d \<longleftrightarrow> d < 0"
  "Dec_IsPositive d \<longleftrightarrow> 0 < d"
  "Dec_Neg d = - d"
  "Dec_Abs d = \<bar>d\<bar>"
  "LegacyMinDec d d' = min d d'"
  "LegacyMaxDec d d' = max d d'"
  by (auto simp: Dec_IsZero_def Dec_IsNegative_def Dec_IsPositive_def Dec_Neg_def Dec_Abs_def
      LegacyMinDec_def LegacyMaxDec_def sgn_if)

lemma Dec_check_Inr: "Dec_check i = Inr j \<longleftrightarrow> wf_Dec i \<and> j = i"
  by (auto simp: Dec_check_def BitLen_gt wf_Dec_def)

lemma Dec_check_cases: "Dec_check i = (if wf_Dec i then Inr i else Inl (Panic ''Int overflow''))"
  by (auto simp: Dec_check_def BitLen_gt wf_Dec_def)

interpretation dec_arith: checked_arith "2 ^ maxDecBitLen" Dec_Add Dec_Sub
  by unfold_locales (auto simp: Dec_Add_def Dec_Sub_def Dec_check_def BitLen_gt)

lemmas Dec_Add_Inr = dec_arith.add_Inr
lemmas Dec_Sub_Inr = dec_arith.sub_Inr

lemma chop_truncate_nonneg: "0 \<le> d \<Longrightarrow> chopPrecisionAndTruncate d = d div precisionReuse"
  by (simp add: chopPrecisionAndTruncate_def big_Quo_nonneg)

lemma chop_round_error: "2 * \<bar>d - chopPrecisionAndRound d * precisionReuse\<bar> \<le> precisionReuse"
  using chopPrecisionAndRound_iff[of d "chopPrecisionAndRound d"] by (simp add: half_even_def)

text \<open>Truncating twice is truncating once: \<open>(x quo y) quo P = x quo (y P)\<close>.\<close>

lemma big_Quo_Quo: "0 < P \<Longrightarrow> big_Quo (big_Quo x y) P = big_Quo x (y * P)"
proof -
  assume P: "0 < P"
  have pos: "big_Quo (big_Quo a b) P = big_Quo a (b * P)" if "0 \<le> a" "0 < b" for a b
    using that P by (simp add: big_Quo_nonneg pos_imp_zdiv_nonneg_iff zdiv_zmult2_eq)
  have my: "big_Quo a (- b) = - big_Quo a b" for a b
    by (simp add: big_Quo_def sgn_minus)
  consider "y = 0" | "0 < y" "0 \<le> x" | "0 < y" "x < 0" | "y < 0" "0 \<le> x" | "y < 0" "x < 0"
    by linarith
  then show ?thesis
  proof cases
    case 1
    then show ?thesis by (simp add: big_Quo_def)
  next
    case 2
    then show ?thesis by (rule pos[rotated])
  next
    case 3
    then show ?thesis using pos[of "- x" y] by (simp add: big_Quo_minus)
  next
    case 4
    then show ?thesis using pos[of x "- y"] by (simp add: my big_Quo_minus)
  next
    case 5
    then show ?thesis using pos[of "- x" "- y"] by (simp add: my big_Quo_minus)
  qed
qed

lemma big_Quo_mult_cancel: "0 < P \<Longrightarrow> big_Quo (x * P) (y * P) = big_Quo x y"
  by (simp add: big_Quo_def abs_mult sgn_mult)

text \<open>C23: \<open>QuoTruncate\<close> does not round twice, although the source truncates a quotient
  scaled by \<open>10^36\<close> and then chops it: the result is the exact quotient truncated once,
  with a panic exactly on a zero divisor or when that value leaves the range.\<close>

theorem Dec_QuoTruncate_exact:
  "Dec_QuoTruncate d d2 =
     (if d2 = 0 then Inl (Panic ''division by zero'')
      else if wf_Dec (big_Quo (d * precisionReuse) d2) then Inr (big_Quo (d * precisionReuse) d2)
      else Inl (Panic ''Int overflow''))"
proof -
  have "chopPrecisionAndTruncate (big_Quo (d * squaredPrecisionReuse) d2) = big_Quo (d * precisionReuse) d2"
    by (simp add: chopPrecisionAndTruncate_def squaredPrecisionReuse_def big_Quo_Quo
        mult.assoc[symmetric] big_Quo_mult_cancel)
  then show ?thesis by (simp add: Dec_QuoTruncate_def big_Quo_r_def Dec_check_cases)
qed

text \<open>C22: \<open>Mul\<close> returns the exact product rounded half to even, and panics exactly when the
  rounded product leaves the range.\<close>

theorem Dec_Mul_bankers:
  "Dec_Mul d d2 = Inr c \<longleftrightarrow> half_even precisionReuse (d * d2) c \<and> wf_Dec c"
  by (auto simp: Dec_Mul_def Dec_check_Inr chopPrecisionAndRound_iff)

lemma big_Quo_remainder: "y \<noteq> 0 \<Longrightarrow> \<bar>x - big_Quo x y * y\<bar> < \<bar>y\<bar>"
proof (cases "0 < y")
  case True
  then show ?thesis
    using big_Rem_bounds(1)[of y x] by (simp add: big_Rem_def mult.commute)
next
  case False
  assume "y \<noteq> 0"
  with False have "0 < - y" by simp
  moreover have "big_Quo x (- y) = - big_Quo x y" by (simp add: big_Quo_def sgn_minus)
  ultimately show ?thesis
    using big_Rem_bounds(1)[of "- y" x] by (simp add: big_Rem_def mult.commute)
qed

text \<open>\<open>Quo\<close> rounds a quotient that was already truncated at 36 decimals, so it is not
  the correctly rounded quotient; the error is at most half a unit of the last place
  plus \<open>10^-18\<close> of it, written without division.\<close>

theorem Dec_Quo_error:
  assumes "Dec_Quo d d2 = Inr c"
  shows "2 * precisionReuse * \<bar>d * precisionReuse - c * d2\<bar> \<le> (precisionReuse + 2) * \<bar>d2\<bar>"
proof -
  let ?P = precisionReuse
  define q where "q = big_Quo (d * squaredPrecisionReuse) d2"
  have nz: "d2 \<noteq> 0" and c: "c = chopPrecisionAndRound q"
    using assms by (auto simp: Dec_Quo_def big_Quo_r_def Dec_check_Inr q_def res_simps split: if_splits)
  have trunc: "\<bar>d * ?P * ?P - q * d2\<bar> \<le> \<bar>d2\<bar>"
    using big_Quo_remainder[OF nz, of "d * squaredPrecisionReuse"]
    by (simp add: q_def squaredPrecisionReuse_def mult.assoc)
  have round: "2 * \<bar>q - c * ?P\<bar> \<le> ?P" using chop_round_error[of q] c by simp
  have "2 * ?P * \<bar>d * ?P - c * d2\<bar> = 2 * \<bar>?P * (d * ?P - c * d2)\<bar>"
    by (simp add: abs_mult)
  also have "?P * (d * ?P - c * d2) = (d * ?P * ?P - q * d2) + (q - c * ?P) * d2"
    by (simp add: algebra_simps)
  also have "2 * \<bar>(d * ?P * ?P - q * d2) + (q - c * ?P) * d2\<bar>
      \<le> 2 * \<bar>d * ?P * ?P - q * d2\<bar> + 2 * \<bar>q - c * ?P\<bar> * \<bar>d2\<bar>"
    using abs_triangle_ineq[of "d * ?P * ?P - q * d2" "(q - c * ?P) * d2"] by (simp add: abs_mult)
  also have "\<dots> \<le> 2 * \<bar>d2\<bar> + ?P * \<bar>d2\<bar>"
    using trunc mult_right_mono[OF round, of "\<bar>d2\<bar>"] by simp
  finally show ?thesis by (simp add: algebra_simps)
qed

lemma Dec_Quo_error_witness:
  "Dec_Quo precisionReuse (3 * precisionReuse) = Inr 333333333333333333
   \<and> 2 * precisionReuse * \<bar>precisionReuse * precisionReuse - 333333333333333333 * (3 * precisionReuse)\<bar>
      \<le> (precisionReuse + 2) * \<bar>3 * precisionReuse\<bar>"
proof -
  have q: "Dec_Quo precisionReuse (3 * precisionReuse) = Inr 333333333333333333"
    by (simp add: Dec_Quo_def big_Quo_r_def Dec_check_cases wf_Dec_def maxDecBitLen_val
        squaredPrecisionReuse_def precisionReuse_val fivePrecision_val big_Quo_def big_Rem_def
        chopPrecisionAndRound_def chopPrecisionAndRound_nonneg_def Let_def)
  from Dec_Quo_error[OF q] q show ?thesis by blast
qed

text \<open>\<open>Ceil\<close> returns the least whole decimal that is not below \<open>d\<close>.\<close>

theorem Dec_Ceil_least:
  "\<exists>k. Dec_Ceil d = Inr (k * precisionReuse) \<and> d \<le> k * precisionReuse \<and> k * precisionReuse < d + precisionReuse"
proof -
  let ?P = precisionReuse
  define q where "q = big_Quo d ?P"
  define r where "r = big_Rem d ?P"
  have d: "d = ?P * q + r" by (simp add: q_def r_def big_Rem_def)
  have r: "\<bar>r\<bar> < ?P" using big_Rem_bounds(1)[of ?P d] by (simp add: r_def)
  show ?thesis
  proof (cases "r \<le> 0")
    case True
    then have "Dec_Ceil d = Inr (q * ?P)"
      by (auto simp: Dec_Ceil_def Let_def q_def[symmetric] r_def[symmetric] sgn_if)
    moreover have "d \<le> q * ?P" "q * ?P < d + ?P" using True d r by (simp_all add: mult.commute)
    ultimately have "Dec_Ceil d = Inr (q * ?P) \<and> d \<le> q * ?P \<and> q * ?P < d + ?P" by blast
    then show ?thesis by blast
  next
    case False
    then have "Dec_Ceil d = Inr ((q + 1) * ?P)"
      by (auto simp: Dec_Ceil_def Let_def q_def[symmetric] r_def[symmetric] sgn_if)
    moreover have "d \<le> (q + 1) * ?P" "(q + 1) * ?P < d + ?P" using False d r by (simp_all add: algebra_simps)
    ultimately have "Dec_Ceil d = Inr ((q + 1) * ?P) \<and> d \<le> (q + 1) * ?P \<and> (q + 1) * ?P < d + ?P" by blast
    then show ?thesis by blast
  qed
qed


lemma Dec_QuoRoundUp_lower:
  assumes "Dec_QuoRoundUp d d2 = Inr c" and "0 \<le> d" and "0 < d2"
  shows "d * precisionReuse * precisionReuse < (c * precisionReuse + 1) * d2"
proof -
  let ?P = precisionReuse
  define q where "q = d * ?P * ?P div d2"
  have "big_Quo (d * squaredPrecisionReuse) d2 = q"
    using assms(2,3) by (simp add: big_Quo_nonneg q_def squaredPrecisionReuse_def mult.assoc)
  with assms have c: "c = chopPrecisionAndRoundUp q" and q: "0 \<le> q"
    by (auto simp: Dec_QuoRoundUp_def big_Quo_r_def Dec_check_Inr q_def pos_imp_zdiv_nonneg_iff)
  have "q \<le> c * ?P"
  proof -
    have "c = (if q mod ?P = 0 then q div ?P else q div ?P + 1)"
      using q by (auto simp: c chopPrecisionAndRoundUp_def big_Quo_nonneg big_Rem_def Let_def sgn_if
          minus_mult_div_eq_mod)
    moreover have "q = ?P * (q div ?P) + q mod ?P" by simp
    ultimately show ?thesis
      using div_bounds[of ?P q] by (auto simp: algebra_simps)
  qed
  then have "(q + 1) * d2 \<le> (c * ?P + 1) * d2" using assms(3) by (intro mult_right_mono) auto
  moreover have "d * ?P * ?P < (q + 1) * d2"
    using div_bounds[of d2 "d * ?P * ?P"] assms(3) by (simp add: q_def algebra_simps)
  ultimately show ?thesis by linarith
qed

text \<open>Truncation of non-negative values, the form the modules use.\<close>

lemma Dec_TruncateInt_Inr:
  "Dec_TruncateInt d = Inr n \<longleftrightarrow> wf_Int (chopPrecisionAndTruncate d) \<and> n = chopPrecisionAndTruncate d"
  by (simp add: Dec_TruncateInt_def NewIntFromBigInt_Inr)

lemma chop_truncate_bounds:
  assumes "0 \<le> d"
  shows "chopPrecisionAndTruncate d * precisionReuse \<le> d"
    and "d < (chopPrecisionAndTruncate d + 1) * precisionReuse"
    and "0 \<le> chopPrecisionAndTruncate d"
proof -
  show "chopPrecisionAndTruncate d * precisionReuse \<le> d"
    and "d < (chopPrecisionAndTruncate d + 1) * precisionReuse"
    using assms div_bounds[of precisionReuse d] by (simp_all add: chop_truncate_nonneg algebra_simps)
  show "0 \<le> chopPrecisionAndTruncate d"
    using assms by (simp add: chop_truncate_nonneg pos_imp_zdiv_nonneg_iff)
qed

lemma Dec_MulTruncate_Inr:
  "Dec_MulTruncate d d2 = Inr c \<longleftrightarrow>
     wf_Dec (chopPrecisionAndTruncate (d * d2)) \<and> c = chopPrecisionAndTruncate (d * d2)"
  by (simp add: Dec_MulTruncate_def Dec_check_Inr)

end
