(* ===== verification/CoinSet.thy ===== *)
theory CoinSet
  imports MathDec "HOL-Library.Multiset"
begin

text \<open>
  What \<open>Coins\<close> and \<open>DecCoins\<close> have in common: a slice of (denomination, amount) pairs
  that is meant to be a finite map, kept sorted by denomination and free of zero
  amounts. \<open>total_of\<close> is the map such a slice stands for; \<open>strict_denoms\<close> says that the
  slice is sorted and free of duplicates. The locale \<open>coin_set\<close> abstracts from the
  record that carries a coin; it is interpreted for \<open>Coin\<close> in \<open>Coins\<close> and for
  \<open>DecCoin\<close> in \<open>DecCoins\<close>.
\<close>

definition total_of :: "('c \<Rightarrow> string) \<Rightarrow> ('c \<Rightarrow> int) \<Rightarrow> 'c list \<Rightarrow> string \<Rightarrow> int" where
  "total_of den amo cs d = sum_list (map amo (filter (\<lambda>c. den c = d) cs))"

definition strict_denoms :: "('c \<Rightarrow> string) \<Rightarrow> 'c list \<Rightarrow> bool" where
  "strict_denoms den cs = sorted_wrt (<) (map den cs)"

lemma total_of_simps [simp]:
  "total_of den amo [] d = 0"
  "total_of den amo (c # cs) d = (if den c = d then amo c else 0) + total_of den amo cs d"
  "total_of den amo (cs @ cs') d = total_of den amo cs d + total_of den amo cs' d"
  by (simp_all add: total_of_def)

lemma total_of_notin: "d \<notin> den ` set cs \<Longrightarrow> total_of den amo cs d = 0"
  by (induction cs) auto

lemma total_of_nonneg: "\<forall>c\<in>set cs. 0 \<le> amo c \<Longrightarrow> 0 \<le> total_of den amo cs d"
  by (induction cs) auto

lemma total_of_perm:
  assumes "mset cs = mset cs'"
  shows "total_of den amo cs = total_of den amo cs'"
proof
  fix d
  have "total_of den amo zs d = (\<Sum>c\<in>#filter_mset (\<lambda>c. den c = d) (mset zs). amo c)" for zs
    by (simp add: total_of_def flip: mset_filter mset_map sum_mset_sum_list)
  then show "total_of den amo cs d = total_of den amo cs' d" using assms by simp
qed

lemma total_of_sort [simp]: "total_of den amo (sort_key f cs) = total_of den amo cs"
  by (rule total_of_perm) simp

lemma total_of_filter_zero: "total_of den amo (filter (\<lambda>c. amo c \<noteq> 0) cs) = total_of den amo cs"
  by (rule ext, induction cs) auto

lemma strict_denoms_Cons [simp]:
  "strict_denoms den [] "
  "strict_denoms den (c # cs) \<longleftrightarrow> (\<forall>c'\<in>set cs. den c < den c') \<and> strict_denoms den cs"
  by (auto simp: strict_denoms_def)

lemma strict_denoms_append:
  "strict_denoms den (xs @ ys) \<longleftrightarrow>
     strict_denoms den xs \<and> strict_denoms den ys \<and> (\<forall>x\<in>set xs. \<forall>y\<in>set ys. den x < den y)"
  by (auto simp: strict_denoms_def sorted_wrt_append)

lemma strict_denoms_distinct: "strict_denoms den cs \<Longrightarrow> distinct (map den cs)"
  by (simp add: strict_denoms_def strict_sorted_iff)

lemma strict_denoms_sorted: "strict_denoms den cs \<Longrightarrow> sorted (map den cs)"
  by (simp add: strict_denoms_def strict_sorted_iff)

lemma strict_denoms_filter: "strict_denoms den cs \<Longrightarrow> strict_denoms den (filter P cs)"
  by (induction cs) auto

lemma strict_denoms_map: "(\<And>c. c \<in> set cs \<Longrightarrow> den (f c) = den' c) \<Longrightarrow>
    strict_denoms den (map f cs) = strict_denoms den' cs"
  unfolding strict_denoms_def by (metis (no_types, lifting) map_cong map_map comp_apply)

lemma strict_denoms_sort: "distinct (map den cs) \<Longrightarrow> strict_denoms den (sort_key den cs)"
proof -
  assume "distinct (map den cs)"
  then have "distinct (map den (sort_key den cs))"
    by (metis mset_map mset_sort mset_eq_imp_distinct_iff)
  then show ?thesis by (simp add: strict_denoms_def strict_sorted_iff)
qed

lemma total_of_member:
  "strict_denoms den cs \<Longrightarrow> c \<in> set cs \<Longrightarrow> total_of den amo cs (den c) = amo c"
proof (induction cs)
  case Nil
  then show ?case by simp
next
  case (Cons x cs)
  show ?case
  proof (cases "c = x")
    case True
    with Cons.prems have "den c \<notin> den ` set cs" by auto
    with True show ?thesis by (simp add: total_of_notin)
  next
    case False
    with Cons.prems have "c \<in> set cs" "den x \<noteq> den c" by auto
    with Cons show ?thesis by simp
  qed
qed

lemma total_of_nonzero_denoms:
  assumes "strict_denoms den cs" and "\<forall>c\<in>set cs. amo c \<noteq> 0"
  shows "den ` set cs = {d. total_of den amo cs d \<noteq> 0}"
  using assms total_of_notin[of _ den cs amo] total_of_member[OF assms(1), of _ amo] by fastforce

locale coin_set =
  fixes den :: "'c \<Rightarrow> string"
    and amo :: "'c \<Rightarrow> int"
    and mk :: "string \<Rightarrow> int \<Rightarrow> 'c"
  assumes den_mk [simp]: "den (mk d a) = d"
    and amo_mk [simp]: "amo (mk d a) = a"
    and mk_eta: "mk (den c) (amo c) = c"
begin

lemma rebuild:
  assumes "strict_denoms den cs"
  shows "cs = map (\<lambda>d. mk d (total_of den amo cs d)) (map den cs)"
proof -
  have "map (\<lambda>c. mk (den c) (total_of den amo cs (den c))) cs = map (\<lambda>c. c) cs"
    by (rule map_cong) (simp_all add: total_of_member[OF assms] mk_eta)
  then show ?thesis by (simp add: comp_def)
qed

text \<open>A normalised slice is determined by the map it stands for.\<close>

lemma ext_total:
  assumes "strict_denoms den cs" and "strict_denoms den cs'"
    and "\<forall>c\<in>set cs. amo c \<noteq> 0" and "\<forall>c\<in>set cs'. amo c \<noteq> 0"
    and eq: "total_of den amo cs = total_of den amo cs'"
  shows "cs = cs'"
proof -
  have "set (map den cs) = set (map den cs')"
    using total_of_nonzero_denoms[OF assms(1,3)] total_of_nonzero_denoms[OF assms(2,4)] eq by simp
  then have "map den cs = map den cs'"
    using assms(1,2) unfolding strict_denoms_def by (intro strict_sorted_equal) auto
  then show ?thesis using rebuild[OF assms(1)] rebuild[OF assms(2)] eq by metis
qed

lemma total_mk_map:
  "distinct ds \<Longrightarrow> total_of den amo (map (\<lambda>d. mk d (f d)) ds) d = (if d \<in> set ds then f d else 0)"
  by (induction ds) (auto simp: total_of_notin)

end

end
