(* ===== verification/Coins.thy ===== *)
theory Coins
  imports CoinSet
begin

text \<open>
  Coins and coin sets, \<^verbatim>\<open>src/types/coin.go\<close>.

  A \<open>Coin\<close> is a record, \<open>Coins\<close> a list of them (the Go slice). Denominations are checked
  against the default expression of the source, \<^verbatim>\<open>[a-zA-Z][a-zA-Z0-9/:._-]{2,127}\<close>.
  Errors keep the constant part of their message. \<open>sort.Sort\<close> is modelled by the stable
  \<open>sort_key\<close>; the two differ only in the order of coins with equal denominations, which
  no coin set that passes \<open>Validate\<close> has. Go leaves the order in which \<open>range\<close> visits a
  map open, so the loop of \<open>safeAdd\<close> takes the order of the keys as an argument; the
  result does not depend on it (\<open>safeAdd_order_independent\<close>).
\<close>

record Coin =
  Denom :: string
  Amount :: int

type_synonym Coins = "Coin list"

abbreviation coin :: "string \<Rightarrow> int \<Rightarrow> Coin" where
  "coin d a \<equiv> \<lparr>Denom = d, Amount = a\<rparr>"

section \<open>Denominations\<close>

definition in_range :: "char \<Rightarrow> char \<Rightarrow> char \<Rightarrow> bool" where
  [simp]: "in_range lo hi c \<longleftrightarrow> lo \<le> c \<and> c \<le> hi"

definition is_letter :: "char \<Rightarrow> bool" where
  "is_letter c = (in_range CHR ''a'' CHR ''z'' c \<or> in_range CHR ''A'' CHR ''Z'' c)"

definition is_digit :: "char \<Rightarrow> bool" where
  "is_digit c = in_range CHR ''0'' CHR ''9'' c"

definition is_denom_char :: "char \<Rightarrow> bool" where
  "is_denom_char c = (is_letter c \<or> is_digit c \<or> c \<in> set ''/:._-'')"

definition reDnm_MatchString :: "string \<Rightarrow> bool" where
  "reDnm_MatchString d =
     (case d of [] \<Rightarrow> False
      | c # cs \<Rightarrow> is_letter c \<and> 2 \<le> length cs \<and> length cs \<le> 127 \<and> list_all is_denom_char cs)"

definition ValidateDenom :: "string \<Rightarrow> unit res" where
  "ValidateDenom denom = (if \<not> reDnm_MatchString denom then Inl (Err ''invalid denom'') else Inr ())"

definition mustValidateDenom :: "string \<Rightarrow> unit res" where
  "mustValidateDenom denom = must (ValidateDenom denom)"

section \<open>Coin\<close>

definition Coin_IsZero :: "Coin \<Rightarrow> bool" where
  "Coin_IsZero c = Int_IsZero (Amount c)"

definition Coin_IsPositive :: "Coin \<Rightarrow> bool" where
  "Coin_IsPositive c = (sgn (Amount c) = 1)"

definition Coin_IsNegative :: "Coin \<Rightarrow> bool" where
  "Coin_IsNegative c = (sgn (Amount c) = -1)"

definition Coin_Validate :: "Coin \<Rightarrow> unit res" where
  "Coin_Validate c =
     bind_r (ValidateDenom (Denom c)) (\<lambda>_.
       if Int_IsNegative (Amount c) then Inl (Err ''negative coin amount'') else Inr ())"

definition Coin_IsValid :: "Coin \<Rightarrow> bool" where
  "Coin_IsValid c = (Coin_Validate c = Inr ())"

definition NewCoin :: "string \<Rightarrow> sdk_Int \<Rightarrow> Coin res" where
  "NewCoin denom amount =
     (let c = coin denom amount in bind_r (must (Coin_Validate c)) (\<lambda>_. Inr c))"

definition NewInt64Coin :: "string \<Rightarrow> int64 \<Rightarrow> Coin res" where
  "NewInt64Coin denom amount = NewCoin denom (NewInt amount)"

definition Coin_IsGTE :: "Coin \<Rightarrow> Coin \<Rightarrow> bool res" where
  "Coin_IsGTE c other =
     (if Denom c \<noteq> Denom other then Inl (Panic ''invalid coin denominations'')
      else Inr (\<not> Amount c < Amount other))"

definition Coin_IsLT :: "Coin \<Rightarrow> Coin \<Rightarrow> bool res" where
  "Coin_IsLT c other =
     (if Denom c \<noteq> Denom other then Inl (Panic ''invalid coin denominations'')
      else Inr (Amount c < Amount other))"

definition Coin_IsLTE :: "Coin \<Rightarrow> Coin \<Rightarrow> bool res" where
  "Coin_IsLTE c other =
     (if Denom c \<noteq> Denom other then Inl (Panic ''invalid coin denominations'')
      else Inr (\<not> Amount c > Amount other))"

definition Coin_Add :: "Coin \<Rightarrow> Coin \<Rightarrow> Coin res" where
  "Coin_Add c coinB =
     (if Denom c \<noteq> Denom coinB then Inl (Panic ''invalid coin denominations'')
      else bind_r (Int_Add (Amount c) (Amount coinB)) (\<lambda>a. Inr (coin (Denom c) a)))"

definition Coin_AddAmount :: "Coin \<Rightarrow> sdk_Int \<Rightarrow> Coin res" where
  "Coin_AddAmount c amount = bind_r (Int_Add (Amount c) amount) (\<lambda>a. Inr (coin (Denom c) a))"

definition Coin_SafeSub :: "Coin \<Rightarrow> Coin \<Rightarrow> Coin res" where
  "Coin_SafeSub c coinB =
     (if Denom c \<noteq> Denom coinB then Inl (Err ''invalid coin denoms'')
      else bind_r (Int_Sub (Amount c) (Amount coinB)) (\<lambda>a.
        let res = coin (Denom c) a in
        if Coin_IsNegative res then Inl (Err ''negative coin amount'') else Inr res))"

definition Coin_Sub :: "Coin \<Rightarrow> Coin \<Rightarrow> Coin res" where
  "Coin_Sub c coinB = must (Coin_SafeSub c coinB)"

definition Coin_SubAmount :: "Coin \<Rightarrow> sdk_Int \<Rightarrow> Coin res" where
  "Coin_SubAmount c amount =
     bind_r (Int_Sub (Amount c) amount) (\<lambda>a.
       let res = coin (Denom c) a in
       if Coin_IsNegative res then Inl (Panic ''negative coin amount'') else Inr res)"

section \<open>Coins: sorting, validation and lookup\<close>

definition Coins_Sort :: "Coins \<Rightarrow> Coins" where
  "Coins_Sort coins = sort_key Denom coins"

fun Coins_Validate_loop :: "string \<Rightarrow> Coins \<Rightarrow> unit res" where
  "Coins_Validate_loop lowDenom [] = Inr ()"
| "Coins_Validate_loop lowDenom (c # cs) =
     bind_r (ValidateDenom (Denom c)) (\<lambda>_.
       if Denom c < lowDenom then Inl (Err ''denomination is not sorted'')
       else if Denom c = lowDenom then Inl (Err ''duplicate denomination'')
       else if \<not> Coin_IsPositive c then Inl (Err ''coin amount is not positive'')
       else Coins_Validate_loop (Denom c) cs)"

definition Coins_Validate_single :: "Coin \<Rightarrow> unit res" where
  "Coins_Validate_single c =
     bind_r (ValidateDenom (Denom c)) (\<lambda>_.
       if \<not> Coin_IsPositive c then Inl (Err ''coin amount is not positive'') else Inr ())"

definition Coins_Validate :: "Coins \<Rightarrow> unit res" where
  "Coins_Validate coins =
     (case coins of
        [] \<Rightarrow> Inr ()
      | [c] \<Rightarrow> Coins_Validate_single c
      | c # cs \<Rightarrow> bind_r (Coins_Validate_single c) (\<lambda>_. Coins_Validate_loop (Denom c) cs))"

definition Coins_IsValid :: "Coins \<Rightarrow> bool" where
  "Coins_IsValid coins = (Coins_Validate coins = Inr ())"

fun Coins_isSorted :: "Coins \<Rightarrow> bool" where
  "Coins_isSorted (a # b # cs) = (if Denom a > Denom b then False else Coins_isSorted (b # cs))"
| "Coins_isSorted _ = True"

definition Coins_Denoms :: "Coins \<Rightarrow> string list" where
  "Coins_Denoms coins = map Denom coins"

text \<open>Binary search on the slice, \<open>None\<close> for \<open>(false, Coin{})\<close>.\<close>

function Coins_Find :: "Coins \<Rightarrow> string \<Rightarrow> Coin option" where
  "Coins_Find coins denom =
     (case coins of
        [] \<Rightarrow> None
      | [c] \<Rightarrow> (if Denom c = denom then Some c else None)
      | _ # _ # _ \<Rightarrow>
          let midIdx = length coins div 2; c = coins ! midIdx in
          if denom < Denom c then Coins_Find (take midIdx coins) denom
          else if denom = Denom c then Some c
          else Coins_Find (drop (midIdx + 1) coins) denom)"
  by pat_completeness auto
termination
  by (relation "measure (\<lambda>(coins, _). length coins)") (auto split: list.splits)

declare Coins_Find.simps [simp del]

definition AmountOfNoDenomValidation :: "Coins \<Rightarrow> string \<Rightarrow> sdk_Int" where
  "AmountOfNoDenomValidation coins denom =
     (case Coins_Find coins denom of Some c \<Rightarrow> Amount c | None \<Rightarrow> ZeroInt)"

definition AmountOf :: "Coins \<Rightarrow> string \<Rightarrow> sdk_Int res" where
  "AmountOf coins denom =
     bind_r (mustValidateDenom denom) (\<lambda>_. Inr (AmountOfNoDenomValidation coins denom))"

definition removeZeroCoins :: "Coins \<Rightarrow> Coins" where
  "removeZeroCoins coins = filter (\<lambda>c. \<not> Coin_IsZero c) coins"

definition sanitizeCoins :: "Coins \<Rightarrow> Coins" where
  "sanitizeCoins coins =
     (let newCoins = removeZeroCoins coins in if newCoins = [] then [] else Coins_Sort newCoins)"

definition NewCoins :: "Coins \<Rightarrow> Coins res" where
  "NewCoins coins =
     (let newCoins = sanitizeCoins coins in bind_r (must (Coins_Validate newCoins)) (\<lambda>_. Inr newCoins))"

section \<open>Coins: arithmetic\<close>

text \<open>The map \<open>uniqCoins\<close> of \<open>safeAdd\<close>: every denomination to its coins, in slice order.\<close>

definition uniqCoins :: "Coins \<Rightarrow> Coins \<Rightarrow> string \<Rightarrow> Coins" where
  "uniqCoins coins coinsB =
     foldl (\<lambda>m c. m(Denom c := m (Denom c) @ [c])) (\<lambda>_. []) (coins @ coinsB)"

text \<open>One round of the loop over \<open>uniqCoins\<close>.\<close>

definition comboCoin :: "Coins \<Rightarrow> Coins \<Rightarrow> string \<Rightarrow> Coin res" where
  "comboCoin coins coinsB denom = fold_r Coin_Add (coin denom (NewInt 0)) (uniqCoins coins coinsB denom)"

definition safeAdd_in_order :: "string list \<Rightarrow> Coins \<Rightarrow> Coins \<Rightarrow> Coins res" where
  "safeAdd_in_order keys coins coinsB =
     (if \<not> Coins_isSorted coins then Inl (Panic ''Coins (self) must be sorted'')
      else if \<not> Coins_isSorted coinsB then Inl (Panic ''Wrong argument: coins must be sorted'')
      else bind_r
        (fold_r (\<lambda>coalesced denom. bind_r (comboCoin coins coinsB denom) (\<lambda>combo.
            Inr (if \<not> Coin_IsZero combo then coalesced @ [combo] else coalesced))) [] keys)
        (\<lambda>coalesced. Inr (if coalesced = [] then [] else Coins_Sort coalesced)))"

definition safeAdd :: "Coins \<Rightarrow> Coins \<Rightarrow> Coins res" where
  "safeAdd coins coinsB = safeAdd_in_order (remdups (map Denom (coins @ coinsB))) coins coinsB"

definition Coins_Add :: "Coins \<Rightarrow> Coins \<Rightarrow> Coins res" where
  "Coins_Add coins coinsB = safeAdd coins coinsB"

definition Coins_negative :: "Coins \<Rightarrow> Coins" where
  "Coins_negative coins = map (\<lambda>c. coin (Denom c) (Int_Neg (Amount c))) coins"

definition Coins_IsAnyNegative :: "Coins \<Rightarrow> bool" where
  "Coins_IsAnyNegative coins = list_ex Coin_IsNegative coins"

definition Coins_SafeSub :: "Coins \<Rightarrow> Coins \<Rightarrow> (Coins \<times> bool) res" where
  "Coins_SafeSub coins coinsB =
     bind_r (NewCoins coinsB) (\<lambda>b.
     bind_r (safeAdd coins (Coins_negative b)) (\<lambda>diff.
     Inr (diff, Coins_IsAnyNegative diff)))"

definition Coins_Sub :: "Coins \<Rightarrow> Coins \<Rightarrow> Coins res" where
  "Coins_Sub coins coinsB =
     bind_r (Coins_SafeSub coins coinsB) (\<lambda>(diff, hasNeg).
       if hasNeg then Inl (Panic ''negative coin amount'') else Inr diff)"

text \<open>\<open>SafeMulInt\<close> and \<open>SafeQuoInt\<close> return \<open>(nil, false)\<close> for a zero argument: \<open>None\<close>.\<close>

definition Coins_SafeMulInt :: "Coins \<Rightarrow> sdk_Int \<Rightarrow> Coins option res" where
  "Coins_SafeMulInt coins x =
     (if Int_IsZero x then Inr None
      else bind_r (map_r (\<lambda>c. bind_r (Int_Mul (Amount c) x) (\<lambda>a. NewCoin (Denom c) a)) coins)
        (\<lambda>res. Inr (Some res)))"

definition Coins_MulInt :: "Coins \<Rightarrow> sdk_Int \<Rightarrow> Coins res" where
  "Coins_MulInt coins x =
     bind_r (Coins_SafeMulInt coins x) (\<lambda>r. case r of
         None \<Rightarrow> Inl (Panic ''multiplying by zero is an invalid operation on coins'')
       | Some res \<Rightarrow> Inr res)"

definition Coins_SafeQuoInt :: "Coins \<Rightarrow> sdk_Int \<Rightarrow> Coins option res" where
  "Coins_SafeQuoInt coins x =
     (if Int_IsZero x then Inr None
      else bind_r (map_r (\<lambda>c. bind_r (Int_Quo (Amount c) x) (\<lambda>a. NewCoin (Denom c) a)) coins)
        (\<lambda>res. Inr (Some res)))"

definition Coins_QuoInt :: "Coins \<Rightarrow> sdk_Int \<Rightarrow> Coins res" where
  "Coins_QuoInt coins x =
     bind_r (Coins_SafeQuoInt coins x) (\<lambda>r. case r of
         None \<Rightarrow> Inl (Panic ''dividing by zero is an invalid operation on coins'')
       | Some res \<Rightarrow> Inr res)"

text \<open>The merge loops of \<open>Max\<close> and \<open>Min\<close>, on the parts of the slices not yet visited.\<close>

fun Coins_Max_loop :: "Coins \<Rightarrow> Coins \<Rightarrow> Coins" where
  "Coins_Max_loop (a # as) (b # bs) =
     (if Denom a < Denom b then a # Coins_Max_loop as (b # bs)
      else if Denom a = Denom b then (if Amount b > Amount a then b else a) # Coins_Max_loop as bs
      else b # Coins_Max_loop (a # as) bs)"
| "Coins_Max_loop as [] = as"
| "Coins_Max_loop [] bs = bs"

definition Coins_Max :: "Coins \<Rightarrow> Coins \<Rightarrow> Coins res" where
  "Coins_Max coins coinsB = NewCoins (Coins_Max_loop coins coinsB)"

fun Coins_Min_loop :: "Coins \<Rightarrow> Coins \<Rightarrow> Coins" where
  "Coins_Min_loop (a # as) (b # bs) =
     (if Denom a < Denom b then Coins_Min_loop as (b # bs)
      else if Denom a = Denom b then
        (let minCoin = (if Amount b < Amount a then b else a) in
         if \<not> Coin_IsZero minCoin then minCoin # Coins_Min_loop as bs else Coins_Min_loop as bs)
      else Coins_Min_loop (a # as) bs)"
| "Coins_Min_loop [] bs = []"
| "Coins_Min_loop (a # as) [] = []"

definition Coins_Min :: "Coins \<Rightarrow> Coins \<Rightarrow> Coins res" where
  "Coins_Min coins coinsB = NewCoins (Coins_Min_loop coins coinsB)"

section \<open>Coins: comparisons\<close>

text \<open>A loop \<open>for _, x := range xs { if p(x) { return b } } return !b\<close> whose test may panic.\<close>

fun any_r :: "('a \<Rightarrow> bool res) \<Rightarrow> 'a list \<Rightarrow> bool res" where
  "any_r p [] = Inr False"
| "any_r p (x # xs) = bind_r (p x) (\<lambda>b. if b then Inr True else any_r p xs)"

definition not_r :: "bool res \<Rightarrow> bool res" where
  "not_r r = bind_r r (\<lambda>b. Inr (\<not> b))"

definition DenomsSubsetOf :: "Coins \<Rightarrow> Coins \<Rightarrow> bool res" where
  "DenomsSubsetOf coins coinsB =
     (if length coins > length coinsB then Inr False
      else not_r (any_r (\<lambda>c. bind_r (AmountOf coinsB (Denom c)) (\<lambda>a. Inr (Int_IsZero a))) coins))"

definition IsAllGT :: "Coins \<Rightarrow> Coins \<Rightarrow> bool res" where
  "IsAllGT coins coinsB =
     (if coins = [] then Inr False
      else if coinsB = [] then Inr True
      else bind_r (DenomsSubsetOf coinsB coins) (\<lambda>sub.
        if \<not> sub then Inr False
        else not_r (any_r (\<lambda>b. bind_r (AmountOf coins (Denom b)) (\<lambda>a. Inr (\<not> a > Amount b))) coinsB)))"

definition IsAllGTE :: "Coins \<Rightarrow> Coins \<Rightarrow> bool res" where
  "IsAllGTE coins coinsB =
     (if coinsB = [] then Inr True
      else if coins = [] then Inr False
      else not_r (any_r (\<lambda>b. bind_r (AmountOf coins (Denom b)) (\<lambda>a. Inr (Amount b > a))) coinsB))"

definition IsAllLT :: "Coins \<Rightarrow> Coins \<Rightarrow> bool res" where
  "IsAllLT coins coinsB = IsAllGT coinsB coins"

definition IsAllLTE :: "Coins \<Rightarrow> Coins \<Rightarrow> bool res" where
  "IsAllLTE coins coinsB = IsAllGTE coinsB coins"

definition IsAnyGT :: "Coins \<Rightarrow> Coins \<Rightarrow> bool res" where
  "IsAnyGT coins coinsB =
     (if coinsB = [] then Inr False
      else any_r (\<lambda>c. bind_r (AmountOf coinsB (Denom c)) (\<lambda>amt. Inr (Amount c > amt \<and> \<not> Int_IsZero amt))) coins)"

definition IsAnyGTE :: "Coins \<Rightarrow> Coins \<Rightarrow> bool res" where
  "IsAnyGTE coins coinsB =
     (if coinsB = [] then Inr False
      else any_r (\<lambda>c. bind_r (AmountOf coinsB (Denom c)) (\<lambda>amt. Inr (Amount c \<ge> amt \<and> \<not> Int_IsZero amt))) coins)"

definition Coins_IsZero :: "Coins \<Rightarrow> bool" where
  "Coins_IsZero coins = list_all Coin_IsZero coins"

definition Coins_Equal :: "Coins \<Rightarrow> Coins \<Rightarrow> bool" where
  "Coins_Equal coins coinsB = (length coins = length coinsB \<and> list_all2 (=) (Coins_Sort coins) (Coins_Sort coinsB))"

definition Coins_IsAllPositive :: "Coins \<Rightarrow> bool" where
  "Coins_IsAllPositive coins = (coins \<noteq> [] \<and> list_all Coin_IsPositive coins)"

section \<open>Validity\<close>

abbreviation amt :: "Coins \<Rightarrow> string \<Rightarrow> int" where
  "amt \<equiv> total_of Denom Amount"

text \<open>The invariant of a coin set: sorted without duplicates, positive amounts, well-formed
  denominations. \<open>normal_coins\<close> also allows negative amounts, as in a difference.\<close>

definition valid_coins :: "Coins \<Rightarrow> bool" where
  "valid_coins cs \<longleftrightarrow> strict_denoms Denom cs \<and> (\<forall>c\<in>set cs. 0 < Amount c \<and> reDnm_MatchString (Denom c))"

definition normal_coins :: "Coins \<Rightarrow> bool" where
  "normal_coins cs \<longleftrightarrow> strict_denoms Denom cs \<and> (\<forall>c\<in>set cs. Amount c \<noteq> 0)"

definition wf_coins :: "Coins \<Rightarrow> bool" where
  "wf_coins cs \<longleftrightarrow> (\<forall>c\<in>set cs. wf_Int (Amount c))"

interpretation coins: coin_set Denom Amount coin
  by unfold_locales simp_all

lemma Coin_simps [simp]:
  "Coin_IsZero c \<longleftrightarrow> Amount c = 0"
  "Coin_IsPositive c \<longleftrightarrow> 0 < Amount c"
  "Coin_IsNegative c \<longleftrightarrow> Amount c < 0"
  by (auto simp: Coin_IsZero_def Coin_IsPositive_def Coin_IsNegative_def sgn_if)

lemma ValidateDenom_Inr [simp]: "ValidateDenom d = Inr u \<longleftrightarrow> reDnm_MatchString d"
  by (auto simp: ValidateDenom_def)

lemma mustValidateDenom_Inr [simp]: "mustValidateDenom d = Inr u \<longleftrightarrow> reDnm_MatchString d"
  by (simp add: mustValidateDenom_def)

lemma Coin_Validate_Inr [simp]:
  "Coin_Validate c = Inr u \<longleftrightarrow> reDnm_MatchString (Denom c) \<and> 0 \<le> Amount c"
  by (auto simp: Coin_Validate_def res_simps)

lemma NewCoin_Inr: "NewCoin d a = Inr c \<longleftrightarrow> c = coin d a \<and> reDnm_MatchString d \<and> 0 \<le> a"
  by (auto simp: NewCoin_def Let_def res_simps)

lemma Coins_Validate_loop_Inr:
  "Coins_Validate_loop low cs = Inr () \<longleftrightarrow> (\<forall>c\<in>set cs. low < Denom c) \<and> valid_coins cs"
proof (induction cs arbitrary: low)
  case Nil
  then show ?case by (simp add: valid_coins_def)
next
  case (Cons c cs)
  have "Coins_Validate_loop low (c # cs) = Inr () \<longleftrightarrow>
      reDnm_MatchString (Denom c) \<and> low < Denom c \<and> 0 < Amount c
      \<and> (\<forall>c'\<in>set cs. Denom c < Denom c') \<and> valid_coins cs"
    by (auto simp: res_simps Cons.IH not_less)
  also have "\<dots> \<longleftrightarrow> (\<forall>c'\<in>set (c # cs). low < Denom c') \<and> valid_coins (c # cs)"
    by (auto simp: valid_coins_def dest: less_trans)
  finally show ?case .
qed

lemma Coins_Validate_single_Inr:
  "Coins_Validate_single c = Inr () \<longleftrightarrow> reDnm_MatchString (Denom c) \<and> 0 < Amount c"
  by (auto simp: Coins_Validate_single_def res_simps)

lemma Coins_Validate_Inr: "Coins_Validate cs = Inr () \<longleftrightarrow> valid_coins cs"
  by (auto simp: Coins_Validate_def Coins_Validate_single_Inr Coins_Validate_loop_Inr res_simps
      valid_coins_def split: list.splits)

lemma Coins_IsValid_iff: "Coins_IsValid cs \<longleftrightarrow> valid_coins cs"
  by (simp add: Coins_IsValid_def Coins_Validate_Inr)

lemma valid_coins_normal: "valid_coins cs \<Longrightarrow> normal_coins cs"
  by (auto simp: valid_coins_def normal_coins_def)

lemma valid_coins_nonneg: "valid_coins cs \<Longrightarrow> 0 \<le> amt cs d"
  by (rule total_of_nonneg) (auto simp: valid_coins_def)

lemma normal_coins_ext: "normal_coins a \<Longrightarrow> normal_coins b \<Longrightarrow> amt a = amt b \<Longrightarrow> a = b"
  unfolding normal_coins_def by (rule coins.ext_total) auto

lemma wf_coins_amt: "wf_coins cs \<Longrightarrow> strict_denoms Denom cs \<Longrightarrow> wf_Int (amt cs d)"
proof (cases "d \<in> Denom ` set cs")
  case True
  assume "wf_coins cs" "strict_denoms Denom cs"
  then show ?thesis using True total_of_member[of Denom cs _ Amount] by (auto simp: wf_coins_def)
next
  case False
  then show ?thesis by (simp add: total_of_notin wf_Int_def)
qed

text \<open>A normalised set whose totals are positive exactly at well-formed denominations
  is valid.\<close>

lemma normal_coins_valid:
  assumes "normal_coins r" and "\<And>d. 0 \<le> amt r d" and "\<And>d. amt r d \<noteq> 0 \<Longrightarrow> reDnm_MatchString d"
  shows "valid_coins r"
proof -
  have "0 < Amount c \<and> reDnm_MatchString (Denom c)" if "c \<in> set r" for c
  proof -
    have "amt r (Denom c) = Amount c" "Amount c \<noteq> 0"
      using assms(1) that by (auto simp: normal_coins_def total_of_member)
    with assms(2,3)[of "Denom c"] show ?thesis by simp
  qed
  with assms(1) show ?thesis by (simp add: valid_coins_def normal_coins_def)
qed

lemma valid_coins_denom: "valid_coins cs \<Longrightarrow> amt cs d \<noteq> 0 \<Longrightarrow> reDnm_MatchString d"
  using total_of_notin[of d Denom cs Amount] by (auto simp: valid_coins_def)

lemma valid_coins_denom2:
  "valid_coins a \<Longrightarrow> valid_coins b \<Longrightarrow> \<not> (amt a d = 0 \<and> amt b d = 0) \<Longrightarrow> reDnm_MatchString d"
  using valid_coins_denom by blast

lemma Coins_isSorted_iff: "Coins_isSorted cs \<longleftrightarrow> sorted (map Denom cs)"
  by (induction cs rule: Coins_isSorted.induct) (auto simp: not_le)

lemma strict_isSorted: "strict_denoms Denom cs \<Longrightarrow> Coins_isSorted cs"
  by (simp add: Coins_isSorted_iff strict_denoms_sorted)

section \<open>Lookup\<close>

lemma Coins_Find_sound:
  "strict_denoms Denom cs \<Longrightarrow>
   (case Coins_Find cs d of Some c \<Rightarrow> c \<in> set cs \<and> Denom c = d | None \<Rightarrow> d \<notin> Denom ` set cs)"
proof (induction cs d rule: Coins_Find.induct)
  case (1 cs d)
  consider "cs = []" | c where "cs = [c]" | x y zs where "cs = x # y # zs"
    by (cases cs rule: Coins_isSorted.cases) auto
  then show ?case
  proof cases
    case 1
    then show ?thesis by (simp add: Coins_Find.simps)
  next
    case 2
    then show ?thesis by (auto simp: Coins_Find.simps)
  next
    case cs: 3
    define m where "m = length cs div 2"
    define c where "c = cs ! m"
    have m: "m < length cs" using cs by (simp add: m_def)
    have split: "cs = take m cs @ c # drop (m + 1) cs"
      unfolding c_def using id_take_nth_drop[OF m] by simp
    have eq: "Coins_Find cs d = (if d < Denom c then Coins_Find (take m cs) d
        else if d = Denom c then Some c else Coins_Find (drop (m + 1) cs) d)"
      by (subst Coins_Find.simps) (simp add: cs m_def c_def)
    have "strict_denoms Denom (take m cs @ c # drop (m + 1) cs)"
      by (subst split[symmetric]) (rule "1.prems")
    then have str: "strict_denoms Denom (take m cs)" "strict_denoms Denom (drop (m + 1) cs)"
      "\<forall>x\<in>set (take m cs). Denom x < Denom c" "\<forall>x\<in>set (drop (m + 1) cs). Denom c < Denom x"
      by (simp_all add: strict_denoms_append)
    have sub: "set cs = set (take m cs) \<union> {c} \<union> set (drop (m + 1) cs)"
      using arg_cong[OF split, of set] by auto
    consider "d < Denom c" | "d = Denom c" | "Denom c < d" using less_linear[of d "Denom c"] by blast
    then show ?thesis
    proof cases
      case 1
      have "case Coins_Find (take m cs) d of Some c' \<Rightarrow> c' \<in> set (take m cs) \<and> Denom c' = d
          | None \<Rightarrow> d \<notin> Denom ` set (take m cs)"
        using "1.IH"(1)[OF cs refl m_def c_def 1 str(1)] .
      with 1 str(4) show ?thesis unfolding eq sub by (auto split: option.splits)
    next
      case 2
      then show ?thesis unfolding eq sub by simp
    next
      case 3
      then have no: "\<not> d < Denom c" "d \<noteq> Denom c" by auto
      have "case Coins_Find (drop (m + 1) cs) d of Some c' \<Rightarrow> c' \<in> set (drop (m + 1) cs) \<and> Denom c' = d
          | None \<Rightarrow> d \<notin> Denom ` set (drop (m + 1) cs)"
        using "1.IH"(2)[OF cs refl m_def c_def no str(2)] .
      with 3 no str(3) show ?thesis unfolding eq sub by (auto split: option.splits)
    qed
  qed
qed

lemma AmountOfNoDenomValidation_amt:
  assumes "strict_denoms Denom cs"
  shows "AmountOfNoDenomValidation cs d = amt cs d"
proof (cases "Coins_Find cs d")
  case None
  with Coins_Find_sound[OF assms, of d] have "d \<notin> Denom ` set cs" by simp
  with None show ?thesis by (simp add: AmountOfNoDenomValidation_def total_of_notin)
next
  case (Some c)
  with Coins_Find_sound[OF assms, of d] have "c \<in> set cs" "Denom c = d" by simp_all
  with Some total_of_member[OF assms] show ?thesis
    by (auto simp: AmountOfNoDenomValidation_def)
qed

lemma AmountOf_amt:
  "strict_denoms Denom cs \<Longrightarrow> reDnm_MatchString d \<Longrightarrow> AmountOf cs d = Inr (amt cs d)"
  by (simp add: AmountOf_def AmountOfNoDenomValidation_amt mustValidateDenom_def ValidateDenom_def)

section \<open>Addition\<close>

lemma uniqCoins_filter: "uniqCoins a b d = filter (\<lambda>c. Denom c = d) (a @ b)"
proof -
  have "foldl (\<lambda>m c. m(Denom c := m (Denom c) @ [c])) m cs d = m d @ filter (\<lambda>c. Denom c = d) cs" for m and cs :: Coins
    by (induction cs arbitrary: m) auto
  then show ?thesis by (simp add: uniqCoins_def)
qed

lemma fold_Coin_Add:
  "\<forall>c\<in>set cs. Denom c = d \<Longrightarrow>
   fold_r Coin_Add (coin d x) cs = bind_r (fold_r Int_Add x (map Amount cs)) (\<lambda>a. Inr (coin d a))"
proof (induction cs arbitrary: x)
  case Nil
  then show ?case by simp
next
  case (Cons c cs)
  then show ?case by (cases "Int_Add x (Amount c)") (simp_all add: Coin_Add_def)
qed

lemma fold_Int_Add_Inl: "fold_r Int_Add x xs = Inl e \<Longrightarrow> e = Panic ''Int overflow''"
proof (induction xs arbitrary: x)
  case Nil
  then show ?case by simp
next
  case (Cons y ys)
  then show ?case by (auto simp: res_simps Int_Add_def Let_def split: if_splits)
qed

text \<open>The accumulation of one denomination either gives the total or overflows.\<close>

definition combo_fits :: "Coins \<Rightarrow> Coins \<Rightarrow> string \<Rightarrow> bool" where
  "combo_fits a b d = is_ok (fold_r Int_Add 0 (map Amount (filter (\<lambda>c. Denom c = d) (a @ b))))"

lemma comboCoin_cases:
  "comboCoin a b d =
     (if combo_fits a b d then Inr (coin d (amt a d + amt b d)) else Inl (Panic ''Int overflow''))"
proof -
  let ?xs = "map Amount (filter (\<lambda>c. Denom c = d) (a @ b))"
  have eq: "comboCoin a b d = bind_r (fold_r Int_Add 0 ?xs) (\<lambda>x. Inr (coin d x))"
    unfolding comboCoin_def uniqCoins_filter by (subst fold_Coin_Add) (auto simp: NewInt_def)
  show ?thesis
  proof (cases "fold_r Int_Add 0 ?xs")
    case (Inl e)
    with fold_Int_Add_Inl[OF Inl] eq show ?thesis by (simp add: combo_fits_def)
  next
    case (Inr s)
    with int_arith.fold_add_Inr[OF Inr] eq show ?thesis
      by (simp add: combo_fits_def total_of_def)
  qed
qed

lemma comboCoin_fold:
  "fold_r (\<lambda>coalesced denom. bind_r (comboCoin a b denom) (\<lambda>combo.
      Inr (if \<not> Coin_IsZero combo then coalesced @ [combo] else coalesced))) acc keys =
   (if \<forall>d\<in>set keys. combo_fits a b d
    then Inr (acc @ filter (\<lambda>c. Amount c \<noteq> 0) (map (\<lambda>d. coin d (amt a d + amt b d)) keys))
    else Inl (Panic ''Int overflow''))"
proof (induction keys arbitrary: acc)
  case Nil
  then show ?case by simp
next
  case (Cons d keys)
  then show ?case by (simp add: comboCoin_cases)
qed

lemma safeAdd_in_order_eq:
  assumes "Coins_isSorted a" and "Coins_isSorted b"
  shows "safeAdd_in_order keys a b =
    (if \<forall>d\<in>set keys. combo_fits a b d
     then Inr (Coins_Sort (filter (\<lambda>c. Amount c \<noteq> 0) (map (\<lambda>d. coin d (amt a d + amt b d)) keys)))
     else Inl (Panic ''Int overflow''))"
  using assms unfolding safeAdd_in_order_def comboCoin_fold by (auto simp: Coins_Sort_def)

lemma combined_normal:
  assumes "distinct keys" and "set keys = Denom ` set (a @ b)"
  defines "r \<equiv> Coins_Sort (filter (\<lambda>c. Amount c \<noteq> 0) (map (\<lambda>d. coin d (amt a d + amt b d)) keys))"
  shows "normal_coins r" and "amt r = (\<lambda>d. amt a d + amt b d)"
proof -
  have "distinct (map Denom (filter (\<lambda>c. Amount c \<noteq> 0) (map (\<lambda>d. coin d (amt a d + amt b d)) keys)))"
    using assms(1) by (intro distinct_map_filter) (simp add: comp_def)
  then show "normal_coins r"
    by (auto simp: normal_coins_def r_def Coins_Sort_def strict_denoms_sort)
  show "amt r = (\<lambda>d. amt a d + amt b d)"
  proof
    fix d
    have "amt r d = (if d \<in> set keys then amt a d + amt b d else 0)"
      using assms(1) by (simp add: r_def Coins_Sort_def total_of_filter_zero coins.total_mk_map)
    also have "\<dots> = amt a d + amt b d"
      using assms(2) total_of_notin[of d Denom a Amount] total_of_notin[of d Denom b Amount]
      by (auto simp: image_Un)
    finally show "amt r d = amt a d + amt b d" .
  qed
qed

text \<open>C25: \<open>safeAdd\<close> ranges over a Go map, whose iteration order is unspecified; any order of
  the keys gives the same result, including the same panic.\<close>

theorem safeAdd_order_independent:
  assumes "distinct keys" and "set keys = Denom ` set (a @ b)"
  shows "safeAdd_in_order keys a b = safeAdd a b"
proof (cases "Coins_isSorted a \<and> Coins_isSorted b")
  case False
  then show ?thesis by (auto simp: safeAdd_def safeAdd_in_order_def)
next
  case True
  let ?keys = "remdups (map Denom (a @ b))"
  have k: "distinct ?keys" "set ?keys = Denom ` set (a @ b)" by auto
  show ?thesis
    using normal_coins_ext[OF combined_normal(1)[OF assms] combined_normal(1)[OF k]]
      combined_normal(2)[OF assms] combined_normal(2)[OF k] assms(2) k(2) True
    unfolding safeAdd_def by (simp add: safeAdd_in_order_eq)
qed

lemma safeAdd_order_independent_witness:
  "safeAdd_in_order [''stake'', ''atom''] [coin ''atom'' 2, coin ''stake'' 1] [coin ''stake'' 4]
   = safeAdd [coin ''atom'' 2, coin ''stake'' 1] [coin ''stake'' 4]"
  by (rule safeAdd_order_independent) auto

lemma combo_fits_strict:
  assumes "strict_denoms Denom a" and "strict_denoms Denom b" and "wf_coins a" and "wf_coins b"
  shows "combo_fits a b d \<longleftrightarrow> wf_Int (amt a d + amt b d)"
proof -
  have one: "\<exists>xs. filter (\<lambda>c. Denom c = d) cs = xs \<and> (xs = [] \<or> (\<exists>c. xs = [c] \<and> wf_Int (Amount c)))"
    if "strict_denoms Denom cs" "wf_coins cs" for cs
    using that
  proof (induction cs)
    case Nil
    then show ?case by simp
  next
    case (Cons c cs)
    show ?case
    proof (cases "Denom c = d")
      case True
      with Cons.prems have "filter (\<lambda>c. Denom c = d) cs = []" by (auto simp: filter_empty_conv)
      with True Cons.prems show ?thesis by (simp add: wf_coins_def)
    next
      case False
      with Cons show ?thesis by (simp add: wf_coins_def)
    qed
  qed
  have add: "is_ok (fold_r Int_Add x [y]) \<longleftrightarrow> wf_Int (x + y)" for x y
    by (auto simp: is_ok_iff res_simps Int_Add_Inr wf_Int_def)
  from one[OF assms(1,3)] one[OF assms(2,4)] show ?thesis
    by (auto simp: combo_fits_def total_of_def is_ok_iff res_simps Int_Add_Inr wf_Int_def)
qed

lemma safeAdd_strict:
  assumes "strict_denoms Denom a" and "strict_denoms Denom b" and "wf_coins a" and "wf_coins b"
  shows "if \<forall>d. wf_Int (amt a d + amt b d)
    then \<exists>r. safeAdd a b = Inr r \<and> normal_coins r \<and> wf_coins r \<and> (\<forall>d. amt r d = amt a d + amt b d)
    else safeAdd a b = Inl (Panic ''Int overflow'')"
proof -
  let ?keys = "remdups (map Denom (a @ b))"
  let ?r = "Coins_Sort (filter (\<lambda>c. Amount c \<noteq> 0) (map (\<lambda>d. coin d (amt a d + amt b d)) ?keys))"
  have k: "distinct ?keys" "set ?keys = Denom ` set (a @ b)" by auto
  have out: "wf_Int (amt a d + amt b d)" if "d \<notin> set ?keys" for d
    using that by (simp add: total_of_notin wf_Int_def)
  then have all: "(\<forall>d\<in>set ?keys. combo_fits a b d) \<longleftrightarrow> (\<forall>d. wf_Int (amt a d + amt b d))"
    unfolding combo_fits_strict[OF assms] by blast
  have eq: "safeAdd a b = (if \<forall>d. wf_Int (amt a d + amt b d) then Inr ?r else Inl (Panic ''Int overflow''))"
    unfolding safeAdd_def
    by (simp only: safeAdd_in_order_eq[OF strict_isSorted[OF assms(1)] strict_isSorted[OF assms(2)]] all)
  have "wf_coins ?r" if "\<forall>d. wf_Int (amt a d + amt b d)"
    using that by (auto simp: wf_coins_def Coins_Sort_def)
  then show ?thesis using eq combined_normal[OF k] by simp
qed

lemma safeAdd_Inr:
  assumes "safeAdd a b = Inr r"
    and "strict_denoms Denom a" and "strict_denoms Denom b" and "wf_coins a" and "wf_coins b"
  shows "normal_coins r" and "wf_coins r" and "amt r d = amt a d + amt b d"
  using safeAdd_strict[OF assms(2-5)] assms(1) by (auto split: if_splits)

lemma valid_wf_strict:
  "valid_coins cs \<Longrightarrow> strict_denoms Denom cs"
  "normal_coins cs \<Longrightarrow> strict_denoms Denom cs"
  by (simp_all add: valid_coins_def normal_coins_def)

lemma Coins_Add_valid:
  assumes "valid_coins a" and "valid_coins b" and "wf_coins a" and "wf_coins b"
  shows "if \<forall>d. wf_Int (amt a d + amt b d)
    then \<exists>r. Coins_Add a b = Inr r \<and> valid_coins r \<and> wf_coins r \<and> (\<forall>d. amt r d = amt a d + amt b d)
    else Coins_Add a b = Inl (Panic ''Int overflow'')"
proof (cases "\<forall>d. wf_Int (amt a d + amt b d)")
  case True
  then obtain r where r: "safeAdd a b = Inr r" "normal_coins r" "wf_coins r" "\<And>d. amt r d = amt a d + amt b d"
    using safeAdd_strict[OF valid_wf_strict(1)[OF assms(1)] valid_wf_strict(1)[OF assms(2)] assms(3,4)] by auto
  have "valid_coins r"
  proof (rule normal_coins_valid[OF r(2)])
    show "0 \<le> amt r d" for d using assms by (simp add: r(4) valid_coins_nonneg)
    show "reDnm_MatchString d" if "amt r d \<noteq> 0" for d
      using that by (intro valid_coins_denom2[OF assms(1,2)]) (auto simp: r(4))
  qed
  with r True show ?thesis by (simp add: Coins_Add_def)
next
  case False
  then show ?thesis
    using safeAdd_strict[OF valid_wf_strict(1)[OF assms(1)] valid_wf_strict(1)[OF assms(2)] assms(3,4)]
    by (auto simp: Coins_Add_def)
qed

text \<open>C26: adding two valid coin sets gives a valid coin set whose amount of every
  denomination is the sum of the two amounts; it panics exactly when one of the sums
  does not fit into 256 bits.\<close>

theorem Coins_Add_exact:
  assumes "valid_coins a" and "valid_coins b" and "wf_coins a" and "wf_coins b"
  shows "if \<forall>d. wf_Int (amt a d + amt b d)
    then \<exists>r. Coins_Add a b = Inr r \<and> valid_coins r \<and> (\<forall>d. amt r d = amt a d + amt b d)
    else Coins_Add a b = Inl (Panic ''Int overflow'')"
  using Coins_Add_valid[OF assms] by (auto split: if_splits)

lemma Coins_Add_exact_witness:
  "\<exists>r. Coins_Add [coin ''atom'' 5] [coin ''atom'' 1] = Inr r \<and> valid_coins r
     \<and> (\<forall>d. amt r d = amt [coin ''atom'' 5] d + amt [coin ''atom'' 1] d)"
proof -
  have "\<forall>d. wf_Int (amt [coin ''atom'' 5] d + amt [coin ''atom'' 1] d)"
    by (simp add: wf_Int_def MaxBitLen_def)
  then show ?thesis
    using Coins_Add_exact[of "[coin ''atom'' 5]" "[coin ''atom'' 1]"]
    by (simp add: valid_coins_def wf_coins_def wf_Int_def MaxBitLen_def reDnm_MatchString_def
       is_letter_def is_denom_char_def)
qed

lemma Coins_Add_Inr:
  assumes "Coins_Add a b = Inr r" and "valid_coins a" and "valid_coins b" and "wf_coins a" and "wf_coins b"
  shows "valid_coins r" and "wf_coins r" and "amt r d = amt a d + amt b d"
  using Coins_Add_valid[OF assms(2-5)] assms(1) by (auto split: if_splits)

section \<open>Construction and subtraction\<close>

lemma NewCoins_Inr: "NewCoins cs = Inr r \<longleftrightarrow> valid_coins r \<and> r = sanitizeCoins cs"
  by (auto simp: NewCoins_def Let_def res_simps Coins_Validate_Inr)

lemma sanitizeCoins_eq: "sanitizeCoins cs = sort_key Denom (filter (\<lambda>c. Amount c \<noteq> 0) cs)"
  by (auto simp: sanitizeCoins_def removeZeroCoins_def Coins_Sort_def Let_def)

lemma amt_sanitizeCoins: "amt (sanitizeCoins cs) = amt cs"
  by (simp add: sanitizeCoins_eq total_of_filter_zero)

lemma sort_key_strict: "strict_denoms f cs \<Longrightarrow> sort_key f cs = cs"
  by (simp add: strict_denoms_sorted sorted_sort_id sort_key_id_if_sorted)

lemma NewCoins_valid: "valid_coins cs \<Longrightarrow> NewCoins cs = Inr cs"
proof -
  assume v: "valid_coins cs"
  then have "filter (\<lambda>c. Amount c \<noteq> 0) cs = cs" by (auto simp: valid_coins_def filter_id_conv)
  with v have "sanitizeCoins cs = cs"
    by (simp add: sanitizeCoins_eq sort_key_strict valid_wf_strict)
  with v show ?thesis by (simp add: NewCoins_Inr)
qed

lemma NewCoins_single:
  "reDnm_MatchString d \<Longrightarrow> 0 \<le> a \<Longrightarrow> NewCoins [coin d a] = Inr (if a = 0 then [] else [coin d a])"
  by (auto simp: NewCoins_Inr sanitizeCoins_eq valid_coins_def)

lemma negative_facts:
  "strict_denoms Denom (Coins_negative cs) = strict_denoms Denom cs"
  "amt (Coins_negative cs) d = - amt cs d"
  "wf_coins (Coins_negative cs) = wf_coins cs"
proof -
  show "strict_denoms Denom (Coins_negative cs) = strict_denoms Denom cs"
    unfolding Coins_negative_def by (rule strict_denoms_map) simp
  show "amt (Coins_negative cs) d = - amt cs d"
    by (induction cs) (auto simp: Coins_negative_def)
  show "wf_coins (Coins_negative cs) = wf_coins cs"
    by (auto simp: wf_coins_def Coins_negative_def wf_Int_def)
qed

lemma wf_Int_diff: "0 \<le> x \<Longrightarrow> 0 \<le> y \<Longrightarrow> wf_Int x \<Longrightarrow> wf_Int y \<Longrightarrow> wf_Int (x - y)"
  by (simp add: wf_Int_def)

lemma Coins_SafeSub_valid:
  assumes "valid_coins a" and "valid_coins b" and "wf_coins a" and "wf_coins b"
  shows "\<exists>diff neg. Coins_SafeSub a b = Inr (diff, neg) \<and> normal_coins diff \<and> wf_coins diff
    \<and> (\<forall>d. amt diff d = amt a d - amt b d)
    \<and> (neg \<longleftrightarrow> (\<exists>d. amt a d < amt b d)) \<and> (\<not> neg \<longrightarrow> valid_coins diff)"
proof -
  have fits: "wf_Int (amt a d + amt (Coins_negative b) d)" for d
    using wf_Int_diff[OF valid_coins_nonneg[OF assms(1)] valid_coins_nonneg[OF assms(2)]
        wf_coins_amt[OF assms(3) valid_wf_strict(1)[OF assms(1)]]
        wf_coins_amt[OF assms(4) valid_wf_strict(1)[OF assms(2)]]]
    by (simp add: negative_facts)
  obtain diff where diff: "safeAdd a (Coins_negative b) = Inr diff" "normal_coins diff" "wf_coins diff"
    "\<And>d. amt diff d = amt a d - amt b d"
    using safeAdd_strict[of a "Coins_negative b"] fits assms valid_wf_strict(1) by (auto simp: negative_facts)
  have neg: "Coins_IsAnyNegative diff \<longleftrightarrow> (\<exists>d. amt diff d < 0)"
  proof
    assume "Coins_IsAnyNegative diff"
    then obtain c where "c \<in> set diff" "Amount c < 0" by (auto simp: Coins_IsAnyNegative_def list_ex_iff)
    then have "amt diff (Denom c) < 0" using diff(2) by (simp add: total_of_member valid_wf_strict)
    then show "\<exists>d. amt diff d < 0" ..
  next
    assume "\<exists>d. amt diff d < 0"
    then obtain d where "amt diff d < 0" ..
    then show "Coins_IsAnyNegative diff"
      using total_of_nonneg[of diff Amount Denom d]
      by (fastforce simp: Coins_IsAnyNegative_def list_ex_iff)
  qed
  have "valid_coins diff" if "\<not> Coins_IsAnyNegative diff"
  proof (rule normal_coins_valid[OF diff(2)])
    show "0 \<le> amt diff d" for d using that neg by (meson not_le)
    show "reDnm_MatchString d" if "amt diff d \<noteq> 0" for d
      using that by (intro valid_coins_denom2[OF assms(1,2)]) (auto simp: diff(4))
  qed
  moreover have "Coins_SafeSub a b = Inr (diff, Coins_IsAnyNegative diff)"
    by (simp add: Coins_SafeSub_def NewCoins_valid[OF assms(2)] diff(1))
  ultimately show ?thesis using diff neg by auto
qed

text \<open>C27: \<open>SafeSub\<close> on valid coin sets never panics; it returns the exact difference of
  every denomination, reports a negative amount exactly when some denomination is
  overdrawn, and the difference is again a valid coin set when it reports none.\<close>

theorem Coins_SafeSub_exact:
  assumes "valid_coins a" and "valid_coins b" and "wf_coins a" and "wf_coins b"
  shows "\<exists>diff neg. Coins_SafeSub a b = Inr (diff, neg) \<and> normal_coins diff
    \<and> (\<forall>d. amt diff d = amt a d - amt b d)
    \<and> (neg \<longleftrightarrow> (\<exists>d. amt a d < amt b d)) \<and> (\<not> neg \<longrightarrow> valid_coins diff)"
  using Coins_SafeSub_valid[OF assms] by blast

lemma coins_eval [simp]: "wf_Int (numeral n) \<longleftrightarrow> (numeral n :: int) < 2 ^ MaxBitLen"
  by (simp add: wf_Int_def)

lemma Coins_SafeSub_exact_witness:
  "\<exists>diff neg. Coins_SafeSub [coin ''atom'' 5, coin ''stake'' 1] [coin ''stake'' 4] = Inr (diff, neg)
     \<and> normal_coins diff
     \<and> (\<forall>d. amt diff d = amt [coin ''atom'' 5, coin ''stake'' 1] d - amt [coin ''stake'' 4] d)
     \<and> (neg \<longleftrightarrow> (\<exists>d. amt [coin ''atom'' 5, coin ''stake'' 1] d < amt [coin ''stake'' 4] d))
     \<and> (\<not> neg \<longrightarrow> valid_coins diff)"
  by (rule Coins_SafeSub_exact)
     (simp_all add: valid_coins_def wf_coins_def wf_Int_def MaxBitLen_def reDnm_MatchString_def
       is_letter_def is_denom_char_def)

lemma Coins_Sub_Inr:
  assumes "valid_coins a" and "valid_coins b" and "wf_coins a" and "wf_coins b"
  shows "Coins_Sub a b = Inr r \<longleftrightarrow> valid_coins r \<and> (\<forall>d. amt r d = amt a d - amt b d)"
proof -
  obtain diff neg where diff: "Coins_SafeSub a b = Inr (diff, neg)" "normal_coins diff"
    "\<And>d. amt diff d = amt a d - amt b d" "neg \<longleftrightarrow> (\<exists>d. amt a d < amt b d)" "\<not> neg \<Longrightarrow> valid_coins diff"
    using Coins_SafeSub_valid[OF assms] by blast
  have "Coins_Sub a b = Inr r \<longleftrightarrow> \<not> neg \<and> r = diff"
    by (auto simp: Coins_Sub_def diff(1))
  also have "\<dots> \<longleftrightarrow> valid_coins r \<and> (\<forall>d. amt r d = amt a d - amt b d)"
  proof
    assume "\<not> neg \<and> r = diff"
    with diff show "valid_coins r \<and> (\<forall>d. amt r d = amt a d - amt b d)" by simp
  next
    assume r: "valid_coins r \<and> (\<forall>d. amt r d = amt a d - amt b d)"
    then have "amt r = amt diff" using diff(3) by auto
    with r diff(2) have "r = diff" using normal_coins_ext[OF valid_coins_normal] by blast
    moreover have "\<not> neg"
      unfolding diff(4) using r valid_coins_nonneg[of r] by (metis diff_ge_0_iff_ge not_le)
    ultimately show "\<not> neg \<and> r = diff" by simp
  qed
  finally show ?thesis .
qed

text \<open>Subtracting what was added gives the original coin set back.\<close>

theorem Coins_Add_Sub_roundtrip:
  assumes "valid_coins a" and "valid_coins b" and "wf_coins a" and "wf_coins b"
    and "Coins_Add a b = Inr s"
  shows "Coins_Sub s b = Inr a"
proof -
  note s = Coins_Add_Inr[OF assms(5,1,2,3,4)]
  show ?thesis
    unfolding Coins_Sub_Inr[OF s(1) assms(2) s(2) assms(4)] using assms(1) s(3) by simp
qed

lemma Coins_Add_Sub_roundtrip_witness:
  "\<exists>s. Coins_Add [coin ''atom'' 5] [coin ''atom'' 1, coin ''stake'' 4] = Inr s
     \<and> Coins_Sub s [coin ''atom'' 1, coin ''stake'' 4] = Inr [coin ''atom'' 5]"
proof -
  let ?a = "[coin ''atom'' 5]" and ?b = "[coin ''atom'' 1, coin ''stake'' 4]"
  have v: "valid_coins ?a" "valid_coins ?b" "wf_coins ?a" "wf_coins ?b"
    by (simp_all add: valid_coins_def wf_coins_def wf_Int_def MaxBitLen_def reDnm_MatchString_def
       is_letter_def is_denom_char_def)
  have "\<forall>d. wf_Int (amt ?a d + amt ?b d)" by (simp add: wf_Int_def MaxBitLen_def)
  then obtain s where "Coins_Add ?a ?b = Inr s" using Coins_Add_valid[OF v] by auto
  with Coins_Add_Sub_roundtrip[OF v] show ?thesis by blast
qed

section \<open>Comparisons, minimum and maximum\<close>

lemma any_r_total:
  "(\<And>x. x \<in> set xs \<Longrightarrow> p x = Inr (q x)) \<Longrightarrow> any_r p xs = Inr (\<exists>x\<in>set xs. q x)"
  by (induction xs) auto

lemma AmountOf_bind:
  assumes "valid_coins a" and "valid_coins b" and "c \<in> set b"
  shows "bind_r (AmountOf a (Denom c)) f = f (amt a (Denom c))"
  using assms by (simp add: AmountOf_amt valid_coins_def)

text \<open>\<open>IsAllGTE\<close> decides the pointwise order on valid coin sets, missing
  denominations counting as zero; it never panics there.\<close>

theorem IsAllGTE_pointwise:
  assumes "valid_coins a" and "valid_coins b"
  shows "IsAllGTE a b = Inr (\<forall>d. amt b d \<le> amt a d)"
proof -
  have "(\<exists>c\<in>set b. Amount c > amt a (Denom c)) \<longleftrightarrow> \<not> (\<forall>d. amt b d \<le> amt a d)"
  proof
    assume "\<exists>c\<in>set b. Amount c > amt a (Denom c)"
    then show "\<not> (\<forall>d. amt b d \<le> amt a d)"
      using total_of_member[OF valid_wf_strict(1)[OF assms(2)], of _ Amount] by (metis not_le)
  next
    assume "\<not> (\<forall>d. amt b d \<le> amt a d)"
    then obtain d where d: "amt a d < amt b d" by (auto simp: not_le)
    then have "amt b d \<noteq> 0" using valid_coins_nonneg[OF assms(1), of d] by linarith
    then obtain c where "c \<in> set b" "Denom c = d" using total_of_notin[of d Denom b Amount] by auto
    with d show "\<exists>c\<in>set b. Amount c > amt a (Denom c)"
      using total_of_member[OF valid_wf_strict(1)[OF assms(2)], of c Amount] by auto
  qed
  moreover have "any_r (\<lambda>c. bind_r (AmountOf a (Denom c)) (\<lambda>x. Inr (Amount c > x))) b
      = Inr (\<exists>c\<in>set b. Amount c > amt a (Denom c))"
    by (rule any_r_total) (simp add: AmountOf_bind[OF assms])
  moreover have "\<forall>d. amt b d \<le> amt a d" if "b = []"
    using that valid_coins_nonneg[OF assms(1)] by simp
  moreover have "\<not> (\<forall>d. amt b d \<le> amt a d)" if "a = []" "b \<noteq> []"
  proof -
    from that(2) obtain c where "c \<in> set b" by (cases b) auto
    then have "0 < amt b (Denom c)"
      using assms(2) total_of_member[of Denom b c Amount] by (auto simp: valid_coins_def)
    with that(1) show ?thesis by (auto simp: not_le)
  qed
  ultimately show ?thesis by (simp add: IsAllGTE_def not_r_def)
qed

lemma IsAllGTE_pointwise_witness:
  "IsAllGTE [coin ''atom'' 5, coin ''stake'' 2] [coin ''stake'' 2]
   = Inr (\<forall>d. amt [coin ''stake'' 2] d \<le> amt [coin ''atom'' 5, coin ''stake'' 2] d)"
  by (rule IsAllGTE_pointwise)
     (simp_all add: valid_coins_def reDnm_MatchString_def is_letter_def is_denom_char_def)

lemma valid_coins_Cons:
  "valid_coins (c # cs) \<longleftrightarrow>
     0 < Amount c \<and> reDnm_MatchString (Denom c) \<and> (\<forall>c'\<in>set cs. Denom c < Denom c') \<and> valid_coins cs"
  by (auto simp: valid_coins_def)

lemma amt_below: "\<forall>c\<in>set cs. d < Denom c \<Longrightarrow> amt cs d = 0"
  by (rule total_of_notin) auto

lemma Coins_Max_loop_set: "set (Coins_Max_loop a b) \<subseteq> set a \<union> set b"
  by (induction a b rule: Coins_Max_loop.induct) (auto simp: subset_iff)

lemma Coins_Min_loop_set: "set (Coins_Min_loop a b) \<subseteq> set a \<union> set b"
  by (induction a b rule: Coins_Min_loop.induct) (auto simp: subset_iff Let_def)

lemma Coins_Max_loop_facts:
  assumes "valid_coins a" and "valid_coins b"
  shows "valid_coins (Coins_Max_loop a b) \<and> (\<forall>d. amt (Coins_Max_loop a b) d = max (amt a d) (amt b d))"
  using assms
proof (induction a b rule: Coins_Max_loop.induct)
  case (1 a as b bs)
  have nn: "0 \<le> amt as d" "0 \<le> amt bs d" for d
    using "1.prems" by (simp_all add: valid_coins_Cons valid_coins_nonneg)
  have low: "\<forall>c\<in>set (Coins_Max_loop xs ys). Denom z < Denom c"
    if "\<forall>c\<in>set xs. Denom z < Denom c" "\<forall>c\<in>set ys. Denom z < Denom c" for xs ys and z :: Coin
    using that Coins_Max_loop_set[of xs ys] by blast
  consider "Denom a < Denom b" | "Denom a = Denom b" | "Denom b < Denom a"
    using less_linear[of "Denom a" "Denom b"] by blast
  then show ?case
  proof cases
    case lt: 1
    then have above: "\<forall>c\<in>set as. Denom a < Denom c" "\<forall>c\<in>set (b # bs). Denom a < Denom c"
      using "1.prems" by (auto simp: valid_coins_Cons dest: less_trans)
    have zero: "amt as (Denom a) = 0" "amt (b # bs) (Denom a) = 0"
      using above by (auto intro!: amt_below simp del: total_of_simps(2))
    have IH: "valid_coins (Coins_Max_loop as (b # bs))"
      "\<And>d. amt (Coins_Max_loop as (b # bs)) d = max (amt as d) (amt (b # bs) d)"
      using "1.IH"(1)[OF lt] "1.prems" by (simp_all add: valid_coins_Cons)
    have "amt (a # Coins_Max_loop as (b # bs)) d = max (amt (a # as) d) (amt (b # bs) d)" for d
      using zero "1.prems" unfolding total_of_simps(2)[of _ _ a] IH(2)
      by (cases "Denom a = d") (auto simp: valid_coins_Cons simp del: total_of_simps(2))
    with lt above IH(1) low[OF above] "1.prems" show ?thesis by (simp add: valid_coins_Cons)
  next
    case eq: 2
    then have above: "\<forall>c\<in>set as. Denom a < Denom c" "\<forall>c\<in>set bs. Denom a < Denom c"
      using "1.prems" by (auto simp: valid_coins_Cons)
    have zero: "amt as (Denom a) = 0" "amt bs (Denom a) = 0"
      using above by (auto intro!: amt_below)
    have IH: "valid_coins (Coins_Max_loop as bs)" "\<And>d. amt (Coins_Max_loop as bs) d = max (amt as d) (amt bs d)"
      using "1.IH"(2) eq "1.prems" by (simp_all add: valid_coins_Cons)
    with eq zero low[OF above] "1.prems" show ?thesis by (auto simp: valid_coins_Cons)
  next
    case gt: 3
    then have above: "\<forall>c\<in>set (a # as). Denom b < Denom c" "\<forall>c\<in>set bs. Denom b < Denom c"
      using "1.prems" by (auto simp: valid_coins_Cons dest: less_trans)
    have zero: "amt (a # as) (Denom b) = 0" "amt bs (Denom b) = 0"
      using above by (auto intro!: amt_below simp del: total_of_simps(2))
    have ne: "\<not> Denom a < Denom b" "Denom a \<noteq> Denom b" using gt by auto
    have IH: "valid_coins (Coins_Max_loop (a # as) bs)"
      "\<And>d. amt (Coins_Max_loop (a # as) bs) d = max (amt (a # as) d) (amt bs d)"
      using "1.IH"(3)[OF ne] "1.prems" by (simp_all add: valid_coins_Cons)
    have "amt (b # Coins_Max_loop (a # as) bs) d = max (amt (a # as) d) (amt (b # bs) d)" for d
      using zero "1.prems" unfolding total_of_simps(2)[of _ _ b] IH(2)
      by (cases "Denom b = d") (auto simp: valid_coins_Cons simp del: total_of_simps(2))
    with ne above IH(1) low[OF above] "1.prems" show ?thesis by (simp add: valid_coins_Cons)
  qed
next
  case (2 as)
  then show ?case using valid_coins_nonneg[of as] by simp
next
  case (3 v va)
  then show ?case using valid_coins_nonneg[of "v # va"] by simp
qed

lemma Coins_Min_loop_facts:
  assumes "valid_coins a" and "valid_coins b"
  shows "valid_coins (Coins_Min_loop a b) \<and> (\<forall>d. amt (Coins_Min_loop a b) d = min (amt a d) (amt b d))"
  using assms
proof (induction a b rule: Coins_Min_loop.induct)
  case (1 a as b bs)
  have nn: "0 \<le> amt as d" "0 \<le> amt bs d" "0 \<le> amt (a # as) d" "0 \<le> amt (b # bs) d" for d
    using "1.prems" valid_coins_nonneg[of as] valid_coins_nonneg[of bs]
      valid_coins_nonneg[of "a # as"] valid_coins_nonneg[of "b # bs"]
    by (simp_all add: valid_coins_Cons del: total_of_simps(2))
  consider "Denom a < Denom b" | "Denom a = Denom b" | "Denom b < Denom a"
    using less_linear[of "Denom a" "Denom b"] by blast
  then show ?case
  proof cases
    case lt: 1
    then have "\<forall>c\<in>set (b # bs). Denom a < Denom c"
      using "1.prems" by (auto simp: valid_coins_Cons dest: less_trans)
    then have zero: "amt (b # bs) (Denom a) = 0" by (rule amt_below)
    have IH: "valid_coins (Coins_Min_loop as (b # bs))"
      "\<And>d. amt (Coins_Min_loop as (b # bs)) d = min (amt as d) (amt (b # bs) d)"
      using "1.IH"(1)[OF lt] "1.prems" by (simp_all add: valid_coins_Cons)
    have "min (amt as d) (amt (b # bs) d) = min (amt (a # as) d) (amt (b # bs) d)" for d
      using zero nn[of d] by (cases "Denom a = d") (auto simp: min_def simp del: total_of_simps(2), auto)
    with lt IH show ?thesis by simp
  next
    case eq: 2
    then have above: "\<forall>c\<in>set as. Denom a < Denom c" "\<forall>c\<in>set bs. Denom a < Denom c"
      using "1.prems" by (auto simp: valid_coins_Cons)
    have zero: "amt as (Denom a) = 0" "amt bs (Denom a) = 0"
      using above by (auto intro!: amt_below)
    have low: "\<forall>c\<in>set (Coins_Min_loop as bs). Denom a < Denom c"
      using above Coins_Min_loop_set[of as bs] by blast
    have IH: "valid_coins (Coins_Min_loop as bs)" "\<And>d. amt (Coins_Min_loop as bs) d = min (amt as d) (amt bs d)"
      using "1.IH"(2,3) eq "1.prems" by (auto simp: valid_coins_Cons Let_def split: if_splits)
    with eq zero low "1.prems" show ?thesis by (auto simp: valid_coins_Cons Let_def min_def)
  next
    case gt: 3
    then have "\<forall>c\<in>set (a # as). Denom b < Denom c"
      using "1.prems" by (auto simp: valid_coins_Cons dest: less_trans)
    then have zero: "amt (a # as) (Denom b) = 0" by (rule amt_below)
    have ne: "\<not> Denom a < Denom b" "Denom a \<noteq> Denom b" using gt by auto
    have IH: "valid_coins (Coins_Min_loop (a # as) bs)"
      "\<And>d. amt (Coins_Min_loop (a # as) bs) d = min (amt (a # as) d) (amt bs d)"
      using "1.IH"(4)[OF ne] "1.prems" by (simp_all add: valid_coins_Cons)
    have "min (amt (a # as) d) (amt bs d) = min (amt (a # as) d) (amt (b # bs) d)" for d
      using zero nn[of d] by (cases "Denom b = d") (auto simp: min_def simp del: total_of_simps(2), auto)
    with ne IH show ?thesis by simp
  qed
next
  case (2 b)
  then show ?case using valid_coins_nonneg[of b] by (simp add: valid_coins_def min_absorb1)
next
  case (3 a as)
  then show ?case using valid_coins_nonneg[of "a # as"] by (simp add: valid_coins_def min_absorb2 del: total_of_simps(2))
qed

text \<open>On valid coin sets \<open>Min\<close> and \<open>Max\<close> are the pointwise minimum and maximum, again as
  valid coin sets.\<close>

theorem Coins_Min_Max_pointwise:
  assumes "valid_coins a" and "valid_coins b"
  shows "\<exists>lo hi. Coins_Min a b = Inr lo \<and> Coins_Max a b = Inr hi \<and> valid_coins lo \<and> valid_coins hi
    \<and> (\<forall>d. amt lo d = min (amt a d) (amt b d) \<and> amt hi d = max (amt a d) (amt b d))"
  using Coins_Min_loop_facts[OF assms] Coins_Max_loop_facts[OF assms]
  by (simp add: Coins_Min_def Coins_Max_def NewCoins_valid)

lemma Coins_Min_Max_pointwise_witness:
  "\<exists>lo hi. Coins_Min [coin ''atom'' 1, coin ''stake'' 3] [coin ''stake'' 2] = Inr lo
    \<and> Coins_Max [coin ''atom'' 1, coin ''stake'' 3] [coin ''stake'' 2] = Inr hi
    \<and> valid_coins lo \<and> valid_coins hi
    \<and> (\<forall>d. amt lo d = min (amt [coin ''atom'' 1, coin ''stake'' 3] d) (amt [coin ''stake'' 2] d)
         \<and> amt hi d = max (amt [coin ''atom'' 1, coin ''stake'' 3] d) (amt [coin ''stake'' 2] d))"
  by (rule Coins_Min_Max_pointwise)
     (simp_all add: valid_coins_def reDnm_MatchString_def is_letter_def is_denom_char_def)

end
