(* ===== verification/Accounts.thy ===== *)
theory Accounts
  imports Coins MathDec Codec
begin

text \<open>
  Accounts and vesting schedules: \<^verbatim>\<open>src/x/auth/types/account.go\<close>,
  \<^verbatim>\<open>src/x/auth/vesting/types/vesting_account.go\<close> and the message types they embed. An address
  is its byte string; its bech32 text form is left out. Times are Unix seconds, kept at 64
  bits. The address of a public key is a parameter, since it is a hash of the key. Operations
  that mutate an account return the new one.
\<close>

section \<open>Accounts\<close>

type_synonym AccAddress = bytes

record BaseAccount =
  Address :: AccAddress
  PubKey :: "bytes option"
  AccountNumber :: uint64
  Sequence :: uint64

record ModuleAccount =
  macc_base :: BaseAccount
  macc_Name :: string
  Permissions :: "string list"

record BaseVestingAccount =
  bva_base :: BaseAccount
  OriginalVesting :: Coins
  DelegatedFree :: Coins
  DelegatedVesting :: Coins
  EndTime :: int64

record ContinuousVestingAccount =
  cva_bva :: BaseVestingAccount
  cva_StartTime :: int64

record Period =
  Length :: int64
  period_Amount :: Coins

record PeriodicVestingAccount =
  pva_bva :: BaseVestingAccount
  pva_StartTime :: int64
  VestingPeriods :: "Period list"

record DelayedVestingAccount =
  dva_bva :: BaseVestingAccount

record PermanentLockedAccount =
  plva_bva :: BaseVestingAccount

datatype AccountI =
    BaseAcc BaseAccount
  | ModuleAcc ModuleAccount
  | ContinuousAcc ContinuousVestingAccount
  | PeriodicAcc PeriodicVestingAccount
  | DelayedAcc DelayedVestingAccount
  | PermanentLockedAcc PermanentLockedAccount

definition NewBaseAccountWithAddress :: "AccAddress \<Rightarrow> BaseAccount" where
  "NewBaseAccountWithAddress addr = \<lparr>Address = addr, PubKey = None, AccountNumber = 0, Sequence = 0\<rparr>"

definition BaseAccount_SetAddress :: "BaseAccount \<Rightarrow> AccAddress \<Rightarrow> BaseAccount res" where
  "BaseAccount_SetAddress acc addr =
     (if length (Address acc) \<noteq> 0 then Inl (Err ''cannot override BaseAccount address'')
      else Inr (acc\<lparr>Address := addr\<rparr>))"

definition BaseAccount_Validate :: "(bytes \<Rightarrow> AccAddress) \<Rightarrow> BaseAccount \<Rightarrow> unit res" where
  "BaseAccount_Validate pk_address acc =
     (case PubKey acc of
        None \<Rightarrow> Inr ()
      | Some pk \<Rightarrow>
          if Address acc = [] then Inr ()
          else if pk_address pk \<noteq> Address acc then Inl (Err ''account address and pubkey address do not match'')
          else Inr ())"

text \<open>The embedded base account, and how it is replaced.\<close>

fun base_of :: "AccountI \<Rightarrow> BaseAccount" where
  "base_of (BaseAcc a) = a"
| "base_of (ModuleAcc m) = macc_base m"
| "base_of (ContinuousAcc c) = bva_base (cva_bva c)"
| "base_of (PeriodicAcc p) = bva_base (pva_bva p)"
| "base_of (DelayedAcc d) = bva_base (dva_bva d)"
| "base_of (PermanentLockedAcc p) = bva_base (plva_bva p)"

fun map_base :: "(BaseAccount \<Rightarrow> BaseAccount) \<Rightarrow> AccountI \<Rightarrow> AccountI" where
  "map_base f (BaseAcc a) = BaseAcc (f a)"
| "map_base f (ModuleAcc m) = ModuleAcc (m\<lparr>macc_base := f (macc_base m)\<rparr>)"
| "map_base f (ContinuousAcc c) = ContinuousAcc (c\<lparr>cva_bva := (cva_bva c)\<lparr>bva_base := f (bva_base (cva_bva c))\<rparr>\<rparr>)"
| "map_base f (PeriodicAcc p) = PeriodicAcc (p\<lparr>pva_bva := (pva_bva p)\<lparr>bva_base := f (bva_base (pva_bva p))\<rparr>\<rparr>)"
| "map_base f (DelayedAcc d) = DelayedAcc (d\<lparr>dva_bva := (dva_bva d)\<lparr>bva_base := f (bva_base (dva_bva d))\<rparr>\<rparr>)"
| "map_base f (PermanentLockedAcc p) =
     PermanentLockedAcc (p\<lparr>plva_bva := (plva_bva p)\<lparr>bva_base := f (bva_base (plva_bva p))\<rparr>\<rparr>)"

definition GetAddress :: "AccountI \<Rightarrow> AccAddress" where
  "GetAddress acc = Address (base_of acc)"

definition GetAccountNumber :: "AccountI \<Rightarrow> uint64" where
  "GetAccountNumber acc = AccountNumber (base_of acc)"

definition SetAccountNumber :: "uint64 \<Rightarrow> AccountI \<Rightarrow> AccountI" where
  "SetAccountNumber n acc = map_base (\<lambda>b. b\<lparr>AccountNumber := n\<rparr>) acc"

definition GetSequence :: "AccountI \<Rightarrow> uint64" where
  "GetSequence acc = Sequence (base_of acc)"

definition SetSequence :: "uint64 \<Rightarrow> AccountI \<Rightarrow> AccountI" where
  "SetSequence n acc = map_base (\<lambda>b. b\<lparr>Sequence := n\<rparr>) acc"

section \<open>Module accounts\<close>

definition is_space :: "char \<Rightarrow> bool" where
  "is_space c = (c \<in> {CHR '' '', CHR 0x09, CHR 0x0A, CHR 0x0B, CHR 0x0C, CHR 0x0D})"

definition blank :: "string \<Rightarrow> bool" where
  "blank s = list_all is_space s"

definition validatePermissions :: "string list \<Rightarrow> unit res" where
  "validatePermissions permissions =
     (if list_ex blank permissions then Inl (Err ''module permission is empty'') else Inr ())"

text \<open>\<open>NewModuleAddress\<close> is a hash of the name; it is the parameter \<open>mod_address\<close>.\<close>

definition NewEmptyModuleAccount :: "(string \<Rightarrow> AccAddress) \<Rightarrow> string \<Rightarrow> string list \<Rightarrow> ModuleAccount res" where
  "NewEmptyModuleAccount mod_address name permissions =
     bind_r (must (validatePermissions permissions)) (\<lambda>_.
       Inr \<lparr>macc_base = NewBaseAccountWithAddress (mod_address name), macc_Name = name, Permissions = permissions\<rparr>)"

definition HasPermission :: "string list \<Rightarrow> string \<Rightarrow> bool" where
  "HasPermission permissions permission = list_ex (\<lambda>perm. perm = permission) permissions"

definition ModuleAccount_Validate :: "(bytes \<Rightarrow> AccAddress) \<Rightarrow> (string \<Rightarrow> AccAddress) \<Rightarrow> ModuleAccount \<Rightarrow> unit res" where
  "ModuleAccount_Validate pk_address name_hash ma =
     (if blank (macc_Name ma) then Inl (Err ''module account name cannot be blank'')
      else if Address (macc_base ma) \<noteq> name_hash (macc_Name ma)
      then Inl (Err ''address cannot be derived from the module name'')
      else BaseAccount_Validate pk_address (macc_base ma))"

section \<open>Base vesting accounts\<close>

definition NewBaseVestingAccount :: "BaseAccount \<Rightarrow> Coins \<Rightarrow> int64 \<Rightarrow> BaseVestingAccount" where
  "NewBaseVestingAccount baseAccount originalVesting endTime =
     \<lparr>bva_base = baseAccount, OriginalVesting = originalVesting, DelegatedFree = [], DelegatedVesting = [],
      EndTime = endTime\<rparr>"

definition LockedCoinsFromVesting :: "BaseVestingAccount \<Rightarrow> Coins \<Rightarrow> Coins res" where
  "LockedCoinsFromVesting bva vestingCoins =
     bind_r (Coins_Min vestingCoins (DelegatedVesting bva)) (\<lambda>m. Coins_Sub vestingCoins m)"

text \<open>\<^verbatim>\<open>if !x.IsZero() { cs = cs.Add(sdk.NewCoin(denom, x)) }\<close>, and the same with \<open>Sub\<close>.\<close>

definition add_nonzero :: "Coins \<Rightarrow> string \<Rightarrow> sdk_Int \<Rightarrow> Coins res" where
  "add_nonzero cs denom x =
     (if \<not> Int_IsZero x then bind_r (NewCoin denom x) (\<lambda>c. Coins_Add cs [c]) else Inr cs)"

definition sub_nonzero :: "Coins \<Rightarrow> string \<Rightarrow> sdk_Int \<Rightarrow> Coins res" where
  "sub_nonzero cs denom x =
     (if \<not> Int_IsZero x then bind_r (NewCoin denom x) (\<lambda>c. Coins_Sub cs [c]) else Inr cs)"

definition TrackDelegation_coin :: "Coins \<Rightarrow> Coins \<Rightarrow> BaseVestingAccount \<Rightarrow> Coin \<Rightarrow> BaseVestingAccount res" where
  "TrackDelegation_coin balance vestingCoins bva c =
     bind_r (AmountOf balance (Denom c)) (\<lambda>baseAmt.
     bind_r (AmountOf vestingCoins (Denom c)) (\<lambda>vestingAmt.
     bind_r (AmountOf (DelegatedVesting bva) (Denom c)) (\<lambda>delVestingAmt.
     if Int_IsZero (Amount c) \<or> baseAmt < Amount c
     then Inl (Panic ''delegation attempt with zero coins or insufficient funds'')
     else bind_r (Int_Sub vestingAmt delVestingAmt) (\<lambda>diff.
       let x = MinInt (MaxInt diff ZeroInt) (Amount c) in
       bind_r (Int_Sub (Amount c) x) (\<lambda>y.
       bind_r (add_nonzero (DelegatedVesting bva) (Denom c) x) (\<lambda>dv.
       bind_r (add_nonzero (DelegatedFree bva) (Denom c) y) (\<lambda>df.
       Inr (bva\<lparr>DelegatedVesting := dv, DelegatedFree := df\<rparr>))))))))"

definition Base_TrackDelegation :: "BaseVestingAccount \<Rightarrow> Coins \<Rightarrow> Coins \<Rightarrow> Coins \<Rightarrow> BaseVestingAccount res" where
  "Base_TrackDelegation bva balance vestingCoins amount =
     fold_r (TrackDelegation_coin balance vestingCoins) bva amount"

definition TrackUndelegation_coin :: "BaseVestingAccount \<Rightarrow> Coin \<Rightarrow> BaseVestingAccount res" where
  "TrackUndelegation_coin bva c =
     (if Int_IsZero (Amount c) then Inl (Panic ''undelegation attempt with zero coins'')
      else bind_r (AmountOf (DelegatedFree bva) (Denom c)) (\<lambda>delegatedFree.
        bind_r (AmountOf (DelegatedVesting bva) (Denom c)) (\<lambda>delegatedVesting.
        let x = MinInt delegatedFree (Amount c) in
        bind_r (Int_Sub (Amount c) x) (\<lambda>rest.
        let y = MinInt delegatedVesting rest in
        bind_r (sub_nonzero (DelegatedFree bva) (Denom c) x) (\<lambda>df.
        bind_r (sub_nonzero (DelegatedVesting bva) (Denom c) y) (\<lambda>dv.
        Inr (bva\<lparr>DelegatedFree := df, DelegatedVesting := dv\<rparr>)))))))"

definition Base_TrackUndelegation :: "BaseVestingAccount \<Rightarrow> Coins \<Rightarrow> BaseVestingAccount res" where
  "Base_TrackUndelegation bva amount = fold_r TrackUndelegation_coin bva amount"

definition BaseVestingAccount_Validate :: "(bytes \<Rightarrow> AccAddress) \<Rightarrow> BaseVestingAccount \<Rightarrow> unit res" where
  "BaseVestingAccount_Validate pk_address bva =
     bind_r (IsAllLTE (DelegatedVesting bva) (OriginalVesting bva)) (\<lambda>lte.
       if \<not> lte then Inl (Err ''delegated vesting amount cannot be greater than original vesting amount'')
       else BaseAccount_Validate pk_address (bva_base bva))"

section \<open>Vesting schedules\<close>

text \<open>Signed comparison of 64-bit numbers.\<close>

abbreviation le64 :: "int64 \<Rightarrow> int64 \<Rightarrow> bool" where
  "le64 a b \<equiv> sint a \<le> sint b"

abbreviation less64 :: "int64 \<Rightarrow> int64 \<Rightarrow> bool" where
  "less64 a b \<equiv> sint a < sint b"

definition NewContinuousVestingAccount :: "BaseAccount \<Rightarrow> Coins \<Rightarrow> int64 \<Rightarrow> int64 \<Rightarrow> ContinuousVestingAccount" where
  "NewContinuousVestingAccount baseAcc originalVesting startTime endTime =
     \<lparr>cva_bva = NewBaseVestingAccount baseAcc originalVesting endTime, cva_StartTime = startTime\<rparr>"

definition vesting_scalar :: "int64 \<Rightarrow> int64 \<Rightarrow> LegacyDec res" where
  "vesting_scalar x y = bind_r (LegacyNewDec x) (\<lambda>dx. bind_r (LegacyNewDec y) (\<lambda>dy. Dec_Quo dx dy))"

definition vested_coin :: "LegacyDec \<Rightarrow> Coin \<Rightarrow> Coin res" where
  "vested_coin s ovc =
     bind_r (LegacyNewDecFromInt (Amount ovc)) (\<lambda>a.
     bind_r (Dec_Mul a s) (\<lambda>m. bind_r (Dec_RoundInt m) (\<lambda>vestedAmt. NewCoin (Denom ovc) vestedAmt)))"

definition Continuous_GetVestedCoins :: "ContinuousVestingAccount \<Rightarrow> int64 \<Rightarrow> Coins res" where
  "Continuous_GetVestedCoins cva blockTime =
     (if le64 blockTime (cva_StartTime cva) then Inr []
      else if le64 (EndTime (cva_bva cva)) blockTime then Inr (OriginalVesting (cva_bva cva))
      else
        let x = blockTime - cva_StartTime cva; y = EndTime (cva_bva cva) - cva_StartTime cva in
        bind_r (vesting_scalar x y) (\<lambda>s. map_r (vested_coin s) (OriginalVesting (cva_bva cva))))"

definition Continuous_GetVestingCoins :: "ContinuousVestingAccount \<Rightarrow> int64 \<Rightarrow> Coins res" where
  "Continuous_GetVestingCoins cva blockTime =
     bind_r (Continuous_GetVestedCoins cva blockTime) (\<lambda>v. Coins_Sub (OriginalVesting (cva_bva cva)) v)"

definition Continuous_LockedCoins :: "ContinuousVestingAccount \<Rightarrow> int64 \<Rightarrow> Coins res" where
  "Continuous_LockedCoins cva blockTime =
     bind_r (Continuous_GetVestingCoins cva blockTime) (\<lambda>v. LockedCoinsFromVesting (cva_bva cva) v)"

definition Continuous_TrackDelegation :: "ContinuousVestingAccount \<Rightarrow> int64 \<Rightarrow> Coins \<Rightarrow> Coins \<Rightarrow> ContinuousVestingAccount res" where
  "Continuous_TrackDelegation cva blockTime balance amount =
     bind_r (Continuous_GetVestingCoins cva blockTime) (\<lambda>v.
     bind_r (Base_TrackDelegation (cva_bva cva) balance v amount) (\<lambda>b. Inr (cva\<lparr>cva_bva := b\<rparr>)))"

definition Continuous_Validate :: "(bytes \<Rightarrow> AccAddress) \<Rightarrow> ContinuousVestingAccount \<Rightarrow> unit res" where
  "Continuous_Validate pk_address cva =
     (if le64 (EndTime (cva_bva cva)) (cva_StartTime cva)
      then Inl (Err ''vesting start-time cannot be before end-time'')
      else BaseVestingAccount_Validate pk_address (cva_bva cva))"

definition NewPeriodicVestingAccount :: "BaseAccount \<Rightarrow> Coins \<Rightarrow> int64 \<Rightarrow> Period list \<Rightarrow> PeriodicVestingAccount" where
  "NewPeriodicVestingAccount baseAcc originalVesting startTime periods =
     \<lparr>pva_bva = NewBaseVestingAccount baseAcc originalVesting (foldl (\<lambda>endTime p. endTime + Length p) startTime periods),
      pva_StartTime = startTime, VestingPeriods = periods\<rparr>"

text \<open>The loop over the periods, which stops at the first one that is not over.\<close>

fun periods_vested :: "int64 \<Rightarrow> int64 \<Rightarrow> Coins \<Rightarrow> Period list \<Rightarrow> Coins res" where
  "periods_vested blockTime currentPeriodStartTime vestedCoins [] = Inr vestedCoins"
| "periods_vested blockTime currentPeriodStartTime vestedCoins (p # ps) =
     (let x = blockTime - currentPeriodStartTime in
      if less64 x (Length p) then Inr vestedCoins
      else bind_r (Coins_Add vestedCoins (period_Amount p)) (\<lambda>v.
        periods_vested blockTime (currentPeriodStartTime + Length p) v ps))"

definition Periodic_GetVestedCoins :: "PeriodicVestingAccount \<Rightarrow> int64 \<Rightarrow> Coins res" where
  "Periodic_GetVestedCoins pva blockTime =
     (if le64 blockTime (pva_StartTime pva) then Inr []
      else if le64 (EndTime (pva_bva pva)) blockTime then Inr (OriginalVesting (pva_bva pva))
      else periods_vested blockTime (pva_StartTime pva) [] (VestingPeriods pva))"

definition Periodic_GetVestingCoins :: "PeriodicVestingAccount \<Rightarrow> int64 \<Rightarrow> Coins res" where
  "Periodic_GetVestingCoins pva blockTime =
     bind_r (Periodic_GetVestedCoins pva blockTime) (\<lambda>v. Coins_Sub (OriginalVesting (pva_bva pva)) v)"

definition Periodic_LockedCoins :: "PeriodicVestingAccount \<Rightarrow> int64 \<Rightarrow> Coins res" where
  "Periodic_LockedCoins pva blockTime =
     bind_r (Periodic_GetVestingCoins pva blockTime) (\<lambda>v. LockedCoinsFromVesting (pva_bva pva) v)"

definition Periodic_TrackDelegation :: "PeriodicVestingAccount \<Rightarrow> int64 \<Rightarrow> Coins \<Rightarrow> Coins \<Rightarrow> PeriodicVestingAccount res" where
  "Periodic_TrackDelegation pva blockTime balance amount =
     bind_r (Periodic_GetVestingCoins pva blockTime) (\<lambda>v.
     bind_r (Base_TrackDelegation (pva_bva pva) balance v amount) (\<lambda>b. Inr (pva\<lparr>pva_bva := b\<rparr>)))"

definition periods_sum :: "int64 \<Rightarrow> Period list \<Rightarrow> (int64 \<times> Coins) res" where
  "periods_sum start periods =
     fold_r (\<lambda>(endTime, originalVesting) p.
         bind_r (Coins_Add originalVesting (period_Amount p)) (\<lambda>ov. Inr (endTime + Length p, ov)))
       (start, []) periods"

definition Periodic_Validate :: "(bytes \<Rightarrow> AccAddress) \<Rightarrow> PeriodicVestingAccount \<Rightarrow> unit res" where
  "Periodic_Validate pk_address pva =
     (if le64 (EndTime (pva_bva pva)) (pva_StartTime pva)
      then Inl (Err ''vesting start-time cannot be before end-time'')
      else bind_r (periods_sum (pva_StartTime pva) (VestingPeriods pva)) (\<lambda>(endTime, originalVesting).
        if endTime \<noteq> EndTime (pva_bva pva)
        then Inl (Err ''vesting end time does not match length of all vesting periods'')
        else if \<not> Coins_Equal originalVesting (OriginalVesting (pva_bva pva))
        then Inl (Err ''original vesting coins does not match the sum of all coins in vesting periods'')
        else BaseVestingAccount_Validate pk_address (pva_bva pva)))"

definition NewDelayedVestingAccount :: "BaseAccount \<Rightarrow> Coins \<Rightarrow> int64 \<Rightarrow> DelayedVestingAccount" where
  "NewDelayedVestingAccount baseAcc originalVesting endTime =
     \<lparr>dva_bva = NewBaseVestingAccount baseAcc originalVesting endTime\<rparr>"

definition Delayed_GetVestedCoins :: "DelayedVestingAccount \<Rightarrow> int64 \<Rightarrow> Coins res" where
  "Delayed_GetVestedCoins dva blockTime =
     (if le64 (EndTime (dva_bva dva)) blockTime then Inr (OriginalVesting (dva_bva dva)) else Inr [])"

definition Delayed_GetVestingCoins :: "DelayedVestingAccount \<Rightarrow> int64 \<Rightarrow> Coins res" where
  "Delayed_GetVestingCoins dva blockTime =
     bind_r (Delayed_GetVestedCoins dva blockTime) (\<lambda>v. Coins_Sub (OriginalVesting (dva_bva dva)) v)"

definition Delayed_LockedCoins :: "DelayedVestingAccount \<Rightarrow> int64 \<Rightarrow> Coins res" where
  "Delayed_LockedCoins dva blockTime =
     bind_r (Delayed_GetVestingCoins dva blockTime) (\<lambda>v. LockedCoinsFromVesting (dva_bva dva) v)"

definition Delayed_TrackDelegation :: "DelayedVestingAccount \<Rightarrow> int64 \<Rightarrow> Coins \<Rightarrow> Coins \<Rightarrow> DelayedVestingAccount res" where
  "Delayed_TrackDelegation dva blockTime balance amount =
     bind_r (Delayed_GetVestingCoins dva blockTime) (\<lambda>v.
     bind_r (Base_TrackDelegation (dva_bva dva) balance v amount) (\<lambda>b. Inr (dva\<lparr>dva_bva := b\<rparr>)))"

definition NewPermanentLockedAccount :: "BaseAccount \<Rightarrow> Coins \<Rightarrow> PermanentLockedAccount" where
  "NewPermanentLockedAccount baseAcc coins = \<lparr>plva_bva = NewBaseVestingAccount baseAcc coins 0\<rparr>"

definition PermanentLocked_GetVestedCoins :: "PermanentLockedAccount \<Rightarrow> int64 \<Rightarrow> Coins res" where
  "PermanentLocked_GetVestedCoins plva blockTime = Inr []"

definition PermanentLocked_GetVestingCoins :: "PermanentLockedAccount \<Rightarrow> int64 \<Rightarrow> Coins res" where
  "PermanentLocked_GetVestingCoins plva blockTime = Inr (OriginalVesting (plva_bva plva))"

definition PermanentLocked_LockedCoins :: "PermanentLockedAccount \<Rightarrow> int64 \<Rightarrow> Coins res" where
  "PermanentLocked_LockedCoins plva blockTime = LockedCoinsFromVesting (plva_bva plva) (OriginalVesting (plva_bva plva))"

definition PermanentLocked_TrackDelegation :: "PermanentLockedAccount \<Rightarrow> int64 \<Rightarrow> Coins \<Rightarrow> Coins \<Rightarrow> PermanentLockedAccount res" where
  "PermanentLocked_TrackDelegation plva blockTime balance amount =
     bind_r (Base_TrackDelegation (plva_bva plva) balance (OriginalVesting (plva_bva plva)) amount) (\<lambda>b.
       Inr (plva\<lparr>plva_bva := b\<rparr>))"

definition PermanentLocked_Validate :: "(bytes \<Rightarrow> AccAddress) \<Rightarrow> PermanentLockedAccount \<Rightarrow> unit res" where
  "PermanentLocked_Validate pk_address plva =
     (if 0 < sint (EndTime (plva_bva plva)) then Inl (Err ''permanently vested accounts cannot have an end-time'')
      else BaseVestingAccount_Validate pk_address (plva_bva plva))"

section \<open>The interface of vesting accounts\<close>

text \<open>The type switch \<^verbatim>\<open>acc.(types.VestingAccount)\<close> and the methods behind it.\<close>

fun vesting_of :: "AccountI \<Rightarrow> BaseVestingAccount option" where
  "vesting_of (ContinuousAcc c) = Some (cva_bva c)"
| "vesting_of (PeriodicAcc p) = Some (pva_bva p)"
| "vesting_of (DelayedAcc d) = Some (dva_bva d)"
| "vesting_of (PermanentLockedAcc p) = Some (plva_bva p)"
| "vesting_of _ = None"

fun GetVestingCoins :: "AccountI \<Rightarrow> int64 \<Rightarrow> Coins res" where
  "GetVestingCoins (ContinuousAcc c) t = Continuous_GetVestingCoins c t"
| "GetVestingCoins (PeriodicAcc p) t = Periodic_GetVestingCoins p t"
| "GetVestingCoins (DelayedAcc d) t = Delayed_GetVestingCoins d t"
| "GetVestingCoins (PermanentLockedAcc p) t = PermanentLocked_GetVestingCoins p t"
| "GetVestingCoins _ t = Inr []"

fun Account_LockedCoins :: "AccountI \<Rightarrow> int64 \<Rightarrow> Coins res" where
  "Account_LockedCoins (ContinuousAcc c) t = Continuous_LockedCoins c t"
| "Account_LockedCoins (PeriodicAcc p) t = Periodic_LockedCoins p t"
| "Account_LockedCoins (DelayedAcc d) t = Delayed_LockedCoins d t"
| "Account_LockedCoins (PermanentLockedAcc p) t = PermanentLocked_LockedCoins p t"
| "Account_LockedCoins _ t = Inr []"

fun Account_TrackDelegation :: "AccountI \<Rightarrow> int64 \<Rightarrow> Coins \<Rightarrow> Coins \<Rightarrow> AccountI res" where
  "Account_TrackDelegation (ContinuousAcc c) t balance amount =
     bind_r (Continuous_TrackDelegation c t balance amount) (\<lambda>a. Inr (ContinuousAcc a))"
| "Account_TrackDelegation (PeriodicAcc p) t balance amount =
     bind_r (Periodic_TrackDelegation p t balance amount) (\<lambda>a. Inr (PeriodicAcc a))"
| "Account_TrackDelegation (DelayedAcc d) t balance amount =
     bind_r (Delayed_TrackDelegation d t balance amount) (\<lambda>a. Inr (DelayedAcc a))"
| "Account_TrackDelegation (PermanentLockedAcc p) t balance amount =
     bind_r (PermanentLocked_TrackDelegation p t balance amount) (\<lambda>a. Inr (PermanentLockedAcc a))"
| "Account_TrackDelegation acc t balance amount = Inr acc"

fun Account_TrackUndelegation :: "AccountI \<Rightarrow> Coins \<Rightarrow> AccountI res" where
  "Account_TrackUndelegation (ContinuousAcc c) amount =
     bind_r (Base_TrackUndelegation (cva_bva c) amount) (\<lambda>b. Inr (ContinuousAcc (c\<lparr>cva_bva := b\<rparr>)))"
| "Account_TrackUndelegation (PeriodicAcc p) amount =
     bind_r (Base_TrackUndelegation (pva_bva p) amount) (\<lambda>b. Inr (PeriodicAcc (p\<lparr>pva_bva := b\<rparr>)))"
| "Account_TrackUndelegation (DelayedAcc d) amount =
     bind_r (Base_TrackUndelegation (dva_bva d) amount) (\<lambda>b. Inr (DelayedAcc (d\<lparr>dva_bva := b\<rparr>)))"
| "Account_TrackUndelegation (PermanentLockedAcc p) amount =
     bind_r (Base_TrackUndelegation (plva_bva p) amount) (\<lambda>b. Inr (PermanentLockedAcc (p\<lparr>plva_bva := b\<rparr>)))"
| "Account_TrackUndelegation acc amount = Inr acc"

end
