(* ===== verification/Vesting.thy ===== *)
theory Vesting
  imports Accounts
begin

text \<open>
  Correctness of the vesting schedules of \<open>Accounts\<close>. The locale \<open>vesting_schedule\<close> is what
  the interface \<open>VestingAccount\<close> promises; its lemmas give the coins still vesting and the
  coins that are locked, and it is interpreted on the four kinds of vesting accounts.
\<close>

section \<open>Coin sets\<close>

abbreviation good :: "Coins \<Rightarrow> bool" where
  "good cs \<equiv> valid_coins cs \<and> wf_coins cs"

text \<open>A set that may have zero coins, as \<open>GetVestedCoins\<close> returns it.\<close>

definition sane_coins :: "Coins \<Rightarrow> bool" where
  "sane_coins cs \<longleftrightarrow> strict_denoms Denom cs
     \<and> (\<forall>c\<in>set cs. 0 \<le> Amount c \<and> wf_Int (Amount c) \<and> reDnm_MatchString (Denom c))"

lemma good_sane: "good cs \<Longrightarrow> sane_coins cs"
  by (auto simp: sane_coins_def valid_coins_def wf_coins_def)

lemma NewCoins_sane:
  assumes "sane_coins v"
  shows "\<exists>b. NewCoins v = Inr b \<and> good b \<and> amt b = amt v"
proof -
  let ?f = "filter (\<lambda>c. Amount c \<noteq> 0) v"
  have st: "strict_denoms Denom ?f" using assms strict_denoms_filter by (auto simp: sane_coins_def)
  then have "sanitizeCoins v = ?f" by (simp add: sanitizeCoins_eq sort_key_strict)
  moreover have "good ?f" using assms st by (auto simp: sane_coins_def valid_coins_def wf_coins_def less_le)
  ultimately show ?thesis using amt_sanitizeCoins[of v] by (auto simp: NewCoins_Inr)
qed

lemma Coins_Sub_good:
  assumes "good a" and "good b" and "\<And>d. amt b d \<le> amt a d"
  shows "\<exists>r. Coins_Sub a b = Inr r \<and> good r \<and> (\<forall>d. amt r d = amt a d - amt b d)"
  using Coins_SafeSub_valid[of a b] assms by (auto simp: Coins_Sub_def not_less dest: leD)

lemma Coins_Sub_sane:
  assumes "good a" and "sane_coins v" and "\<And>d. amt v d \<le> amt a d"
  shows "\<exists>r. Coins_Sub a v = Inr r \<and> good r \<and> (\<forall>d. amt r d = amt a d - amt v d)"
proof -
  obtain b where b: "NewCoins v = Inr b" "good b" "amt b = amt v" using NewCoins_sane[OF assms(2)] by blast
  then have "Coins_Sub a v = Coins_Sub a b" by (simp add: Coins_Sub_def Coins_SafeSub_def NewCoins_valid)
  with Coins_Sub_good[OF assms(1) b(2)] b(3) assms(3) show ?thesis by simp
qed

lemma good_coin: "reDnm_MatchString d \<Longrightarrow> 0 < x \<Longrightarrow> wf_Int x \<Longrightarrow> good [coin d x]"
  by (simp add: valid_coins_def wf_coins_def)

lemma wf_Int_le: "0 \<le> x \<Longrightarrow> x \<le> y \<Longrightarrow> wf_Int y \<Longrightarrow> wf_Int x"
  by (simp add: wf_Int_def)

lemma good_amt: "good cs \<Longrightarrow> 0 \<le> amt cs d \<and> wf_Int (amt cs d)"
  using valid_coins_nonneg wf_coins_amt valid_wf_strict(1) by blast

lemma Min_good: "good a \<Longrightarrow> good b \<Longrightarrow> \<exists>m. Coins_Min a b = Inr m \<and> good m \<and> (\<forall>d. amt m d = min (amt a d) (amt b d))"
proof -
  assume g: "good a" "good b"
  have "wf_coins (Coins_Min_loop a b)" using Coins_Min_loop_set[of a b] g by (auto simp: wf_coins_def)
  then show ?thesis using Coins_Min_loop_facts[of a b] g by (simp add: Coins_Min_def NewCoins_valid)
qed

lemma LockedCoinsFromVesting_exact:
  assumes "good v" and "good (DelegatedVesting bva)"
  shows "\<exists>l. LockedCoinsFromVesting bva v = Inr l \<and> good l
    \<and> (\<forall>d. amt l d = max 0 (amt v d - amt (DelegatedVesting bva) d))"
proof -
  obtain m where m: "Coins_Min v (DelegatedVesting bva) = Inr m" "good m"
    "\<And>d. amt m d = min (amt v d) (amt (DelegatedVesting bva) d)" using Min_good[OF assms] by blast
  then obtain l where "Coins_Sub v m = Inr l" "good l" "\<And>d. amt l d = amt v d - amt m d"
    using Coins_Sub_good[OF assms(1) m(2)] by auto
  then show ?thesis using m by (auto simp: LockedCoinsFromVesting_def)
qed

section \<open>The contract of a schedule\<close>

locale vesting_schedule =
  fixes vested :: "'a \<Rightarrow> int64 \<Rightarrow> Coins res"
    and bva :: "'a \<Rightarrow> BaseVestingAccount"
    and ok :: "'a \<Rightarrow> bool"
  assumes original_good: "ok a \<Longrightarrow> good (OriginalVesting (bva a))"
    and vested_le: "ok a \<Longrightarrow> \<exists>v. vested a t = Inr v \<and> sane_coins v
      \<and> (\<forall>d. amt v d \<le> amt (OriginalVesting (bva a)) d)"
    and vested_mono: "ok a \<Longrightarrow> sint t \<le> sint t' \<Longrightarrow> vested a t = Inr v \<Longrightarrow> vested a t' = Inr v' \<Longrightarrow>
      amt v d \<le> amt v' d"
begin

definition vesting :: "'a \<Rightarrow> int64 \<Rightarrow> Coins res" where
  "vesting a t = bind_r (vested a t) (\<lambda>v. Coins_Sub (OriginalVesting (bva a)) v)"

definition locked :: "'a \<Rightarrow> int64 \<Rightarrow> Coins res" where
  "locked a t = bind_r (vesting a t) (\<lambda>v. LockedCoinsFromVesting (bva a) v)"

lemma vesting_total:
  assumes "ok a"
  shows "\<exists>r. vesting a t = Inr r \<and> good r \<and> (\<forall>d. amt r d \<le> amt (OriginalVesting (bva a)) d)
    \<and> (\<forall>v. vested a t = Inr v \<longrightarrow> (\<forall>d. amt v d + amt r d = amt (OriginalVesting (bva a)) d))"
proof -
  obtain v where v: "vested a t = Inr v" "sane_coins v" "\<And>d. amt v d \<le> amt (OriginalVesting (bva a)) d"
    using vested_le[OF assms] by blast
  have "0 \<le> amt v d" for d using v(2) by (intro total_of_nonneg) (auto simp: sane_coins_def)
  with Coins_Sub_sane[OF original_good[OF assms] v(2,3)] v(1) show ?thesis by (auto simp: vesting_def)
qed

lemma vesting_antimono:
  assumes "ok a" and "sint t \<le> sint t'" and "vesting a t = Inr r" and "vesting a t' = Inr r'"
  shows "amt r' d \<le> amt r d"
proof -
  obtain v v' where v: "vested a t = Inr v" "vested a t' = Inr v'"
    using vested_le[OF assms(1), of t] vested_le[OF assms(1), of t'] by blast
  have "amt v d + amt r d = amt (OriginalVesting (bva a)) d" "amt v' d + amt r' d = amt (OriginalVesting (bva a)) d"
    using vesting_total[OF assms(1), of t] vesting_total[OF assms(1), of t'] v assms(3,4) by auto
  with vested_mono[OF assms(1,2) v] show ?thesis by (smt (verit))
qed

lemma locked_exact:
  assumes "ok a" and "good (DelegatedVesting (bva a))" and "vesting a t = Inr r"
  shows "\<exists>l. locked a t = Inr l \<and> good l \<and> (\<forall>d. amt l d = max 0 (amt r d - amt (DelegatedVesting (bva a)) d))"
  using vesting_total[OF assms(1), of t] LockedCoinsFromVesting_exact[OF _ assms(2), of r] assms(3)
  by (auto simp: locked_def)

end

section \<open>Delayed and permanently locked accounts\<close>

definition delayed_ok :: "DelayedVestingAccount \<Rightarrow> bool" where
  "delayed_ok d \<longleftrightarrow> good (OriginalVesting (dva_bva d))"

definition permanent_ok :: "PermanentLockedAccount \<Rightarrow> bool" where
  "permanent_ok p \<longleftrightarrow> good (OriginalVesting (plva_bva p))"

lemma sane_Nil [simp]: "sane_coins []"
  by (simp add: sane_coins_def)

interpretation delayed: vesting_schedule Delayed_GetVestedCoins dva_bva delayed_ok
  by unfold_locales
    (auto simp: delayed_ok_def Delayed_GetVestedCoins_def good_sane good_amt split: if_splits)

interpretation permanent: vesting_schedule PermanentLocked_GetVestedCoins plva_bva permanent_ok
  by unfold_locales (auto simp: permanent_ok_def PermanentLocked_GetVestedCoins_def good_amt)

section \<open>Continuous accounts\<close>

lemma chop_mult: "chopPrecisionAndRound (k * precisionReuse) = k"
  using chopPrecisionAndRound_iff[of "k * precisionReuse" k] by (simp add: half_even_def)

lemma chop_mono: "d \<le> d' \<Longrightarrow> chopPrecisionAndRound d \<le> chopPrecisionAndRound d'"
proof (rule ccontr)
  assume le: "d \<le> d'" and "\<not> chopPrecisionAndRound d \<le> chopPrecisionAndRound d'"
  then have lt: "chopPrecisionAndRound d' + 1 \<le> chopPrecisionAndRound d" by simp
  have "(chopPrecisionAndRound d' + 1) * precisionReuse \<le> chopPrecisionAndRound d * precisionReuse"
    using lt by (intro mult_right_mono) simp_all
  moreover have "2 * \<bar>d - chopPrecisionAndRound d * precisionReuse\<bar> \<le> precisionReuse"
    "2 * \<bar>d' - chopPrecisionAndRound d' * precisionReuse\<bar> \<le> precisionReuse"
    using chop_round_error by blast+
  ultimately have "d = d'" using le unfolding distrib_right by (smt (verit))
  then show False using lt by simp
qed

lemma chop_zero [simp]: "chopPrecisionAndRound 0 = 0"
  using chop_mult[of 0] by simp

lemma chop_between: "0 \<le> d \<Longrightarrow> d \<le> k * precisionReuse \<Longrightarrow> 0 \<le> chopPrecisionAndRound d \<and> chopPrecisionAndRound d \<le> k"
  using chop_mono[of 0 d] chop_mono[of d "k * precisionReuse"] by (simp add: chop_mult)

lemma LegacyNewDec_eq: "LegacyNewDec i = Inr (sint i * precisionReuse)"
  by (simp add: LegacyNewDec_def LegacyNewDecWithPrec_def precisionMultiplier_eq precisionReuse_def LegacyPrecision_def)

definition scalar :: "int \<Rightarrow> int \<Rightarrow> int" where
  "scalar x y = chopPrecisionAndRound (x * (precisionReuse * precisionReuse) div y)"

lemma scalar_bounds:
  assumes "0 \<le> x" and "x \<le> y" and "0 < y"
  shows "0 \<le> scalar x y" and "scalar x y \<le> precisionReuse"
proof -
  have "x * (precisionReuse * precisionReuse) \<le> y * (precisionReuse * precisionReuse)"
    using assms(2) by (intro mult_right_mono) simp_all
  then have "x * (precisionReuse * precisionReuse) div y \<le> precisionReuse * precisionReuse"
    using assms(3) zdiv_mono1[of "x * (precisionReuse * precisionReuse)" "y * (precisionReuse * precisionReuse)" y] by simp
  moreover have "0 \<le> x * (precisionReuse * precisionReuse) div y" using assms by (simp add: pos_imp_zdiv_nonneg_iff)
  ultimately show "0 \<le> scalar x y" "scalar x y \<le> precisionReuse" unfolding scalar_def using chop_between by blast+
qed

lemma scalar_mono: "x \<le> x' \<Longrightarrow> 0 < y \<Longrightarrow> scalar x y \<le> scalar x' y"
  unfolding scalar_def by (intro chop_mono zdiv_mono1 mult_right_mono) simp_all

lemma vesting_scalar_eq:
  assumes "0 \<le> sint x" and "sint x \<le> sint y" and "0 < sint y"
  shows "vesting_scalar x y = Inr (scalar (sint x) (sint y))"
proof -
  let ?P = precisionReuse
  have "sint x * ?P * squaredPrecisionReuse = sint x * (?P * ?P) * ?P"
    by (simp add: squaredPrecisionReuse_def)
  then have "sint x * ?P * squaredPrecisionReuse div (sint y * ?P) = sint x * (?P * ?P) div sint y"
    by (simp only: div_mult_mult2[OF precisionReuse_pos(2)])
  then have "big_Quo (sint x * ?P * squaredPrecisionReuse) (sint y * ?P) = sint x * (?P * ?P) div sint y"
    using assms by (subst big_Quo_nonneg) (simp_all add: squaredPrecisionReuse_def)
  moreover have "wf_Dec (scalar (sint x) (sint y))"
    using scalar_bounds[OF assms] by (simp add: wf_Dec_def maxDecBitLen_val precisionReuse_val)
  ultimately show ?thesis using assms
    by (simp add: vesting_scalar_def LegacyNewDec_eq Dec_Quo_def big_Quo_r_def Dec_check_cases scalar_def)
qed

lemma vested_coin_eq:
  assumes "0 \<le> s" and "s \<le> precisionReuse" and "0 \<le> Amount c" and "Amount c < 2 ^ 255" and "reDnm_MatchString (Denom c)"
  shows "vested_coin s c = Inr (coin (Denom c) (chopPrecisionAndRound (Amount c * s)))"
    and "0 \<le> chopPrecisionAndRound (Amount c * s) \<and> chopPrecisionAndRound (Amount c * s) \<le> Amount c"
proof -
  have le: "Amount c * s \<le> Amount c * precisionReuse" "0 \<le> Amount c * s" using assms by (simp_all add: mult_left_mono)
  then show b: "0 \<le> chopPrecisionAndRound (Amount c * s) \<and> chopPrecisionAndRound (Amount c * s) \<le> Amount c"
    using chop_between by blast
  have "Amount c * s < 2 ^ 255 * 2 ^ 60" using le assms(3,4) by (simp add: precisionReuse_val)
  then have "wf_Dec (Amount c * s)" using le(2) by (simp add: wf_Dec_def maxDecBitLen_val)
  moreover have "Amount c * precisionReuse * s = Amount c * s * precisionReuse" by simp
  then have "chopPrecisionAndRound (Amount c * precisionReuse * s) = Amount c * s" by (simp only: chop_mult)
  moreover have "wf_Int (chopPrecisionAndRound (Amount c * s))"
    using b assms(4) by (simp add: wf_Int_def MaxBitLen_def)
  ultimately show "vested_coin s c = Inr (coin (Denom c) (chopPrecisionAndRound (Amount c * s)))"
    using b assms(5) by (simp add: vested_coin_def Dec_Mul_def Dec_check_cases Dec_RoundInt_def NewIntFromBigInt_def
        NewCoin_def Let_def BitLen_gt wf_Int_def Coin_Validate_def ValidateDenom_def)
qed

lemma sint64_range: "- (2 ^ 63) \<le> sint (a :: int64)" "sint (a :: int64) < 2 ^ 63"
  using sint_ge[of a] sint_lt[of a] by simp_all

lemma sint_diff64: "0 \<le> sint a \<Longrightarrow> 0 \<le> sint b \<Longrightarrow> sint (b - a) = sint b - sint a" for a b :: int64
  using sint64_range[of a] sint64_range[of b] by (subst sint_word_diff) (simp add: signed_take_bit_int_eq_self)

lemma sint_add64: "0 \<le> sint a \<Longrightarrow> 0 \<le> sint b \<Longrightarrow> sint a + sint b < 2 ^ 63 \<Longrightarrow> sint (a + b) = sint a + sint b"
  for a b :: int64
  by (subst sint_word_add) (simp add: signed_take_bit_int_eq_self)

definition continuous_ok :: "ContinuousVestingAccount \<Rightarrow> bool" where
  "continuous_ok c \<longleftrightarrow> good (OriginalVesting (cva_bva c)) \<and> (\<forall>x\<in>set (OriginalVesting (cva_bva c)). Amount x < 2 ^ 255)
     \<and> 0 \<le> sint (cva_StartTime c)"

lemma amt_map_coin:
  "strict_denoms Denom cs \<Longrightarrow> f 0 = 0 \<Longrightarrow> amt (map (\<lambda>c. coin (Denom c) (f (Amount c))) cs) d = f (amt cs d)"
proof (induction cs)
  case (Cons c cs)
  then have "Denom c = d \<Longrightarrow> amt cs d = 0" by (intro total_of_notin) auto
  with Cons show ?case by auto
qed simp

lemma continuous_running:
  assumes ok: "continuous_ok c" and t: "sint (cva_StartTime c) < sint t" "sint t < sint (EndTime (cva_bva c))"
  defines "s \<equiv> scalar (sint t - sint (cva_StartTime c)) (sint (EndTime (cva_bva c)) - sint (cva_StartTime c))"
  shows "\<exists>v. Continuous_GetVestedCoins c t = Inr v \<and> sane_coins v
    \<and> (\<forall>d. amt v d = chopPrecisionAndRound (amt (OriginalVesting (cva_bva c)) d * s))"
proof -
  let ?ov = "OriginalVesting (cva_bva c)"
  let ?v = "map (\<lambda>x. coin (Denom x) (chopPrecisionAndRound (Amount x * s))) ?ov"
  have x: "sint (t - cva_StartTime c) = sint t - sint (cva_StartTime c)"
    "sint (EndTime (cva_bva c) - cva_StartTime c) = sint (EndTime (cva_bva c)) - sint (cva_StartTime c)"
    using ok t by (simp_all add: continuous_ok_def sint_diff64)
  have s: "vesting_scalar (t - cva_StartTime c) (EndTime (cva_bva c) - cva_StartTime c) = Inr s"
    using t x by (simp add: vesting_scalar_eq s_def)
  have sb: "0 \<le> s" "s \<le> precisionReuse" unfolding s_def using t by (simp_all add: scalar_bounds)
  have c: "0 \<le> Amount x \<and> Amount x < 2 ^ 255 \<and> reDnm_MatchString (Denom x)" if "x \<in> set ?ov" for x
    using ok that by (auto simp: continuous_ok_def valid_coins_def less_imp_le)
  have "map_r (vested_coin s) ?ov = Inr ?v"
    using c sb by (intro map_r_total) (auto intro: vested_coin_eq(1))
  then have "Continuous_GetVestedCoins c t = Inr ?v" using t s by (simp add: Continuous_GetVestedCoins_def Let_def)
  moreover have st: "strict_denoms Denom ?ov" using ok by (simp add: continuous_ok_def valid_coins_def)
  moreover have "sane_coins ?v"
  proof -
    have "strict_denoms Denom ?v" using st by (subst strict_denoms_map) simp_all
    moreover have "0 \<le> chopPrecisionAndRound (Amount x * s) \<and> wf_Int (chopPrecisionAndRound (Amount x * s))"
      if "x \<in> set ?ov" for x
      using vested_coin_eq(2)[OF sb, of x] c[OF that] by (simp add: wf_Int_def MaxBitLen_def)
    ultimately show ?thesis using c by (auto simp: sane_coins_def)
  qed
  moreover have "amt ?v d = chopPrecisionAndRound (amt ?ov d * s)" for d
    using amt_map_coin[OF st, of "\<lambda>a. chopPrecisionAndRound (a * s)"] by simp
  ultimately show ?thesis by blast
qed

lemma continuous_vested:
  assumes ok: "continuous_ok c" and v: "Continuous_GetVestedCoins c t = Inr v"
  shows "amt v d = chopPrecisionAndRound (amt (OriginalVesting (cva_bva c)) d *
      (if sint t \<le> sint (cva_StartTime c) then 0
       else if sint (EndTime (cva_bva c)) \<le> sint t then precisionReuse
       else scalar (sint t - sint (cva_StartTime c)) (sint (EndTime (cva_bva c)) - sint (cva_StartTime c))))"
  using v continuous_running[OF ok, of t] by (auto simp: Continuous_GetVestedCoins_def chop_mult split: if_splits)

interpretation continuous: vesting_schedule Continuous_GetVestedCoins cva_bva continuous_ok
proof unfold_locales
  fix c t
  assume ok: "continuous_ok c"
  then show g: "good (OriginalVesting (cva_bva c))" by (simp add: continuous_ok_def)
  show "\<exists>v. Continuous_GetVestedCoins c t = Inr v \<and> sane_coins v
      \<and> (\<forall>d. amt v d \<le> amt (OriginalVesting (cva_bva c)) d)"
  proof (cases "sint (cva_StartTime c) < sint t \<and> sint t < sint (EndTime (cva_bva c))")
    case True
    let ?s = "scalar (sint t - sint (cva_StartTime c)) (sint (EndTime (cva_bva c)) - sint (cva_StartTime c))"
    have "0 \<le> ?s" "?s \<le> precisionReuse" using True by (simp_all add: scalar_bounds)
    then have "chopPrecisionAndRound (amt (OriginalVesting (cva_bva c)) d * ?s) \<le> amt (OriginalVesting (cva_bva c)) d" for d
      using good_amt[OF g, of d] by (intro chop_between[THEN conjunct2]) (simp_all add: mult_left_mono)
    with continuous_running[OF ok, of t] True show ?thesis by metis
  next
    case False
    then show ?thesis using g good_amt[OF g] good_sane[OF g] by (auto simp: Continuous_GetVestedCoins_def)
  qed
next
  fix c t t' v v' d
  assume ok: "continuous_ok c" and le: "sint t \<le> sint t'"
    and v: "Continuous_GetVestedCoins c t = Inr v" "Continuous_GetVestedCoins c t' = Inr v'"
  let ?y = "sint (EndTime (cva_bva c)) - sint (cva_StartTime c)"
  have "0 < ?y \<Longrightarrow> scalar (sint t - sint (cva_StartTime c)) ?y \<le> scalar (sint t' - sint (cva_StartTime c)) ?y"
    "sint (cva_StartTime c) < sint t \<Longrightarrow> sint t < sint (EndTime (cva_bva c)) \<Longrightarrow>
      scalar (sint t - sint (cva_StartTime c)) ?y \<le> precisionReuse"
    "sint (cva_StartTime c) < sint t' \<Longrightarrow> sint t' < sint (EndTime (cva_bva c)) \<Longrightarrow>
      0 \<le> scalar (sint t' - sint (cva_StartTime c)) ?y"
    using ok le by (simp_all add: continuous_ok_def scalar_mono scalar_bounds)
  moreover have "0 \<le> amt (OriginalVesting (cva_bva c)) d" using ok good_amt by (auto simp: continuous_ok_def)
  ultimately show "amt v d \<le> amt v' d"
    using le unfolding continuous_vested[OF ok v(1)] continuous_vested[OF ok v(2)]
    by (intro chop_mono mult_left_mono) (auto split: if_splits)
qed

section \<open>Periodic accounts\<close>

definition periodic_ok :: "PeriodicVestingAccount \<Rightarrow> bool" where
  "periodic_ok p \<longleftrightarrow> good (OriginalVesting (pva_bva p)) \<and> 0 \<le> sint (pva_StartTime p)
     \<and> (\<forall>x\<in>set (VestingPeriods p). good (period_Amount x) \<and> 0 \<le> sint (Length x))
     \<and> sint (pva_StartTime p) + sum_list (map (sint \<circ> Length) (VestingPeriods p)) = sint (EndTime (pva_bva p))
     \<and> (\<forall>d. sum_list (map (\<lambda>x. amt (period_Amount x) d) (VestingPeriods p)) = amt (OriginalVesting (pva_bva p)) d)"

text \<open>The reference: the amounts of the periods that are over at time \<open>t\<close>.\<close>

fun vested_at :: "int \<Rightarrow> int \<Rightarrow> Period list \<Rightarrow> string \<Rightarrow> int" where
  "vested_at t c [] d = 0"
| "vested_at t c (p # ps) d =
     (if t - c < sint (Length p) then 0 else amt (period_Amount p) d + vested_at t (c + sint (Length p)) ps d)"

lemma vested_at_bounds:
  "\<forall>x\<in>set ps. good (period_Amount x) \<Longrightarrow>
     0 \<le> vested_at t c ps d \<and> vested_at t c ps d \<le> sum_list (map (\<lambda>x. amt (period_Amount x) d) ps)"
proof (induction ps arbitrary: c)
  case (Cons p ps)
  have "0 \<le> amt (period_Amount p) d" using Cons.prems good_amt by simp
  moreover have "0 \<le> sum_list (map (\<lambda>x. amt (period_Amount x) d) ps)"
    using Cons.prems good_amt by (intro sum_list_nonneg) auto
  ultimately show ?case using Cons by (auto simp: add_increasing)
qed simp

lemma vested_at_mono:
  "\<forall>x\<in>set ps. good (period_Amount x) \<Longrightarrow> t \<le> t' \<Longrightarrow> vested_at t c ps d \<le> vested_at t' c ps d"
proof (induction ps arbitrary: c)
  case (Cons p ps)
  have "0 \<le> amt (period_Amount p) d" using Cons.prems good_amt by simp
  then show ?case using Cons vested_at_bounds[of ps t' "c + sint (Length p)" d] by auto
qed simp

lemma periods_vested_eq:
  assumes "\<forall>x\<in>set ps. good (period_Amount x) \<and> 0 \<le> sint (Length x)" and "good acc" and "0 \<le> sint cur" and "0 \<le> sint t"
    and "sint cur + sum_list (map (sint \<circ> Length) ps) < 2 ^ 63"
    and "\<forall>d. wf_Int (amt acc d + sum_list (map (\<lambda>x. amt (period_Amount x) d) ps))"
  shows "\<exists>v. periods_vested t cur acc ps = Inr v \<and> good v \<and> (\<forall>d. amt v d = amt acc d + vested_at (sint t) (sint cur) ps d)"
  using assms
proof (induction ps arbitrary: cur acc)
  case (Cons p ps)
  have p: "good (period_Amount p)" "0 \<le> sint (Length p)" "0 \<le> sint cur" "0 \<le> sint t" using Cons.prems by simp_all
  have nn: "0 \<le> sum_list (map (sint \<circ> Length) ps)" "\<And>d. 0 \<le> sum_list (map (\<lambda>x. amt (period_Amount x) d) ps)"
    using Cons.prems(1) good_amt by (auto intro!: sum_list_nonneg)
  have x: "sint (t - cur) = sint t - sint cur" using p by (simp add: sint_diff64)
  show ?case
  proof (cases "sint t - sint cur < sint (Length p)")
    case True
    then show ?thesis using Cons.prems(2) x by simp
  next
    case False
    have cur: "sint (cur + Length p) = sint cur + sint (Length p)" 
    proof (rule sint_add64)
      show "sint cur + sint (Length p) < 2 ^ 63" using nn(1) Cons.prems(5) by (simp add: comp_def)
    qed (use p in simp_all)
    have fits: "wf_Int (amt acc d + amt (period_Amount p) d)" for d
    proof (rule wf_Int_le)
      have "wf_Int (amt acc d + sum_list (map (\<lambda>x. amt (period_Amount x) d) (p # ps)))" using Cons.prems(6) by blast
      then show "wf_Int (amt acc d + (amt (period_Amount p) d + sum_list (map (\<lambda>x. amt (period_Amount x) d) ps)))" by simp
      show "0 \<le> amt acc d + amt (period_Amount p) d" using good_amt[OF p(1), of d] good_amt[OF Cons.prems(2), of d] by simp
    qed (use nn(2)[of d] in simp)
    obtain v where v: "Coins_Add acc (period_Amount p) = Inr v" "good v"
      "\<And>d. amt v d = amt acc d + amt (period_Amount p) d"
      using Coins_Add_valid[of acc "period_Amount p"] Cons.prems(2) p(1) fits by auto
    obtain r where r: "periods_vested t (cur + Length p) v ps = Inr r" "good r"
      "\<forall>d. amt r d = amt v d + vested_at (sint t) (sint (cur + Length p)) ps d"
      using Cons.IH[of v "cur + Length p"] Cons.prems p v(2,3) cur by (auto simp: add.assoc)
    show ?thesis using False x v r cur by (auto simp: Let_def)
  qed
qed simp

lemma periodic_vested:
  assumes ok: "periodic_ok p" and t: "sint (pva_StartTime p) < sint t" "sint t < sint (EndTime (pva_bva p))"
  shows "\<exists>v. Periodic_GetVestedCoins p t = Inr v \<and> good v
    \<and> (\<forall>d. amt v d = vested_at (sint t) (sint (pva_StartTime p)) (VestingPeriods p) d)"
proof -
  have "wf_Int (amt (OriginalVesting (pva_bva p)) d)" for d using ok good_amt by (auto simp: periodic_ok_def)
  then have "\<exists>v. periods_vested t (pva_StartTime p) [] (VestingPeriods p) = Inr v \<and> good v
      \<and> (\<forall>d. amt v d = amt [] d + vested_at (sint t) (sint (pva_StartTime p)) (VestingPeriods p) d)"
    using ok t sint64_range[of "EndTime (pva_bva p)"]
    by (intro periods_vested_eq) (auto simp: periodic_ok_def valid_coins_def wf_coins_def)
  then show ?thesis using t by (simp add: Periodic_GetVestedCoins_def)
qed

lemma periodic_amt:
  assumes ok: "periodic_ok p" and v: "Periodic_GetVestedCoins p t = Inr v"
  shows "amt v d =
      (if sint t \<le> sint (pva_StartTime p) then 0
       else if sint (EndTime (pva_bva p)) \<le> sint t then amt (OriginalVesting (pva_bva p)) d
       else vested_at (sint t) (sint (pva_StartTime p)) (VestingPeriods p) d)"
  using v periodic_vested[OF ok, of t] by (auto simp: Periodic_GetVestedCoins_def split: if_splits)

lemma periodic_bounds:
  assumes "periodic_ok p"
  shows "0 \<le> vested_at t c (VestingPeriods p) d \<and> vested_at t c (VestingPeriods p) d \<le> amt (OriginalVesting (pva_bva p)) d"
  using vested_at_bounds[of "VestingPeriods p" t c d] assms by (simp add: periodic_ok_def)

interpretation periodic: vesting_schedule Periodic_GetVestedCoins pva_bva periodic_ok
proof unfold_locales
  fix p t
  assume ok: "periodic_ok p"
  then show g: "good (OriginalVesting (pva_bva p))" by (simp add: periodic_ok_def)
  show "\<exists>v. Periodic_GetVestedCoins p t = Inr v \<and> sane_coins v
      \<and> (\<forall>d. amt v d \<le> amt (OriginalVesting (pva_bva p)) d)"
  proof (cases "sint (pva_StartTime p) < sint t \<and> sint t < sint (EndTime (pva_bva p))")
    case True
    then show ?thesis using periodic_vested[OF ok, of t] periodic_bounds[OF ok] good_sane by metis
  next
    case False
    then show ?thesis using g good_amt[OF g] good_sane[OF g] by (auto simp: Periodic_GetVestedCoins_def)
  qed
next
  fix p t t' v v' d
  assume ok: "periodic_ok p" and le: "sint t \<le> sint t'"
    and v: "Periodic_GetVestedCoins p t = Inr v" "Periodic_GetVestedCoins p t' = Inr v'"
  have "vested_at (sint t) (sint (pva_StartTime p)) (VestingPeriods p) d
      \<le> vested_at (sint t') (sint (pva_StartTime p)) (VestingPeriods p) d"
    using ok le by (intro vested_at_mono) (auto simp: periodic_ok_def)
  moreover have "0 \<le> amt (OriginalVesting (pva_bva p)) d" using ok good_amt by (auto simp: periodic_ok_def)
  ultimately show "amt v d \<le> amt v' d"
    using le periodic_bounds[OF ok] unfolding periodic_amt[OF ok v(1)] periodic_amt[OF ok v(2)] by auto
qed

section \<open>All vesting accounts\<close>

fun schedule_ok :: "AccountI \<Rightarrow> bool" where
  "schedule_ok (ContinuousAcc c) = continuous_ok c"
| "schedule_ok (PeriodicAcc p) = periodic_ok p"
| "schedule_ok (DelayedAcc d) = delayed_ok d"
| "schedule_ok (PermanentLockedAcc p) = permanent_ok p"
| "schedule_ok _ = True"

definition account_ok :: "AccountI \<Rightarrow> bool" where
  "account_ok acc \<longleftrightarrow> schedule_ok acc \<and> (\<forall>b. vesting_of acc = Some b \<longrightarrow> good (DelegatedVesting b) \<and> good (DelegatedFree b))"

lemma vesting_eqs:
  "Continuous_GetVestingCoins c t = continuous.vesting c t" "Continuous_LockedCoins c t = continuous.locked c t"
  "Periodic_GetVestingCoins p t = periodic.vesting p t" "Periodic_LockedCoins p t = periodic.locked p t"
  "Delayed_GetVestingCoins d t = delayed.vesting d t" "Delayed_LockedCoins d t = delayed.locked d t"
  by (simp_all add: Continuous_GetVestingCoins_def continuous.vesting_def Continuous_LockedCoins_def continuous.locked_def
      Periodic_GetVestingCoins_def periodic.vesting_def Periodic_LockedCoins_def periodic.locked_def
      Delayed_GetVestingCoins_def delayed.vesting_def Delayed_LockedCoins_def delayed.locked_def)

lemma permanent_eqs:
  assumes "permanent_ok p"
  shows "PermanentLocked_GetVestingCoins p t = permanent.vesting p t" "PermanentLocked_LockedCoins p t = permanent.locked p t"
proof -
  have "\<exists>r. Coins_Sub (OriginalVesting (plva_bva p)) [] = Inr r \<and> good r \<and>
      (\<forall>d. amt r d = amt (OriginalVesting (plva_bva p)) d - amt [] d)"
    using assms good_amt by (intro Coins_Sub_sane) (auto simp: permanent_ok_def)
  then obtain r where r: "Coins_Sub (OriginalVesting (plva_bva p)) [] = Inr r" "good r"
    "amt r = amt (OriginalVesting (plva_bva p))" by auto
  then have "r = OriginalVesting (plva_bva p)"
    using assms normal_coins_ext valid_coins_normal by (auto simp: permanent_ok_def)
  with r(1) show "PermanentLocked_GetVestingCoins p t = permanent.vesting p t"
    "PermanentLocked_LockedCoins p t = permanent.locked p t"
    by (simp_all add: PermanentLocked_GetVestingCoins_def PermanentLocked_LockedCoins_def permanent.vesting_def
        permanent.locked_def PermanentLocked_GetVestedCoins_def)
qed

lemma account_vesting:
  assumes "account_ok acc" and "vesting_of acc = Some b"
  shows "\<exists>v l. GetVestingCoins acc t = Inr v \<and> Account_LockedCoins acc t = Inr l \<and> good v \<and> good l
    \<and> (\<forall>d. amt v d \<le> amt (OriginalVesting b) d \<and> amt l d = max 0 (amt v d - amt (DelegatedVesting b) d))"
proof (cases acc)
  case (ContinuousAcc c)
  then show ?thesis using assms continuous.vesting_total[of c t] continuous.locked_exact[of c t]
    by (fastforce simp: account_ok_def vesting_eqs)
next
  case (PeriodicAcc p)
  then show ?thesis using assms periodic.vesting_total[of p t] periodic.locked_exact[of p t]
    by (fastforce simp: account_ok_def vesting_eqs)
next
  case (DelayedAcc d)
  then show ?thesis using assms delayed.vesting_total[of d t] delayed.locked_exact[of d t]
    by (fastforce simp: account_ok_def vesting_eqs)
next
  case (PermanentLockedAcc p)
  then show ?thesis using assms permanent.vesting_total[of p t] permanent.locked_exact[of p t]
    by (fastforce simp: account_ok_def permanent_eqs)
qed (use assms in simp_all)

lemma account_vesting_antimono:
  assumes "account_ok acc" and "sint t \<le> sint t'" and "GetVestingCoins acc t = Inr v" and "GetVestingCoins acc t' = Inr v'"
  shows "amt v' d \<le> amt v d"
proof (cases acc)
  case (ContinuousAcc c)
  then show ?thesis using assms continuous.vesting_antimono[of c t t' v v' d] by (simp add: account_ok_def vesting_eqs)
next
  case (PeriodicAcc p)
  then show ?thesis using assms periodic.vesting_antimono[of p t t' v v' d] by (simp add: account_ok_def vesting_eqs)
next
  case (DelayedAcc a)
  then show ?thesis using assms delayed.vesting_antimono[of a t t' v v' d] by (simp add: account_ok_def vesting_eqs)
next
  case (PermanentLockedAcc p)
  then show ?thesis using assms permanent.vesting_antimono[of p t t' v v' d] by (simp add: account_ok_def permanent_eqs)
qed (use assms in simp_all)


definition sample_account :: AccountI where
  "sample_account = ContinuousAcc (NewContinuousVestingAccount (NewBaseAccountWithAddress [1]) [coin ''stake'' 1000] 10 40)"

lemma sample_account_ok: "account_ok sample_account"
  by (simp add: sample_account_def account_ok_def continuous_ok_def NewContinuousVestingAccount_def NewBaseVestingAccount_def
      valid_coins_def wf_coins_def MaxBitLen_def reDnm_MatchString_def is_letter_def is_digit_def is_denom_char_def in_range_def)


section \<open>Tracking delegations\<close>

lemma add_nonzero_exact:
  assumes "good cs" and "reDnm_MatchString d" and "0 \<le> x" and "wf_Int x"
  shows "if wf_Int (amt cs d + x)
    then \<exists>r. add_nonzero cs d x = Inr r \<and> good r \<and> (\<forall>d'. amt r d' = amt cs d' + (if d' = d then x else 0))
    else add_nonzero cs d x = Inl (Panic ''Int overflow'')"
proof (cases "x = 0")
  case False
  then have g: "good [coin d x]" using assms by (simp add: good_coin)
  have "(\<forall>d'. wf_Int (amt cs d' + amt [coin d x] d')) \<longleftrightarrow> wf_Int (amt cs d + x)"
    using good_amt[OF assms(1)] by auto
  moreover have "NewCoin d x = Inr (coin d x)" using assms(2,3) NewCoin_Inr by blast
  ultimately show ?thesis using Coins_Add_valid[of cs "[coin d x]"] assms(1) g False by (auto simp: add_nonzero_def)
qed (use assms good_amt in \<open>simp add: add_nonzero_def\<close>)

lemma sub_nonzero_exact:
  assumes "good cs" and "reDnm_MatchString d" and "0 \<le> x" and "x \<le> amt cs d"
  shows "\<exists>r. sub_nonzero cs d x = Inr r \<and> good r \<and> (\<forall>d'. amt r d' = amt cs d' - (if d' = d then x else 0))"
proof (cases "x = 0")
  case False
  have "wf_Int x" using assms(3,4) good_amt[OF assms(1), of d] wf_Int_le by blast
  then have g: "good [coin d x]" using assms False by (simp add: good_coin)
  have "amt [coin d x] d' \<le> amt cs d'" for d' using assms(4) good_amt[OF assms(1), of d'] by auto
  from Coins_Sub_good[OF assms(1) g this] obtain r where "Coins_Sub cs [coin d x] = Inr r" "good r"
    "\<forall>d'. amt r d' = amt cs d' - amt [coin d x] d'" by blast
  moreover have "NewCoin d x = Inr (coin d x)" using assms(2,3) NewCoin_Inr by blast
  ultimately show ?thesis using False by (auto simp: sub_nonzero_def)
qed (use assms in \<open>simp add: sub_nonzero_def\<close>)

text \<open>The part of a delegation that is taken from the vesting coins.\<close>

definition from_vesting :: "int \<Rightarrow> int \<Rightarrow> int \<Rightarrow> int" where
  "from_vesting v dv d = min (max (v - dv) 0) d"

definition good_bva :: "BaseVestingAccount \<Rightarrow> bool" where
  "good_bva b \<longleftrightarrow> good (DelegatedVesting b) \<and> good (DelegatedFree b)"

definition delegated_to :: "BaseVestingAccount \<Rightarrow> BaseVestingAccount \<Rightarrow> bool" where
  "delegated_to b b' \<longleftrightarrow> bva_base b' = bva_base b \<and> OriginalVesting b' = OriginalVesting b \<and> EndTime b' = EndTime b"

lemma delegated_to_trans: "delegated_to a b \<Longrightarrow> delegated_to b c \<Longrightarrow> delegated_to a c"
  by (auto simp: delegated_to_def)

lemma delegated_to_refl: "delegated_to b b"
  by (simp add: delegated_to_def)

lemma TrackDelegation_coin_exact:
  assumes "good_bva b" and "good bal" and "good v" and "0 < Amount c" and "wf_Int (Amount c)" and "reDnm_MatchString (Denom c)"
  defines "x \<equiv> from_vesting (amt v (Denom c)) (amt (DelegatedVesting b) (Denom c)) (Amount c)"
  shows "if Amount c \<le> amt bal (Denom c) \<and> wf_Int (amt (DelegatedVesting b) (Denom c) + x)
        \<and> wf_Int (amt (DelegatedFree b) (Denom c) + (Amount c - x))
    then \<exists>b'. TrackDelegation_coin bal v b c = Inr b' \<and> good_bva b' \<and> delegated_to b b'
      \<and> (\<forall>d. amt (DelegatedVesting b') d = amt (DelegatedVesting b) d + (if d = Denom c then x else 0)
          \<and> amt (DelegatedFree b') d = amt (DelegatedFree b) d + (if d = Denom c then Amount c - x else 0))
    else \<exists>m. TrackDelegation_coin bal v b c = Inl (Panic m)"
proof -
  let ?d = "Denom c"
  have st: "AmountOf cs ?d = Inr (amt cs ?d)" if "good cs" for cs using that assms(6) valid_wf_strict(1) by (simp add: AmountOf_amt)
  have g: "good (DelegatedVesting b)" "good (DelegatedFree b)" using assms(1) by (simp_all add: good_bva_def)
  have xb: "0 \<le> x" "x \<le> Amount c" using assms(4) by (auto simp: x_def from_vesting_def)
  have wfx: "wf_Int x" "wf_Int (Amount c - x)" using xb assms(5) wf_Int_le by (auto intro: wf_Int_le[of _ "Amount c"])
  have d1: "Int_Sub (amt v ?d) (amt (DelegatedVesting b) ?d) = Inr (amt v ?d - amt (DelegatedVesting b) ?d)"
    using good_amt[OF assms(3), of ?d] good_amt[OF g(1), of ?d] by (auto simp: Int_Sub_Inr wf_Int_def)
  have d2: "Int_Sub (Amount c) x = Inr (Amount c - x)" using wfx by (simp add: Int_Sub_Inr wf_Int_def)
  have x: "min (max (amt v ?d - amt (DelegatedVesting b) ?d) 0) (Amount c) = x" by (simp add: x_def from_vesting_def)
  note av = add_nonzero_exact[OF g(1) assms(6) xb(1) wfx(1)]
  note af = add_nonzero_exact[OF g(2) assms(6) _ wfx(2)]
  have step: "TrackDelegation_coin bal v b c =
     (if amt bal ?d < Amount c then Inl (Panic ''delegation attempt with zero coins or insufficient funds'')
      else bind_r (add_nonzero (DelegatedVesting b) ?d x) (\<lambda>dv.
        bind_r (add_nonzero (DelegatedFree b) ?d (Amount c - x)) (\<lambda>df.
          Inr (b\<lparr>DelegatedVesting := dv, DelegatedFree := df\<rparr>))))"
    using assms(4) by (simp add: TrackDelegation_coin_def st g assms(2,3) d1 x d2 Let_def)
  show ?thesis
  proof (cases "Amount c \<le> amt bal ?d \<and> wf_Int (amt (DelegatedVesting b) ?d + x) \<and> wf_Int (amt (DelegatedFree b) ?d + (Amount c - x))")
    case True
    then obtain dv df where "add_nonzero (DelegatedVesting b) ?d x = Inr dv" "good dv"
      "\<forall>d'. amt dv d' = amt (DelegatedVesting b) d' + (if d' = ?d then x else 0)"
      "add_nonzero (DelegatedFree b) ?d (Amount c - x) = Inr df" "good df"
      "\<forall>d'. amt df d' = amt (DelegatedFree b) d' + (if d' = ?d then Amount c - x else 0)"
      using av af xb(2) by auto
    then show ?thesis using True unfolding step by (auto simp: good_bva_def delegated_to_def)
  next
    case False
    then show ?thesis using av af xb(2) unfolding step
      by (cases "amt bal ?d < Amount c"; cases "wf_Int (amt (DelegatedVesting b) ?d + x)") auto
  qed
qed

lemma TrackUndelegation_coin_exact:
  assumes "good_bva b" and "0 < Amount c" and "wf_Int (Amount c)" and "reDnm_MatchString (Denom c)"
  defines "x \<equiv> min (amt (DelegatedFree b) (Denom c)) (Amount c)"
  defines "y \<equiv> min (amt (DelegatedVesting b) (Denom c)) (Amount c - x)"
  shows "\<exists>b'. TrackUndelegation_coin b c = Inr b' \<and> good_bva b' \<and> delegated_to b b'
      \<and> (\<forall>d. amt (DelegatedFree b') d = amt (DelegatedFree b) d - (if d = Denom c then x else 0)
          \<and> amt (DelegatedVesting b') d = amt (DelegatedVesting b) d - (if d = Denom c then y else 0))"
proof -
  let ?d = "Denom c"
  have st: "AmountOf cs ?d = Inr (amt cs ?d)" if "good cs" for cs using that assms(4) valid_wf_strict(1) by (simp add: AmountOf_amt)
  have g: "good (DelegatedVesting b)" "good (DelegatedFree b)" using assms(1) by (simp_all add: good_bva_def)
  have xb: "0 \<le> x" "x \<le> Amount c" "0 \<le> y" using assms(2) good_amt[OF g(1), of ?d] good_amt[OF g(2), of ?d]
    by (auto simp: x_def y_def)
  have d2: "Int_Sub (Amount c) x = Inr (Amount c - x)" using xb assms(3) by (simp add: Int_Sub_Inr wf_Int_def)
  obtain df where df: "sub_nonzero (DelegatedFree b) ?d x = Inr df" "good df"
    "\<forall>d'. amt df d' = amt (DelegatedFree b) d' - (if d' = ?d then x else 0)"
    using sub_nonzero_exact[OF g(2) assms(4) xb(1)] by (auto simp: x_def)
  obtain dv where dv: "sub_nonzero (DelegatedVesting b) ?d y = Inr dv" "good dv"
    "\<forall>d'. amt dv d' = amt (DelegatedVesting b) d' - (if d' = ?d then y else 0)"
    using sub_nonzero_exact[OF g(1) assms(4) xb(3)] by (auto simp: y_def)
  have "TrackUndelegation_coin b c = Inr (b\<lparr>DelegatedFree := df, DelegatedVesting := dv\<rparr>)"
    using assms(2) df(1) dv(1) d2 by (simp add: TrackUndelegation_coin_def st g Let_def x_def[symmetric] y_def[symmetric])
  then show ?thesis using df dv by (auto simp: good_bva_def delegated_to_def)
qed

lemma good_Cons:
  "good (c # cs) \<Longrightarrow> 0 < Amount c \<and> wf_Int (Amount c) \<and> reDnm_MatchString (Denom c) \<and> good cs
     \<and> (\<forall>d. amt (c # cs) d = (if d = Denom c then Amount c else amt cs d)) \<and> amt cs (Denom c) = 0"
  using amt_below[of cs "Denom c"] by (auto simp: valid_coins_Cons wf_coins_def)

definition tracked :: "Coins \<Rightarrow> BaseVestingAccount \<Rightarrow> Coins \<Rightarrow> BaseVestingAccount \<Rightarrow> bool" where
  "tracked v b amount b' \<longleftrightarrow> good_bva b' \<and> delegated_to b b' \<and> (\<forall>d.
     let x = from_vesting (amt v d) (amt (DelegatedVesting b) d) (amt amount d) in
     amt (DelegatedVesting b') d = amt (DelegatedVesting b) d + x
     \<and> amt (DelegatedFree b') d = amt (DelegatedFree b) d + (amt amount d - x))"

definition track_fits :: "Coins \<Rightarrow> Coins \<Rightarrow> BaseVestingAccount \<Rightarrow> Coins \<Rightarrow> bool" where
  "track_fits bal v b amount \<longleftrightarrow> (\<forall>d. amt amount d \<le> amt bal d \<and>
     (let x = from_vesting (amt v d) (amt (DelegatedVesting b) d) (amt amount d) in
      wf_Int (amt (DelegatedVesting b) d + x) \<and> wf_Int (amt (DelegatedFree b) d + (amt amount d - x))))"

lemma from_vesting_0 [simp]: "from_vesting v dv 0 = 0"
  by (simp add: from_vesting_def)

lemma TrackDelegation_run:
  assumes "good_bva b" and "good bal" and "good v" and "good amount"
  shows "if track_fits bal v b amount
    then \<exists>b'. Base_TrackDelegation b bal v amount = Inr b' \<and> tracked v b amount b'
    else \<exists>m. Base_TrackDelegation b bal v amount = Inl (Panic m)"
  using assms(1,4) unfolding Base_TrackDelegation_def
proof (induction amount arbitrary: b)
  case Nil
  then have g: "good (DelegatedVesting b)" "good (DelegatedFree b)" by (simp_all add: good_bva_def)
  have "track_fits bal v b []"
    unfolding track_fits_def Let_def using good_amt[OF assms(2)] good_amt[OF g(1)] good_amt[OF g(2)] by simp
  moreover have "tracked v b [] b"
    unfolding tracked_def Let_def using Nil by (simp add: delegated_to_refl)
  ultimately show ?case by simp
next
  case (Cons c cs)
  note c = good_Cons[OF Cons.prems(2)]
  let ?x = "from_vesting (amt v (Denom c)) (amt (DelegatedVesting b) (Denom c)) (Amount c)"
  let ?ok = "Amount c \<le> amt bal (Denom c) \<and> wf_Int (amt (DelegatedVesting b) (Denom c) + ?x)
        \<and> wf_Int (amt (DelegatedFree b) (Denom c) + (Amount c - ?x))"
  have c3: "0 < Amount c" "wf_Int (Amount c)" "reDnm_MatchString (Denom c)" using c by blast+
  note one = TrackDelegation_coin_exact[OF Cons.prems(1) assms(2,3) c3]
  show ?case
  proof (cases ?ok)
    case True
    obtain b1 where b1: "TrackDelegation_coin bal v b c = Inr b1" "good_bva b1" "delegated_to b b1"
      "\<And>d. amt (DelegatedVesting b1) d = amt (DelegatedVesting b) d + (if d = Denom c then ?x else 0)"
      "\<And>d. amt (DelegatedFree b1) d = amt (DelegatedFree b) d + (if d = Denom c then Amount c - ?x else 0)"
      using one unfolding if_P[OF True] by blast
    have bal: "0 \<le> amt bal (Denom c)" using good_amt[OF assms(2)] by blast
    have fits: "track_fits bal v b1 cs \<longleftrightarrow> track_fits bal v b (c # cs)"
      unfolding track_fits_def Let_def
    proof (rule iff_allI)
      fix d
      show "(amt cs d \<le> amt bal d \<and>
          wf_Int (amt (DelegatedVesting b1) d + from_vesting (amt v d) (amt (DelegatedVesting b1) d) (amt cs d)) \<and>
          wf_Int (amt (DelegatedFree b1) d + (amt cs d - from_vesting (amt v d) (amt (DelegatedVesting b1) d) (amt cs d))))
        = (amt (c # cs) d \<le> amt bal d \<and>
          wf_Int (amt (DelegatedVesting b) d + from_vesting (amt v d) (amt (DelegatedVesting b) d) (amt (c # cs) d)) \<and>
          wf_Int (amt (DelegatedFree b) d + (amt (c # cs) d - from_vesting (amt v d) (amt (DelegatedVesting b) d) (amt (c # cs) d))))"
        using True c b1(4)[of d] b1(5)[of d] bal by (cases "d = Denom c") simp_all
    qed
    have tr: "tracked v b (c # cs) b'" if b': "tracked v b1 cs b'" for b'
      unfolding tracked_def Let_def
    proof (intro conjI allI)
      show "good_bva b'" "delegated_to b b'" using b' b1(3) delegated_to_trans by (auto simp: tracked_def)
      fix d
      show "amt (DelegatedVesting b') d = amt (DelegatedVesting b) d + from_vesting (amt v d) (amt (DelegatedVesting b) d) (amt (c # cs) d)"
        "amt (DelegatedFree b') d = amt (DelegatedFree b) d + (amt (c # cs) d - from_vesting (amt v d) (amt (DelegatedVesting b) d) (amt (c # cs) d))"
        using b' c b1(4)[of d] b1(5)[of d] by (cases "d = Denom c"; simp add: tracked_def Let_def)+
    qed
    show ?thesis using Cons.IH[OF b1(2)] c fits tr b1(1) by (auto split: if_splits)
  next
    case False
    have "amt (c # cs) (Denom c) = Amount c" using c by simp
    then have "\<not> track_fits bal v b (c # cs)" using False unfolding track_fits_def Let_def by metis
    moreover have "\<exists>m. TrackDelegation_coin bal v b c = Inl (Panic m)" using one unfolding if_not_P[OF False] .
    ultimately show ?thesis by auto
  qed
qed

definition untracked :: "BaseVestingAccount \<Rightarrow> Coins \<Rightarrow> BaseVestingAccount \<Rightarrow> bool" where
  "untracked b amount b' \<longleftrightarrow> good_bva b' \<and> delegated_to b b' \<and> (\<forall>d.
     let x = min (amt (DelegatedFree b) d) (amt amount d) in
     amt (DelegatedFree b') d = amt (DelegatedFree b) d - x
     \<and> amt (DelegatedVesting b') d = amt (DelegatedVesting b) d - min (amt (DelegatedVesting b) d) (amt amount d - x))"

lemma TrackUndelegation_run:
  assumes "good_bva b" and "good amount"
  shows "\<exists>b'. Base_TrackUndelegation b amount = Inr b' \<and> untracked b amount b'"
  using assms unfolding Base_TrackUndelegation_def
proof (induction amount arbitrary: b)
  case Nil
  then have "0 \<le> amt (DelegatedVesting b) d \<and> 0 \<le> amt (DelegatedFree b) d" for d
    using good_amt by (simp add: good_bva_def)
  then show ?case using Nil by (simp add: untracked_def delegated_to_refl Let_def)
next
  case (Cons c cs)
  note c = good_Cons[OF Cons.prems(2)]
  obtain b1 where b1: "TrackUndelegation_coin b c = Inr b1" "good_bva b1" "delegated_to b b1"
    "\<And>d. amt (DelegatedFree b1) d = amt (DelegatedFree b) d
        - (if d = Denom c then min (amt (DelegatedFree b) (Denom c)) (Amount c) else 0)"
    "\<And>d. amt (DelegatedVesting b1) d = amt (DelegatedVesting b) d
        - (if d = Denom c then min (amt (DelegatedVesting b) (Denom c)) (Amount c - min (amt (DelegatedFree b) (Denom c)) (Amount c)) else 0)"
    using TrackUndelegation_coin_exact[OF Cons.prems(1), of c] c by blast
  obtain b' where b': "fold_r TrackUndelegation_coin b1 cs = Inr b'" "untracked b1 cs b'"
    using Cons.IH[OF b1(2)] c by blast
  have nn: "0 \<le> amt (DelegatedFree b) d" "0 \<le> amt (DelegatedVesting b) d" for d
    using Cons.prems(1) good_amt by (auto simp: good_bva_def)
  have "untracked b (c # cs) b'"
    unfolding untracked_def Let_def
  proof (intro conjI allI)
    show "good_bva b'" "delegated_to b b'" using b'(2) b1(3) delegated_to_trans by (auto simp: untracked_def)
    fix d
    show "amt (DelegatedFree b') d = amt (DelegatedFree b) d - min (amt (DelegatedFree b) d) (amt (c # cs) d)"
      "amt (DelegatedVesting b') d = amt (DelegatedVesting b) d
        - min (amt (DelegatedVesting b) d) (amt (c # cs) d - min (amt (DelegatedFree b) d) (amt (c # cs) d))"
      using b'(2) c b1(4)[of d] b1(5)[of d] nn[of d] by (cases "d = Denom c"; simp add: untracked_def Let_def)+
  qed
  with b1(1) b'(1) show ?case by auto
qed

text \<open>C37: \<open>TrackDelegation\<close> splits a delegation into a vesting and a free part. It succeeds exactly
  when the balance covers the amount and no counter overflows, and panics otherwise; per
  denomination it takes as much as possible from coins that are vesting and not yet
  delegated, and the two counters grow by exactly the delegated amount together.\<close>

theorem TrackDelegation_exact:
  assumes "good_bva b" and "good bal" and "good v" and "good amount"
  shows "if track_fits bal v b amount
    then \<exists>b'. Base_TrackDelegation b bal v amount = Inr b' \<and> tracked v b amount b'
    else \<exists>m. Base_TrackDelegation b bal v amount = Inl (Panic m)"
  by (rule TrackDelegation_run[OF assms])

definition sample_bva :: BaseVestingAccount where
  "sample_bva = NewBaseVestingAccount (NewBaseAccountWithAddress [1]) [coin ''stake'' 1000] 40"

lemma TrackDelegation_exact_witness:
  "\<exists>b'. Base_TrackDelegation sample_bva [coin ''stake'' 900] [coin ''stake'' 500] [coin ''stake'' 700] = Inr b'
     \<and> tracked [coin ''stake'' 500] sample_bva [coin ''stake'' 700] b'"
proof -
  have g: "good_bva sample_bva" "good [coin ''stake'' 900]" "good [coin ''stake'' 500]" "good [coin ''stake'' 700]"
    by (simp_all add: good_bva_def sample_bva_def NewBaseVestingAccount_def valid_coins_def wf_coins_def MaxBitLen_def
        reDnm_MatchString_def is_letter_def is_digit_def is_denom_char_def in_range_def)
  have "track_fits [coin ''stake'' 900] [coin ''stake'' 500] sample_bva [coin ''stake'' 700]"
    by (simp add: track_fits_def sample_bva_def NewBaseVestingAccount_def from_vesting_def MaxBitLen_def wf_Int_def)
  then show ?thesis using TrackDelegation_exact[OF g] by simp
qed

lemma untrack_total:
  fixes f v x a :: int
  assumes "0 \<le> f" and "0 \<le> v" and "0 \<le> x" and "x \<le> a"
  shows "f + (a - x) - min (f + (a - x)) a + (v + x - min (v + x) (a - min (f + (a - x)) a)) = f + v"
  using assms by linarith

text \<open>C38: tracking an undelegation never panics: the free part is returned first, then the
  vesting part, and an amount that exceeds what is tracked empties both counters instead of
  making them negative. Undelegating what was just delegated restores the tracked total of
  every denomination.\<close>

theorem TrackUndelegation_exact:
  assumes "good_bva b" and "good amount"
  shows "(\<exists>b'. Base_TrackUndelegation b amount = Inr b' \<and> untracked b amount b')
    \<and> (\<forall>b0 v b'. tracked v b0 amount b \<longrightarrow> good_bva b0 \<longrightarrow> Base_TrackUndelegation b amount = Inr b' \<longrightarrow>
        (\<forall>d. amt (DelegatedFree b') d + amt (DelegatedVesting b') d
           = amt (DelegatedFree b0) d + amt (DelegatedVesting b0) d))"
proof -
  obtain b' where b': "Base_TrackUndelegation b amount = Inr b'" "untracked b amount b'"
    using TrackUndelegation_run[OF assms] by blast
  have "amt (DelegatedFree b') d + amt (DelegatedVesting b') d = amt (DelegatedFree b0) d + amt (DelegatedVesting b0) d"
    if "tracked v b0 amount b" "good_bva b0" for b0 v d
  proof -
    have "0 \<le> amt (DelegatedFree b0) d" "0 \<le> amt (DelegatedVesting b0) d" "0 \<le> amt amount d"
      using that(2) assms(2) good_amt by (auto simp: good_bva_def)
    moreover have "0 \<le> from_vesting (amt v d) (amt (DelegatedVesting b0) d) (amt amount d)"
      "from_vesting (amt v d) (amt (DelegatedVesting b0) d) (amt amount d) \<le> amt amount d"
      using calculation(3) by (auto simp: from_vesting_def)
    ultimately show ?thesis using b'(2) that(1) untrack_total[of "amt (DelegatedFree b0) d"]
      unfolding untracked_def tracked_def Let_def by simp
  qed
  then show ?thesis using b' by auto
qed

lemma TrackUndelegation_exact_witness:
  "\<exists>b'. Base_TrackUndelegation sample_bva [coin ''stake'' 7] = Inr b' \<and> untracked sample_bva [coin ''stake'' 7] b'"
  by (rule TrackUndelegation_exact[THEN conjunct1])
    (simp_all add: good_bva_def sample_bva_def NewBaseVestingAccount_def valid_coins_def wf_coins_def MaxBitLen_def
        reDnm_MatchString_def is_letter_def is_digit_def is_denom_char_def in_range_def)

end
