(* ===== verification/Collections.thy ===== *)
theory Collections
  imports KVMap "HOL-Library.Word" "HOL-Library.Product_Lexorder"
begin

text \<open>
  The typed collections the keepers store their state in: \<^verbatim>\<open>src/collections/\<close>. A \<open>Map\<close> is the
  ordered map of its decoded keys and values, an \<open>Item\<close> an optional value. An \<open>IndexedMap\<close>
  pairs a map with the state of its index; both indexes of the modelled keepers are here.
  The locale \<open>map_index\<close> is the contract of the interface \<open>Index\<close>.
\<close>

section \<open>Sequences\<close>

definition DefaultSequenceStart :: "64 word" where
  "DefaultSequenceStart = 0"

definition Sequence_Peek :: "64 word option \<Rightarrow> 64 word" where
  "Sequence_Peek i = (case i of Some n \<Rightarrow> n | None \<Rightarrow> DefaultSequenceStart)"

text \<open>\<open>Next\<close> returns the current number and stores its successor, modulo \<open>2\<^sup>6\<^sup>4\<close>.\<close>

definition Sequence_Next :: "(64 word option, 64 word) op" where
  "Sequence_Next i = (let seq = Sequence_Peek i in (Inr seq, Some (seq + 1)))"

section \<open>Indexed maps\<close>

record ('pk, 'v, 'i) imap =
  im_map :: "('pk, 'v) kvmap"
  im_idx :: 'i

text \<open>\<open>reference pk newValue oldValue\<close> updates the index before the map is written;
  \<open>unreference pk oldValue\<close> before the entry is removed. The old value is what \<open>cachedGet\<close>
  reads, \<open>None\<close> for \<open>ErrNotFound\<close>.\<close>

definition IndexedMap_ref :: "('pk \<Rightarrow> 'v \<Rightarrow> 'v option \<Rightarrow> ('i, unit) op) \<Rightarrow> 'pk :: linorder \<Rightarrow> 'v \<Rightarrow> (('pk, 'v, 'i) imap, unit) op" where
  "IndexedMap_ref reference pk v m =
     (let (r, i) = reference pk v (kv_get (im_map m) pk) (im_idx m) in (r, m\<lparr>im_idx := i\<rparr>))"

definition IndexedMap_unref :: "('pk \<Rightarrow> 'v option \<Rightarrow> ('i, unit) op) \<Rightarrow> 'pk :: linorder \<Rightarrow> (('pk, 'v, 'i) imap, unit) op" where
  "IndexedMap_unref unreference pk m =
     (let (r, i) = unreference pk (kv_get (im_map m) pk) (im_idx m) in (r, m\<lparr>im_idx := i\<rparr>))"

definition IndexedMap_Set :: "('pk \<Rightarrow> 'v \<Rightarrow> 'v option \<Rightarrow> ('i, unit) op) \<Rightarrow> 'pk :: linorder \<Rightarrow> 'v \<Rightarrow> (('pk, 'v, 'i) imap, unit) op" where
  "IndexedMap_Set reference pk v =
     seq_op (IndexedMap_ref reference pk v) (modify_op (\<lambda>m. m\<lparr>im_map := kv_set (im_map m) pk v\<rparr>))"

definition IndexedMap_Remove :: "('pk \<Rightarrow> 'v option \<Rightarrow> ('i, unit) op) \<Rightarrow> 'pk :: linorder \<Rightarrow> (('pk, 'v, 'i) imap, unit) op" where
  "IndexedMap_Remove unreference pk =
     seq_op (IndexedMap_unref unreference pk) (modify_op (\<lambda>m. m\<lparr>im_map := kv_del (im_map m) pk\<rparr>))"

definition IndexedMap_Get :: "('pk :: linorder, 'v, 'i) imap \<Rightarrow> 'pk \<Rightarrow> 'v option" where
  "IndexedMap_Get m pk = kv_get (im_map m) pk"

definition IndexedMap_Has :: "('pk :: linorder, 'v, 'i) imap \<Rightarrow> 'pk \<Rightarrow> bool" where
  "IndexedMap_Has m pk = kv_has (im_map m) pk"

section \<open>The unique index\<close>

definition Unique_unreference :: "('pk \<Rightarrow> 'v \<Rightarrow> 'r :: linorder) \<Rightarrow> 'pk \<Rightarrow> 'v \<Rightarrow> (('r, 'pk) kvmap, unit) op" where
  "Unique_unreference getRefKey pk v = modify_op (\<lambda>refKeys. kv_del refKeys (getRefKey pk v))"

definition Unique_Reference :: "('pk \<Rightarrow> 'v \<Rightarrow> 'r :: linorder) \<Rightarrow> 'pk \<Rightarrow> 'v \<Rightarrow> 'v option \<Rightarrow> (('r, 'pk) kvmap, unit) op" where
  "Unique_Reference getRefKey pk newValue oldValue =
     seq_op (case oldValue of Some v \<Rightarrow> Unique_unreference getRefKey pk v | None \<Rightarrow> ret_op ())
       (\<lambda>refKeys.
          let refKey = getRefKey pk newValue in
          if kv_has refKeys refKey then (Inl (Err ''index uniqueness constrain violation''), refKeys)
          else (Inr (), kv_set refKeys refKey pk))"

definition Unique_Unreference :: "('pk \<Rightarrow> 'v \<Rightarrow> 'r :: linorder) \<Rightarrow> 'pk \<Rightarrow> 'v option \<Rightarrow> (('r, 'pk) kvmap, unit) op" where
  "Unique_Unreference getRefKey pk getValue =
     (case getValue of
        None \<Rightarrow> fail_op (Err ''collections: not found'')
      | Some v \<Rightarrow> Unique_unreference getRefKey pk v)"

definition Unique_MatchExact :: "('r :: linorder, 'pk) kvmap \<Rightarrow> 'r \<Rightarrow> 'pk option" where
  "Unique_MatchExact refKeys ref = kv_get refKeys ref"

section \<open>The reverse pair index\<close>

definition ReversePair_Reference :: "'a \<times> 'b \<Rightarrow> 'v \<Rightarrow> 'v option \<Rightarrow> (('b :: linorder \<times> 'a :: linorder, unit) kvmap, unit) op" where
  "ReversePair_Reference pk newValue oldValue = modify_op (\<lambda>refKeys. kv_set refKeys (snd pk, fst pk) ())"

definition ReversePair_Unreference :: "'a \<times> 'b \<Rightarrow> 'v option \<Rightarrow> (('b :: linorder \<times> 'a :: linorder, unit) kvmap, unit) op" where
  "ReversePair_Unreference pk oldValue = modify_op (\<lambda>refKeys. kv_del refKeys (snd pk, fst pk))"

section \<open>The contract of an index\<close>

locale map_index =
  fixes reference :: "'pk :: linorder \<Rightarrow> 'v \<Rightarrow> 'v option \<Rightarrow> ('i, unit) op"
    and unreference :: "'pk \<Rightarrow> 'v option \<Rightarrow> ('i, unit) op"
    and agrees :: "('pk, 'v) kvmap \<Rightarrow> 'i \<Rightarrow> bool"
  assumes reference_agrees: "kv_wf m \<Longrightarrow> agrees m i \<Longrightarrow> reference pk v (kv_get m pk) i = (Inr u, i') \<Longrightarrow>
      agrees (kv_set m pk v) i'"
    and unreference_agrees: "kv_wf m \<Longrightarrow> agrees m i \<Longrightarrow> unreference pk (kv_get m pk) i = (Inr u, i') \<Longrightarrow>
      agrees (kv_del m pk) i'"
begin

definition coherent :: "('pk, 'v, 'i) imap \<Rightarrow> bool" where
  "coherent m \<longleftrightarrow> kv_wf (im_map m) \<and> agrees (im_map m) (im_idx m)"

lemma Set_Inr:
  "IndexedMap_Set reference pk v m = (Inr u, m') \<longleftrightarrow>
     (\<exists>i. reference pk v (kv_get (im_map m) pk) (im_idx m) = (Inr (), i)
        \<and> m' = m\<lparr>im_idx := i, im_map := kv_set (im_map m) pk v\<rparr>)"
  by (cases "reference pk v (kv_get (im_map m) pk) (im_idx m)")
    (auto simp: IndexedMap_Set_def IndexedMap_ref_def res_simps)

lemma Remove_Inr:
  "IndexedMap_Remove unreference pk m = (Inr u, m') \<longleftrightarrow>
     (\<exists>i. unreference pk (kv_get (im_map m) pk) (im_idx m) = (Inr (), i)
        \<and> m' = m\<lparr>im_idx := i, im_map := kv_del (im_map m) pk\<rparr>)"
  by (cases "unreference pk (kv_get (im_map m) pk) (im_idx m)")
    (auto simp: IndexedMap_Remove_def IndexedMap_unref_def res_simps)

lemma Set_coherent:
  assumes "coherent m" and "IndexedMap_Set reference pk v m = (Inr u, m')"
  shows "coherent m'" and "im_map m' = kv_set (im_map m) pk v"
  using assms reference_agrees by (auto simp: Set_Inr coherent_def kv_wf_set)

lemma Remove_coherent:
  assumes "coherent m" and "IndexedMap_Remove unreference pk m = (Inr u, m')"
  shows "coherent m'" and "im_map m' = kv_del (im_map m) pk"
  using assms unreference_agrees by (auto simp: Remove_Inr coherent_def kv_wf_del)

end

definition unique_agrees :: "('pk :: linorder \<Rightarrow> 'v \<Rightarrow> 'r :: linorder) \<Rightarrow> ('pk, 'v) kvmap \<Rightarrow> ('r, 'pk) kvmap \<Rightarrow> bool" where
  "unique_agrees getRefKey m i \<longleftrightarrow> kv_wf i
     \<and> (\<forall>r pk. kv_get i r = Some pk \<longleftrightarrow> (\<exists>v. kv_get m pk = Some v \<and> getRefKey pk v = r))"

definition reverse_agrees :: "('a :: linorder \<times> 'b :: linorder, 'v) kvmap \<Rightarrow> ('b \<times> 'a, unit) kvmap \<Rightarrow> bool" where
  "reverse_agrees m i \<longleftrightarrow> kv_wf i \<and> (\<forall>a b. kv_has i (b, a) \<longleftrightarrow> kv_has m (a, b))"

lemma unique_agreesD:
  "unique_agrees g m i \<Longrightarrow> kv_get i r = Some pk \<longleftrightarrow> (\<exists>v. kv_get m pk = Some v \<and> g pk v = r)"
  "unique_agrees g m i \<Longrightarrow> kv_wf i"
  by (simp_all add: unique_agrees_def)

lemma Unique_unreference_agrees:
  assumes wf: "kv_wf m" and ag: "unique_agrees g m i" and old: "kv_get m pk = Some v"
  shows "unique_agrees g (kv_del m pk) (kv_del i (g pk v))"
proof -
  note i = unique_agreesD[OF ag]
  have "kv_get (kv_del i (g pk v)) r = Some pk' \<longleftrightarrow> (\<exists>w. kv_get (kv_del m pk) pk' = Some w \<and> g pk' w = r)" for r pk'
  proof (cases "pk' = pk")
    case True
    then show ?thesis using i(1)[of r pk] old by (auto simp: kv_get_del[OF wf] kv_get_del[OF i(2)])
  next
    case False
    have "\<not> (\<exists>w. kv_get m pk' = Some w \<and> g pk' w = g pk v)"
      using i(1)[of "g pk v" pk] i(1)[of "g pk v" pk'] old False by auto
    then show ?thesis using i(1)[of r pk'] False by (auto simp: kv_get_del[OF wf] kv_get_del[OF i(2)])
  qed
  then show ?thesis using i(2) by (simp add: unique_agrees_def kv_wf_del)
qed

lemma Unique_insert_agrees:
  assumes wf: "kv_wf m" and ag: "unique_agrees g m i" and new: "kv_get m pk = None" and free: "kv_get i (g pk v) = None"
  shows "unique_agrees g (kv_set m pk v) (kv_set i (g pk v) pk)"
proof -
  note i = unique_agreesD[OF ag]
  have "kv_get (kv_set i (g pk v) pk) r = Some pk' \<longleftrightarrow> (\<exists>w. kv_get (kv_set m pk v) pk' = Some w \<and> g pk' w = r)" for r pk'
    using i(1)[of r pk'] i(1)[of "g pk v" pk'] new free
    by (cases "pk' = pk") (auto simp: kv_get_set[OF wf] kv_get_set[OF i(2)])
  then show ?thesis using i(2) by (simp add: unique_agrees_def kv_wf_set)
qed

lemma unique_agrees_cong: "(\<And>k. kv_get m k = kv_get m' k) \<Longrightarrow> unique_agrees g m i = unique_agrees g m' i"
  by (simp add: unique_agrees_def)

lemma Unique_Reference_Inr:
  "Unique_Reference g pk v old i = (Inr u, i') \<longleftrightarrow>
     (let i1 = (case old of Some w \<Rightarrow> kv_del i (g pk w) | None \<Rightarrow> i) in
      kv_get i1 (g pk v) = None \<and> i' = kv_set i1 (g pk v) pk)"
  by (auto simp: Unique_Reference_def Unique_unreference_def res_simps Let_def split: option.splits if_splits)

interpretation unique: map_index "Unique_Reference g" "Unique_Unreference g" "unique_agrees g"
  for g :: "'pk :: linorder \<Rightarrow> 'v \<Rightarrow> 'r :: linorder"
proof unfold_locales
  fix m i pk v u i'
  assume wf: "kv_wf m" and ag: "unique_agrees g m i" and r: "Unique_Reference g pk v (kv_get m pk) i = (Inr u, i')"
  show "unique_agrees g (kv_set m pk v) i'"
  proof (cases "kv_get m pk")
    case None
    then show ?thesis using r Unique_insert_agrees[OF wf ag None] by (simp add: Unique_Reference_Inr)
  next
    case (Some w)
    let ?m = "kv_del m pk" and ?i = "kv_del i (g pk w)"
    have ag1: "unique_agrees g ?m ?i" by (rule Unique_unreference_agrees[OF wf ag Some])
    have "kv_get ?i (g pk v) = None" "i' = kv_set ?i (g pk v) pk" using r Some by (simp_all add: Unique_Reference_Inr Let_def)
    then have "unique_agrees g (kv_set ?m pk v) i'"
      using Unique_insert_agrees[OF kv_wf_del[OF wf] ag1] by (simp add: kv_get_del[OF wf])
    then show ?thesis
      by (subst unique_agrees_cong[of _ "kv_set ?m pk v"]) (simp_all add: kv_get_set kv_get_del wf kv_wf_del)
  qed
next
  fix m i pk u i'
  assume wf: "kv_wf m" and ag: "unique_agrees g m i" and r: "Unique_Unreference g pk (kv_get m pk) i = (Inr u, i')"
  then obtain v where v: "kv_get m pk = Some v" "i' = kv_del i (g pk v)"
    by (auto simp: Unique_Unreference_def Unique_unreference_def res_simps split: option.splits)
  then show "unique_agrees g (kv_del m pk) i'" using Unique_unreference_agrees[OF wf ag] by simp
qed

interpretation reverse: map_index "ReversePair_Reference :: 'a :: linorder \<times> 'b :: linorder \<Rightarrow> 'v \<Rightarrow> 'v option \<Rightarrow> _"
  "ReversePair_Unreference" "reverse_agrees"
proof unfold_locales
  fix m :: "('a \<times> 'b, 'v) kvmap" and i pk v u i'
  assume "kv_wf m" "reverse_agrees m i" "ReversePair_Reference pk v (kv_get m pk) i = (Inr u, i')"
  then show "reverse_agrees (kv_set m pk v) i'"
    by (cases pk) (auto simp: ReversePair_Reference_def reverse_agrees_def res_simps kv_wf_set kv_has_set simp del: kv_has_iff)
next
  fix m :: "('a \<times> 'b, 'v) kvmap" and i pk u i'
  assume "kv_wf m" "reverse_agrees m i" "ReversePair_Unreference pk (kv_get m pk) i = (Inr u, i')"
  then show "reverse_agrees (kv_del m pk) i'"
    by (cases pk) (auto simp: ReversePair_Unreference_def reverse_agrees_def res_simps kv_wf_del kv_get_del)
qed

lemma reverse_total:
  "ReversePair_Reference pk v old i = (Inr (), kv_set i (snd pk, fst pk) ())"
  "ReversePair_Unreference pk old i = (Inr (), kv_del i (snd pk, fst pk))"
  by (simp_all add: ReversePair_Reference_def ReversePair_Unreference_def op_run)

lemma reverse_Set:
  "IndexedMap_Set ReversePair_Reference pk v m =
     (Inr (), m\<lparr>im_idx := kv_set (im_idx m) (snd pk, fst pk) (), im_map := kv_set (im_map m) pk v\<rparr>)"
  "IndexedMap_Remove ReversePair_Unreference pk m =
     (Inr (), m\<lparr>im_idx := kv_del (im_idx m) (snd pk, fst pk), im_map := kv_del (im_map m) pk\<rparr>)"
  by (auto simp: reverse.Set_Inr reverse.Remove_Inr reverse_total)

section \<open>What a unique index guarantees\<close>

definition conflict :: "('pk \<Rightarrow> 'v \<Rightarrow> 'r) \<Rightarrow> ('pk :: linorder, 'v, 'i) imap \<Rightarrow> 'pk \<Rightarrow> 'v \<Rightarrow> bool" where
  "conflict g m pk v \<longleftrightarrow> (\<exists>pk' w. pk' \<noteq> pk \<and> IndexedMap_Get m pk' = Some w \<and> g pk' w = g pk v)"

lemma unique_Set_iff:
  assumes "unique.coherent g m"
  shows "(\<exists>m'. IndexedMap_Set (Unique_Reference g) pk v m = (Inr (), m')) \<longleftrightarrow> \<not> conflict g m pk v"
proof -
  have ag: "unique_agrees g (im_map m) (im_idx m)" using assms by (simp add: unique.coherent_def)
  note i = unique_agreesD[OF ag]
  let ?i1 = "case kv_get (im_map m) pk of Some w \<Rightarrow> kv_del (im_idx m) (g pk w) | None \<Rightarrow> im_idx m"
  have "kv_get ?i1 (g pk v) = None \<longleftrightarrow> (\<forall>pk'. kv_get (im_idx m) (g pk v) = Some pk' \<longrightarrow> pk' = pk)"
    using i(1)[of "g pk v" pk]
    by (cases "kv_get (im_map m) pk"; cases "kv_get (im_idx m) (g pk v)") (auto simp: kv_get_del[OF i(2)])
  then have "kv_get ?i1 (g pk v) = None \<longleftrightarrow> \<not> conflict g m pk v"
    by (auto simp: i(1) IndexedMap_Get_def conflict_def)
  moreover have "(\<exists>m'. IndexedMap_Set (Unique_Reference g) pk v m = (Inr (), m')) \<longleftrightarrow> kv_get ?i1 (g pk v) = None"
    by (simp add: unique.Set_Inr Unique_Reference_Inr Let_def)
  ultimately show ?thesis by simp
qed

text \<open>C39: writing through an indexed map with a unique index fails exactly when another key
  already has the new reference, and otherwise leaves an index in which looking up a
  reference gives exactly the primary key whose value has it. Overwriting an entry drops
  the reference of its old value.\<close>

theorem IndexedMap_unique_index:
  assumes "unique.coherent g m"
  shows "if conflict g m pk v
    then \<exists>e m'. IndexedMap_Set (Unique_Reference g) pk v m = (Inl e, m')
    else \<exists>m'. IndexedMap_Set (Unique_Reference g) pk v m = (Inr (), m') \<and> unique.coherent g m'
      \<and> im_map m' = kv_set (im_map m) pk v
      \<and> (\<forall>r pk'. Unique_MatchExact (im_idx m') r = Some pk' \<longleftrightarrow> (\<exists>w. IndexedMap_Get m' pk' = Some w \<and> g pk' w = r))"
proof (cases "conflict g m pk v")
  case True
  then have "\<not> (\<exists>m'. IndexedMap_Set (Unique_Reference g) pk v m = (Inr (), m'))" by (simp add: unique_Set_iff[OF assms])
  then have "\<exists>e m'. IndexedMap_Set (Unique_Reference g) pk v m = (Inl e, m')"
    by (cases "IndexedMap_Set (Unique_Reference g) pk v m"; cases "fst (IndexedMap_Set (Unique_Reference g) pk v m)") auto
  with True show ?thesis by simp
next
  case False
  then obtain m' where m': "IndexedMap_Set (Unique_Reference g) pk v m = (Inr (), m')" using unique_Set_iff[OF assms] by blast
  note c = unique.Set_coherent[OF assms m']
  then have "unique_agrees g (im_map m') (im_idx m')" by (simp add: unique.coherent_def)
  with False m' c show ?thesis by (auto simp: Unique_MatchExact_def IndexedMap_Get_def unique_agreesD)
qed

lemma IndexedMap_unique_index_witness:
  "\<exists>e m'. IndexedMap_Set (Unique_Reference (\<lambda>_ v. v)) (2 :: nat) (7 :: nat) \<lparr>im_map = [(1, 7)], im_idx = [(7, 1)]\<rparr> = (Inl e, m')"
proof -
  let ?m = "\<lparr>im_map = [(1 :: nat, 7 :: nat)], im_idx = [(7, 1 :: nat)]\<rparr>"
  have "unique.coherent (\<lambda>_ v. v) ?m" by (auto simp: unique.coherent_def unique_agrees_def)
  note * = IndexedMap_unique_index[OF this, of 2 7]
  have "conflict (\<lambda>_ v. v) ?m 2 7"
    unfolding conflict_def by (intro exI[of _ 1] exI[of _ 7]) (simp add: IndexedMap_Get_def)
  from *[unfolded if_P[OF this]] show ?thesis .
qed

end
