(* ===== verification/Auth.thy ===== *)
theory Auth
  imports Accounts Collections
begin

text \<open>
  The account keeper: \<^verbatim>\<open>src/x/auth/keeper/account.go\<close> and \<^verbatim>\<open>src/x/auth/keeper/keeper.go\<close>. Its
  state is the indexed map of accounts with the unique index by account number, and the
  sequence of account numbers. The constructor of accounts is \<open>ProtoBaseAccount\<close>. The
  operations work on every extension of the state, so that other keepers can add theirs.
\<close>

section \<open>State\<close>

record auth_state =
  Accounts :: "(AccAddress, AccountI, (uint64, AccAddress) kvmap) imap"
  NextNumber :: "uint64 option"

text \<open>What the keeper is built with: the permissions of the modules by name, and the address
  derived from the name of a module, which is a hash.\<close>

record auth_env =
  permAddrs :: "string \<Rightarrow> string list option"
  mod_address :: "string \<Rightarrow> AccAddress"

definition account_by_number :: "AccAddress \<Rightarrow> AccountI \<Rightarrow> uint64" where
  "account_by_number _ v = GetAccountNumber v"

definition on_accounts :: "((AccAddress, AccountI, (uint64, AccAddress) kvmap) imap, 'a) op \<Rightarrow> ('x auth_state_scheme, 'a) op" where
  "on_accounts m s = (case m (Accounts s) of (r, a) \<Rightarrow> (r, s\<lparr>Accounts := a\<rparr>))"

section \<open>Accounts\<close>

definition NextAccountNumber :: "('x auth_state_scheme, uint64) op" where
  "NextAccountNumber s = (case Sequence_Next (NextNumber s) of (r, n) \<Rightarrow> (must r, s\<lparr>NextNumber := n\<rparr>))"

definition NewAccount :: "AccountI \<Rightarrow> ('x auth_state_scheme, AccountI) op" where
  "NewAccount acc = bind_op NextAccountNumber (\<lambda>n. ret_op (SetAccountNumber n acc))"

definition ProtoBaseAccount :: BaseAccount where
  "ProtoBaseAccount = \<lparr>Address = [], PubKey = None, AccountNumber = 0, Sequence = 0\<rparr>"

definition NewAccountWithAddress :: "AccAddress \<Rightarrow> ('x auth_state_scheme, AccountI) op" where
  "NewAccountWithAddress addr =
     bind_op (lift_op (must (BaseAccount_SetAddress ProtoBaseAccount addr))) (\<lambda>acc. NewAccount (BaseAcc acc))"

definition HasAccount :: "'x auth_state_scheme \<Rightarrow> AccAddress \<Rightarrow> bool" where
  "HasAccount s addr = IndexedMap_Has (Accounts s) addr"

definition GetAccount :: "'x auth_state_scheme \<Rightarrow> AccAddress \<Rightarrow> AccountI option" where
  "GetAccount s addr = IndexedMap_Get (Accounts s) addr"

definition SetAccount :: "AccountI \<Rightarrow> ('x auth_state_scheme, unit) op" where
  "SetAccount acc = must_op (on_accounts (IndexedMap_Set (Unique_Reference account_by_number) (GetAddress acc) acc))"

definition RemoveAccount :: "AccountI \<Rightarrow> ('x auth_state_scheme, unit) op" where
  "RemoveAccount acc = must_op (on_accounts (IndexedMap_Remove (Unique_Unreference account_by_number) (GetAddress acc)))"

definition GetAllAccounts :: "'x auth_state_scheme \<Rightarrow> AccountI list" where
  "GetAllAccounts s = map snd (im_map (Accounts s))"

definition Keeper_GetPubKey :: "'x auth_state_scheme \<Rightarrow> AccAddress \<Rightarrow> bytes option res" where
  "Keeper_GetPubKey s addr =
     (case GetAccount s addr of None \<Rightarrow> Inl (Err ''account does not exist'') | Some acc \<Rightarrow> Inr (PubKey (base_of acc)))"

definition Keeper_GetSequence :: "'x auth_state_scheme \<Rightarrow> AccAddress \<Rightarrow> uint64 res" where
  "Keeper_GetSequence s addr =
     (case GetAccount s addr of None \<Rightarrow> Inl (Err ''account does not exist'') | Some acc \<Rightarrow> Inr (GetSequence acc))"

section \<open>Module accounts\<close>

definition ValidatePermissions :: "'e auth_env_scheme \<Rightarrow> ModuleAccount \<Rightarrow> unit res" where
  "ValidatePermissions e macc =
     (let permAddr = (case permAddrs e (macc_Name macc) of None \<Rightarrow> [] | Some perms \<Rightarrow> perms) in
      if list_ex (\<lambda>perm. \<not> HasPermission permAddr perm) (Permissions macc)
      then Inl (Err ''invalid module permission'') else Inr ())"

definition GetModuleAddress :: "'e auth_env_scheme \<Rightarrow> string \<Rightarrow> AccAddress option" where
  "GetModuleAddress e moduleName =
     (case permAddrs e moduleName of None \<Rightarrow> None | Some _ \<Rightarrow> Some (mod_address e moduleName))"

definition GetModuleAddressAndPermissions :: "'e auth_env_scheme \<Rightarrow> string \<Rightarrow> AccAddress option \<times> string list" where
  "GetModuleAddressAndPermissions e moduleName =
     (case permAddrs e moduleName of None \<Rightarrow> (None, []) | Some perms \<Rightarrow> (Some (mod_address e moduleName), perms))"

definition GetModuleAccountAndPermissions ::
    "'e auth_env_scheme \<Rightarrow> string \<Rightarrow> ('x auth_state_scheme, ModuleAccount option \<times> string list) op" where
  "GetModuleAccountAndPermissions e moduleName s =
     (case GetModuleAddressAndPermissions e moduleName of
        (None, _) \<Rightarrow> (Inr (None, []), s)
      | (Some addr, perms) \<Rightarrow>
          (case GetAccount s addr of
             Some (ModuleAcc macc) \<Rightarrow> (Inr (Some macc, perms), s)
           | Some _ \<Rightarrow> (Inl (Panic ''account is not a module account''), s)
           | None \<Rightarrow>
               bind_op (lift_op (NewEmptyModuleAccount (mod_address e) moduleName perms)) (\<lambda>macc.
               bind_op NextAccountNumber (\<lambda>n.
                 let maccI = macc\<lparr>macc_base := (macc_base macc)\<lparr>AccountNumber := n\<rparr>\<rparr> in
                 seq_op (SetAccount (ModuleAcc maccI)) (ret_op (Some maccI, perms)))) s))"

definition GetModuleAccount :: "'e auth_env_scheme \<Rightarrow> string \<Rightarrow> ('x auth_state_scheme, ModuleAccount option) op" where
  "GetModuleAccount e moduleName =
     bind_op (GetModuleAccountAndPermissions e moduleName) (\<lambda>(acc, _). ret_op acc)"

section \<open>The invariant of the account store\<close>

text \<open>The index agrees with the accounts and every account is stored under its own address. In
  \<open>auth_inv\<close>, the numbers in use are also below the next one, which holds until the counter
  wraps around.\<close>

definition auth_wf :: "'x auth_state_scheme \<Rightarrow> bool" where
  "auth_wf s \<longleftrightarrow> unique.coherent account_by_number (Accounts s)
     \<and> (\<forall>addr acc. GetAccount s addr = Some acc \<longrightarrow> GetAddress acc = addr)"

definition auth_inv :: "'x auth_state_scheme \<Rightarrow> bool" where
  "auth_inv s \<longleftrightarrow> auth_wf s
     \<and> (\<forall>addr acc. GetAccount s addr = Some acc \<longrightarrow> GetAccountNumber acc < Sequence_Peek (NextNumber s))"

lemma base_of_map_base [simp]: "base_of (map_base f acc) = f (base_of acc)"
  by (cases acc) simp_all

lemma account_setters [simp]:
  "GetAddress (SetAccountNumber n acc) = GetAddress acc"
  "GetAccountNumber (SetAccountNumber n acc) = n"
  by (simp_all add: GetAddress_def GetAccountNumber_def SetAccountNumber_def)

lemma HasAccount_iff: "HasAccount s addr \<longleftrightarrow> GetAccount s addr \<noteq> None"
  by (auto simp: HasAccount_def GetAccount_def IndexedMap_Has_def IndexedMap_Get_def)

lemma uint64_succ:
  fixes n :: uint64
  assumes "n \<noteq> - 1"
  shows "uint (n + 1) = uint n + 1"
proof -
  have "uint (- 1 :: uint64) = 2 ^ 64 - 1" by (simp add: unsigned_minus_1_eq_mask mask_eq_exp_minus_1)
  moreover have "uint n \<noteq> uint (- 1 :: uint64)" using assms by (simp only: word_uint_eq_iff not_False_eq_True)
  moreover have "uint n < 2 ^ 64" using uint_bounded[of n] by simp
  ultimately have "uint n + 1 < 2 ^ 64" by linarith
  then show ?thesis by (simp add: uint_word_ariths)
qed

lemma uint64_less_succ: "n \<noteq> - 1 \<Longrightarrow> n < n + 1" for n :: uint64
  unfolding word_less_def by (drule uint64_succ) linarith

lemma auth_invD:
  "auth_inv s \<Longrightarrow> GetAccount s addr = Some acc \<Longrightarrow> GetAddress acc = addr \<and> GetAccountNumber acc < Sequence_Peek (NextNumber s)"
  by (simp add: auth_inv_def auth_wf_def)

lemma auth_numbers_unique:
  assumes "auth_wf s" and "GetAccount s a = Some x" and "GetAccount s b = Some y" and "GetAccountNumber x = GetAccountNumber y"
  shows "a = b"
proof -
  have ag: "unique_agrees account_by_number (im_map (Accounts s)) (im_idx (Accounts s))"
    using assms(1) by (simp add: auth_wf_def unique.coherent_def)
  have "kv_get (im_idx (Accounts s)) (GetAccountNumber x) = Some a" "kv_get (im_idx (Accounts s)) (GetAccountNumber x) = Some b"
    using assms(2-4) unfolding unique_agreesD(1)[OF ag]
    by (auto simp: account_by_number_def GetAccount_def IndexedMap_Get_def)
  then show ?thesis by simp
qed

text \<open>What storing an account does when it succeeds.\<close>

lemma GetAccount_set:
  assumes "kv_wf (im_map (Accounts s))" and "im_map a = kv_set (im_map (Accounts s)) k acc"
  shows "GetAccount (s\<lparr>Accounts := a\<rparr>) addr = (if addr = k then Some acc else GetAccount s addr)"
  using assms by (auto simp: GetAccount_def IndexedMap_Get_def kv_get_set)

lemma SetAccount_Inr:
  assumes "auth_wf s" and "SetAccount acc s = (Inr u, s')"
  shows "\<exists>a. s' = s\<lparr>Accounts := a\<rparr> \<and> auth_wf s'
    \<and> (\<forall>addr. GetAccount s' addr = (if addr = GetAddress acc then Some acc else GetAccount s addr))"
proof -
  have co: "unique.coherent account_by_number (Accounts s)" using assms(1) by (simp add: auth_wf_def)
  then have wf: "kv_wf (im_map (Accounts s))" by (simp add: unique.coherent_def)
  from assms(2) obtain a where a: "s' = s\<lparr>Accounts := a\<rparr>"
    "IndexedMap_Set (Unique_Reference account_by_number) (GetAddress acc) acc (Accounts s) = (Inr u, a)"
    by (auto simp: SetAccount_def res_simps on_accounts_def split: prod.splits)
  note c = unique.Set_coherent[OF co a(2)]
  note g = GetAccount_set[OF wf c(2)]
  have "auth_wf s'" using assms(1) c(1) unfolding a(1) auth_wf_def g by simp
  with a(1) g show ?thesis by blast
qed

text \<open>Storing an account succeeds exactly when no other account has its number.\<close>

lemma SetAccount_run:
  assumes "unique.coherent account_by_number (Accounts s)"
    and "\<forall>addr acc'. addr \<noteq> GetAddress acc \<and> GetAccount s addr = Some acc' \<longrightarrow> GetAccountNumber acc' \<noteq> GetAccountNumber acc"
  shows "\<exists>a. SetAccount acc s = (Inr (), s\<lparr>Accounts := a\<rparr>) \<and> unique.coherent account_by_number a
    \<and> im_map a = kv_set (im_map (Accounts s)) (GetAddress acc) acc"
proof -
  have "\<not> conflict account_by_number (Accounts s) (GetAddress acc) acc"
    using assms(2) by (auto simp: conflict_def GetAccount_def account_by_number_def)
  with unique_Set_iff[OF assms(1)] obtain a where
    a: "IndexedMap_Set (Unique_Reference account_by_number) (GetAddress acc) acc (Accounts s) = (Inr (), a)" by blast
  with unique.Set_coherent[OF assms(1) a] show ?thesis by (auto simp: SetAccount_def must_op_def on_accounts_def)
qed

text \<open>Replacing an account by one with the same number.\<close>

lemma SetAccount_update:
  assumes inv: "auth_wf s" and old: "GetAccount s (GetAddress acc) = Some acc0" and num: "GetAccountNumber acc = GetAccountNumber acc0"
  shows "\<exists>a. SetAccount acc s = (Inr (), s\<lparr>Accounts := a\<rparr>) \<and> auth_wf (s\<lparr>Accounts := a\<rparr>)
    \<and> (auth_inv s \<longrightarrow> auth_inv (s\<lparr>Accounts := a\<rparr>))
    \<and> (\<forall>addr. GetAccount (s\<lparr>Accounts := a\<rparr>) addr = (if addr = GetAddress acc then Some acc else GetAccount s addr))"
proof -
  have co: "unique.coherent account_by_number (Accounts s)" using inv by (simp add: auth_wf_def)
  then have wf: "kv_wf (im_map (Accounts s))" by (simp add: unique.coherent_def)
  have "\<forall>addr acc'. addr \<noteq> GetAddress acc \<and> GetAccount s addr = Some acc' \<longrightarrow> GetAccountNumber acc' \<noteq> GetAccountNumber acc"
    using auth_numbers_unique[OF inv _ old] num by auto
  from SetAccount_run[OF co this] obtain a where a: "SetAccount acc s = (Inr (), s\<lparr>Accounts := a\<rparr>)"
    "unique.coherent account_by_number a" "im_map a = kv_set (im_map (Accounts s)) (GetAddress acc) acc" by blast
  note g = GetAccount_set[OF wf a(3)]
  have "auth_wf (s\<lparr>Accounts := a\<rparr>)" using inv a(2) unfolding auth_wf_def g by simp
  moreover have "auth_inv s \<longrightarrow> auth_inv (s\<lparr>Accounts := a\<rparr>)"
    using calculation old num unfolding auth_inv_def g by auto
  ultimately show ?thesis using a(1) g by blast
qed

text \<open>Creating an account takes the next number and never conflicts, as long as the counter
  does not wrap.\<close>

lemma create_account:
  fixes s :: "'x auth_state_scheme"
  assumes inv: "auth_inv s" and room: "Sequence_Peek (NextNumber s) \<noteq> - 1"
    and acc: "acc = SetAccountNumber (Sequence_Peek (NextNumber s)) acc0" and new: "GetAccount s (GetAddress acc0) = None"
  defines "t \<equiv> s\<lparr>NextNumber := Some (Sequence_Peek (NextNumber s) + 1)\<rparr>"
  shows "\<exists>a. SetAccount acc t = (Inr (), t\<lparr>Accounts := a\<rparr>) \<and> auth_inv (t\<lparr>Accounts := a\<rparr>)
    \<and> (\<forall>addr. GetAccount (t\<lparr>Accounts := a\<rparr>) addr = (if addr = GetAddress acc0 then Some acc else GetAccount s addr))"
proof -
  let ?n = "Sequence_Peek (NextNumber s)"
  have co: "unique.coherent account_by_number (Accounts t)" using inv by (simp add: auth_inv_def auth_wf_def t_def)
  then have wf: "kv_wf (im_map (Accounts t))" by (simp add: unique.coherent_def)
  have gt: "GetAccount t addr = GetAccount s addr" for addr by (simp add: t_def GetAccount_def)
  have adr: "GetAddress acc = GetAddress acc0" "GetAccountNumber acc = ?n" by (simp_all add: acc)
  have "\<forall>addr acc'. addr \<noteq> GetAddress acc \<and> GetAccount t addr = Some acc' \<longrightarrow> GetAccountNumber acc' \<noteq> GetAccountNumber acc"
    using auth_invD[OF inv] unfolding gt adr by fastforce
  from SetAccount_run[OF co this] obtain a where a: "SetAccount acc t = (Inr (), t\<lparr>Accounts := a\<rparr>)"
    "unique.coherent account_by_number a" "im_map a = kv_set (im_map (Accounts t)) (GetAddress acc0) acc" unfolding adr by blast
  note g = GetAccount_set[OF wf a(3), unfolded gt]
  have lt: "?n < ?n + 1" by (rule uint64_less_succ[OF room])
  have "Sequence_Peek (NextNumber (t\<lparr>Accounts := a\<rparr>)) = ?n + 1" by (simp add: t_def Sequence_Peek_def)
  then have "auth_inv (t\<lparr>Accounts := a\<rparr>)"
    using inv a(2) lt unfolding auth_inv_def auth_wf_def g
    by (auto simp: acc intro: less_trans[OF _ lt])
  with a(1) g show ?thesis by blast
qed

lemma NextAccountNumber_eq:
  "NextAccountNumber s = (Inr (Sequence_Peek (NextNumber s)), s\<lparr>NextNumber := Some (Sequence_Peek (NextNumber s) + 1)\<rparr>)"
  by (simp add: NextAccountNumber_def Sequence_Next_def Let_def)

definition room :: "'x auth_state_scheme \<Rightarrow> bool" where
  "room s \<longleftrightarrow> Sequence_Peek (NextNumber s) \<noteq> - 1"

text \<open>The effect of creating an account: one more account, stored under its address, and
  nothing else of the state changes.\<close>

definition created :: "'x auth_state_scheme \<Rightarrow> AccAddress \<Rightarrow> AccountI \<Rightarrow> 'x auth_state_scheme \<Rightarrow> bool" where
  "created s addr acc s' \<longleftrightarrow> auth_wf s'
     \<and> (\<exists>a n. s' = s\<lparr>NextNumber := n, Accounts := a\<rparr>)
     \<and> (\<forall>addr'. GetAccount s' addr' = (if addr' = addr then Some acc else GetAccount s addr'))"

lemma create_base_account:
  assumes "auth_inv s" and "room s" and "GetAccount s addr = None"
  shows "\<exists>b s'. bind_op (NewAccountWithAddress addr) SetAccount s = (Inr (), s') \<and> Address b = addr
    \<and> created s addr (BaseAcc b) s' \<and> auth_inv s'"
proof -
  let ?b0 = "ProtoBaseAccount\<lparr>Address := addr\<rparr>" and ?n = "Sequence_Peek (NextNumber s)"
  let ?t = "s\<lparr>NextNumber := Some (?n + 1)\<rparr>" and ?b = "?b0\<lparr>AccountNumber := ?n\<rparr>"
  have g0: "GetAddress (BaseAcc ?b0) = addr" by (simp add: GetAddress_def)
  have b: "SetAccountNumber ?n (BaseAcc ?b0) = BaseAcc ?b" by (simp add: SetAccountNumber_def)
  from create_account[OF assms(1) _ refl, of "BaseAcc ?b0"] assms(2,3) obtain a where
    a: "SetAccount (BaseAcc ?b) ?t = (Inr (), ?t\<lparr>Accounts := a\<rparr>)" "auth_inv (?t\<lparr>Accounts := a\<rparr>)"
    "\<forall>addr'. GetAccount (?t\<lparr>Accounts := a\<rparr>) addr' = (if addr' = addr then Some (BaseAcc ?b) else GetAccount s addr')"
    unfolding b g0 room_def by blast
  have "NewAccountWithAddress addr s = (Inr (BaseAcc ?b), ?t)"
    by (simp add: NewAccountWithAddress_def BaseAccount_SetAddress_def ProtoBaseAccount_def NewAccount_def bind_op_run
        op_run NextAccountNumber_eq SetAccountNumber_def)
  then have "bind_op (NewAccountWithAddress addr) SetAccount s = (Inr (), ?t\<lparr>Accounts := a\<rparr>)"
    using a(1) by (simp add: bind_op_run)
  moreover have "created s addr (BaseAcc ?b) (?t\<lparr>Accounts := a\<rparr>)" using a by (auto simp: created_def auth_inv_def)
  moreover have "Address ?b = addr" by simp
  ultimately show ?thesis using a(2) by blast
qed

lemma create_module_account:
  assumes "auth_inv s" and "room s" and "permAddrs e name = Some perms" and "GetAccount s (mod_address e name) = None"
    and "validatePermissions perms = Inr ()"
  shows "\<exists>m s'. GetModuleAccount e name s = (Inr (Some m), s') \<and> Address (macc_base m) = mod_address e name
    \<and> macc_Name m = name \<and> Permissions m = perms \<and> created s (mod_address e name) (ModuleAcc m) s' \<and> auth_inv s'"
proof -
  let ?b0 = "NewBaseAccountWithAddress (mod_address e name)" and ?n = "Sequence_Peek (NextNumber s)"
  let ?m0 = "\<lparr>macc_base = ?b0, macc_Name = name, Permissions = perms\<rparr>"
  let ?t = "s\<lparr>NextNumber := Some (?n + 1)\<rparr>" and ?m = "?m0\<lparr>macc_base := ?b0\<lparr>AccountNumber := ?n\<rparr>\<rparr>"
  have g0: "GetAddress (ModuleAcc ?m0) = mod_address e name" by (simp add: GetAddress_def NewBaseAccountWithAddress_def)
  have b: "SetAccountNumber ?n (ModuleAcc ?m0) = ModuleAcc ?m" by (simp add: SetAccountNumber_def)
  from create_account[OF assms(1) _ refl, of "ModuleAcc ?m0"] assms(2,4) obtain a where
    a: "SetAccount (ModuleAcc ?m) ?t = (Inr (), ?t\<lparr>Accounts := a\<rparr>)" "auth_inv (?t\<lparr>Accounts := a\<rparr>)"
    "\<forall>addr'. GetAccount (?t\<lparr>Accounts := a\<rparr>) addr' = (if addr' = mod_address e name then Some (ModuleAcc ?m) else GetAccount s addr')"
    unfolding b g0 room_def by blast
  have "GetModuleAccountAndPermissions e name s = (Inr (Some ?m, perms), ?t\<lparr>Accounts := a\<rparr>)"
    using a(1) assms(3-5)
    by (simp add: GetModuleAccountAndPermissions_def GetModuleAddressAndPermissions_def NewEmptyModuleAccount_def
        bind_op_run op_run NextAccountNumber_eq Let_def)
  then have "GetModuleAccount e name s = (Inr (Some ?m), ?t\<lparr>Accounts := a\<rparr>)"
    by (simp add: GetModuleAccount_def bind_op_run op_run)
  moreover have "created s (mod_address e name) (ModuleAcc ?m) (?t\<lparr>Accounts := a\<rparr>)" using a by (auto simp: created_def auth_inv_def)
  ultimately show ?thesis using a(2)
    by (intro exI[of _ ?m] exI[of _ "?t\<lparr>Accounts := a\<rparr>"]) (simp add: NewBaseAccountWithAddress_def)
qed

section \<open>Inversion\<close>

lemma created_intro:
  assumes "auth_wf s" and "SetAccount acc (s\<lparr>NextNumber := n\<rparr>) = (Inr u, s')"
  shows "created s (GetAddress acc) acc s'"
proof -
  have "auth_wf (s\<lparr>NextNumber := n\<rparr>)" using assms(1) by (simp add: auth_wf_def GetAccount_def)
  from SetAccount_Inr[OF this assms(2)] show ?thesis by (auto simp: created_def GetAccount_def)
qed

lemma NewAccountWithAddress_Inr:
  assumes "auth_wf s" and "bind_op (NewAccountWithAddress addr) SetAccount s = (Inr u, s')"
  shows "\<exists>b. Address b = addr \<and> created s addr (BaseAcc b) s'"
proof -
  let ?b = "ProtoBaseAccount\<lparr>Address := addr, AccountNumber := Sequence_Peek (NextNumber s)\<rparr>"
  let ?t = "s\<lparr>NextNumber := Some (Sequence_Peek (NextNumber s) + 1)\<rparr>"
  have "NewAccountWithAddress addr s = (Inr (BaseAcc ?b), ?t)"
    by (simp add: NewAccountWithAddress_def BaseAccount_SetAddress_def ProtoBaseAccount_def NewAccount_def bind_op_run
        op_run NextAccountNumber_eq SetAccountNumber_def)
  then have "SetAccount (BaseAcc ?b) ?t = (Inr u, s')" using assms(2) by (simp add: bind_op_run)
  from created_intro[OF assms(1) this] show ?thesis by (intro exI[of _ ?b]) (simp add: GetAddress_def)
qed

lemma GetModuleAccount_Inr:
  assumes "auth_wf s" and "GetModuleAccount e name s = (Inr mo, s')"
  shows "mo = None \<and> s' = s \<and> permAddrs e name = None
    \<or> (\<exists>m perms. mo = Some m \<and> permAddrs e name = Some perms \<and> Address (macc_base m) = mod_address e name
        \<and> (s' = s \<and> GetAccount s (mod_address e name) = Some (ModuleAcc m)
           \<or> GetAccount s (mod_address e name) = None \<and> created s (mod_address e name) (ModuleAcc m) s'
             \<and> Permissions m = perms))"
proof (cases "permAddrs e name")
  case None
  then show ?thesis using assms(2)
    by (simp add: GetModuleAccount_def GetModuleAccountAndPermissions_def GetModuleAddressAndPermissions_def res_simps)
next
  case (Some perms)
  note gm = assms(2)[unfolded GetModuleAccount_def GetModuleAccountAndPermissions_def GetModuleAddressAndPermissions_def Some]
  show ?thesis
  proof (cases "GetAccount s (mod_address e name)")
    case None
    let ?n = "Sequence_Peek (NextNumber s)"
    let ?m = "\<lparr>macc_base = (NewBaseAccountWithAddress (mod_address e name))\<lparr>AccountNumber := ?n\<rparr>, macc_Name = name, Permissions = perms\<rparr>"
    have "mo = Some ?m" "SetAccount (ModuleAcc ?m) (s\<lparr>NextNumber := Some (?n + 1)\<rparr>) = (Inr (), s')"
      using gm None by (auto simp: res_simps NewEmptyModuleAccount_def NextAccountNumber_eq Let_def)
    with created_intro[OF assms(1) this(2)] None Some show ?thesis
      by (simp add: GetAddress_def NewBaseAccountWithAddress_def)
  next
    case acc: (Some acc)
    have "GetAddress acc = mod_address e name" using assms(1) acc by (simp add: auth_wf_def)
    then show ?thesis using gm acc Some by (cases acc) (auto simp: res_simps GetAddress_def)
  qed
qed

end
