(* ===== verification/Bank.thy ===== *)
theory Bank
  imports Vesting Auth
begin

text \<open>
  The bank keeper: \<^verbatim>\<open>src/x/bank/keeper/\<close> (\<open>view.go\<close>, \<open>send.go\<close>, \<open>keeper.go\<close>, \<open>invariants.go\<close>,
  \<open>msg_server.go\<close>) and the message types of \<^verbatim>\<open>src/x/bank/types/\<close>. The state extends the one of
  the account keeper. Balances are an indexed map from address and denomination with the
  reverse pair index by denomination. Events, logging and telemetry have no effect on the
  state and are left out. The decoders of address strings are parameters.
\<close>

section \<open>State\<close>

text \<open>Keys of balances are ordered like their encoding, in which the address has its length
  first. An address that is too long for that has no encoding.\<close>

type_synonym addr_key = "nat \<times> AccAddress"

definition balance_key :: "AccAddress \<Rightarrow> string \<Rightarrow> addr_key \<times> string" where
  "balance_key addr denom = ((length addr, addr), denom)"

definition encodable :: "AccAddress \<Rightarrow> bool" where
  "encodable addr \<longleftrightarrow> length addr \<le> MaxBytesKeyNonTerminalSize"

record SendEnabled =
  se_Denom :: string
  se_Enabled :: bool

record bank_Params =
  params_SendEnabled :: "SendEnabled list"
  DefaultSendEnabled :: bool

type_synonym balances = "(addr_key \<times> string, sdk_Int, (string \<times> addr_key, unit) kvmap) imap"

record bank_state = auth_state +
  Supply :: "(string, sdk_Int) kvmap"
  SendEnabledMap :: "(string, bool) kvmap"
  Balances :: balances
  BankParams :: "bank_Params option"

text \<open>What the keeper is built with, and the time of the block it runs in.\<close>

record bank_env = auth_env +
  blockedAddrs :: "AccAddress \<Rightarrow> bool"
  mintCoinsRestrictionFn :: "Coins \<Rightarrow> unit res"
  authority :: string
  StringToBytes :: "string \<Rightarrow> AccAddress res"
  AccAddressFromBech32 :: "string \<Rightarrow> AccAddress res"
  BlockTime :: int64

definition Balances_Get :: "'x bank_state_scheme \<Rightarrow> AccAddress \<Rightarrow> string \<Rightarrow> sdk_Int option" where
  "Balances_Get s addr denom =
     (if encodable addr then IndexedMap_Get (Balances s) (balance_key addr denom) else None)"

definition on_balances :: "AccAddress \<Rightarrow> (balances, unit) op \<Rightarrow> ('x bank_state_scheme, unit) op" where
  "on_balances addr m s =
     (if encodable addr then case m (Balances s) of (r, b) \<Rightarrow> (r, s\<lparr>Balances := b\<rparr>)
      else (Inl (Err ''bytes key non terminal size''), s))"

definition pure_op :: "('s \<Rightarrow> 'a res) \<Rightarrow> ('s, 'a) op" where
  "pure_op f s = (f s, s)"

section \<open>View keeper\<close>

definition GetBalance :: "'x bank_state_scheme \<Rightarrow> AccAddress \<Rightarrow> string \<Rightarrow> Coin res" where
  "GetBalance s addr denom =
     (case Balances_Get s addr denom of None \<Rightarrow> NewCoin denom ZeroInt | Some amount \<Rightarrow> NewCoin denom amount)"

definition HasBalance :: "'x bank_state_scheme \<Rightarrow> AccAddress \<Rightarrow> Coin \<Rightarrow> bool res" where
  "HasBalance s addr amount = bind_r (GetBalance s addr (Denom amount)) (\<lambda>b. Coin_IsGTE b amount)"

text \<open>The walks over balances, for callbacks that never stop them.\<close>

definition IterateAccountBalances :: "('b \<Rightarrow> Coin \<Rightarrow> 'b res) \<Rightarrow> 'b \<Rightarrow> 'x bank_state_scheme \<Rightarrow> AccAddress \<Rightarrow> 'b res" where
  "IterateAccountBalances cb acc s addr =
     (if \<not> encodable addr then Inl (Panic ''bytes key non terminal size'')
      else fold_r (\<lambda>acc (key, value). bind_r (NewCoin (snd key) value) (cb acc)) acc
        (filter (\<lambda>(key, _). fst key = (length addr, addr)) (im_map (Balances s))))"

definition IterateAllBalances :: "('b \<Rightarrow> AccAddress \<Rightarrow> Coin \<Rightarrow> 'b res) \<Rightarrow> 'b \<Rightarrow> 'x bank_state_scheme \<Rightarrow> 'b res" where
  "IterateAllBalances cb acc s =
     fold_r (\<lambda>acc (key, value). bind_r (NewCoin (snd key) value) (cb acc (snd (fst key)))) acc (im_map (Balances s))"

definition GetAllBalances :: "'x bank_state_scheme \<Rightarrow> AccAddress \<Rightarrow> Coins res" where
  "GetAllBalances s addr =
     bind_r (NewCoins []) (\<lambda>balances.
     bind_r (IterateAccountBalances (\<lambda>balances balance. Coins_Add balances [balance]) balances s addr) (\<lambda>balances.
     Inr (Coins_Sort balances)))"

definition LockedCoins :: "'e bank_env_scheme \<Rightarrow> 'x bank_state_scheme \<Rightarrow> AccAddress \<Rightarrow> Coins res" where
  "LockedCoins e s addr =
     (case GetAccount s addr of
        Some acc \<Rightarrow> (case vesting_of acc of Some _ \<Rightarrow> Account_LockedCoins acc (BlockTime e) | None \<Rightarrow> NewCoins [])
      | None \<Rightarrow> NewCoins [])"

definition spendableCoins :: "'e bank_env_scheme \<Rightarrow> 'x bank_state_scheme \<Rightarrow> AccAddress \<Rightarrow> (Coins \<times> Coins) res" where
  "spendableCoins e s addr =
     bind_r (GetAllBalances s addr) (\<lambda>total.
     bind_r (LockedCoins e s addr) (\<lambda>locked.
     bind_r (Coins_SafeSub total locked) (\<lambda>(spendable, hasNeg).
       if hasNeg then bind_r (NewCoins []) (\<lambda>spendable. Inr (spendable, total)) else Inr (spendable, total))))"

definition SpendableCoins :: "'e bank_env_scheme \<Rightarrow> 'x bank_state_scheme \<Rightarrow> AccAddress \<Rightarrow> Coins res" where
  "SpendableCoins e s addr = bind_r (spendableCoins e s addr) (\<lambda>(spendable, _). Inr spendable)"

definition SpendableCoin :: "'e bank_env_scheme \<Rightarrow> 'x bank_state_scheme \<Rightarrow> AccAddress \<Rightarrow> string \<Rightarrow> Coin res" where
  "SpendableCoin e s addr denom =
     bind_r (GetBalance s addr denom) (\<lambda>balance.
     bind_r (LockedCoins e s addr) (\<lambda>locked.
     bind_r (AmountOf locked denom) (\<lambda>a. Coin_SubAmount balance a)))"

definition ValidateBalance :: "'x bank_state_scheme \<Rightarrow> AccAddress \<Rightarrow> unit res" where
  "ValidateBalance s addr =
     (case GetAccount s addr of
        None \<Rightarrow> Inl (Err ''account does not exist'')
      | Some acc \<Rightarrow>
          bind_r (GetAllBalances s addr) (\<lambda>balances.
          if \<not> Coins_IsValid balances then Inl (Err ''account balance is invalid'')
          else case vesting_of acc of
              None \<Rightarrow> Inr ()
            | Some vacc \<Rightarrow>
                bind_r (IsAnyGT (OriginalVesting vacc) balances) (\<lambda>gt.
                  if gt then Inl (Err ''vesting amount cannot be greater than total amount'') else Inr ())))"

section \<open>Send keeper\<close>

definition setBalance :: "AccAddress \<Rightarrow> Coin \<Rightarrow> ('x bank_state_scheme, unit) op" where
  "setBalance addr balance =
     (if \<not> Coin_IsValid balance then fail_op (Err ''invalid coins'')
      else if Coin_IsZero balance
      then on_balances addr (IndexedMap_Remove ReversePair_Unreference (balance_key addr (Denom balance)))
      else on_balances addr (IndexedMap_Set ReversePair_Reference (balance_key addr (Denom balance)) (Amount balance)))"

text \<open>The body of the loop of \<open>subUnlockedCoins\<close>.\<close>

definition subUnlockedCoin :: "AccAddress \<Rightarrow> Coins \<Rightarrow> Coin \<Rightarrow> ('x bank_state_scheme, unit) op" where
  "subUnlockedCoin addr lockedCoins c =
     bind_op (pure_op (\<lambda>s. GetBalance s addr (Denom c))) (\<lambda>balance.
     bind_op (lift_op (bind_r (AmountOf lockedCoins (Denom c)) (NewCoin (Denom c)))) (\<lambda>locked.
     bind_op (lift_op (Coins_SafeSub [balance] [locked])) (\<lambda>(spendable, hasNeg).
     if hasNeg then fail_op (Err ''locked amount exceeds account balance funds'')
     else bind_op (lift_op (Coins_SafeSub spendable [c])) (\<lambda>(_, hasNeg).
     if hasNeg then fail_op (Err ''spendable balance is smaller'')
     else bind_op (lift_op (Coin_Sub balance c)) (setBalance addr)))))"

definition subUnlockedCoins :: "'e bank_env_scheme \<Rightarrow> AccAddress \<Rightarrow> Coins \<Rightarrow> ('x bank_state_scheme, unit) op" where
  "subUnlockedCoins e addr amount =
     (if \<not> Coins_IsValid amount then fail_op (Err ''invalid coins'')
      else bind_op (pure_op (\<lambda>s. LockedCoins e s addr)) (\<lambda>lockedCoins. for_op (subUnlockedCoin addr lockedCoins) amount))"

definition addCoin :: "AccAddress \<Rightarrow> Coin \<Rightarrow> ('x bank_state_scheme, unit) op" where
  "addCoin addr c =
     bind_op (pure_op (\<lambda>s. GetBalance s addr (Denom c))) (\<lambda>balance.
     bind_op (lift_op (Coin_Add balance c)) (setBalance addr))"

definition addCoins :: "AccAddress \<Rightarrow> Coins \<Rightarrow> ('x bank_state_scheme, unit) op" where
  "addCoins addr amount =
     (if \<not> Coins_IsValid amount then fail_op (Err ''invalid coins'') else for_op (addCoin addr) amount)"

text \<open>Both kinds of transfer create the recipient if it does not exist.\<close>

definition ensureAccount :: "AccAddress \<Rightarrow> ('x auth_state_scheme, unit) op" where
  "ensureAccount addr s =
     (if \<not> HasAccount s addr then bind_op (NewAccountWithAddress addr) SetAccount s else (Inr (), s))"

definition SendCoins :: "'e bank_env_scheme \<Rightarrow> AccAddress \<Rightarrow> AccAddress \<Rightarrow> Coins \<Rightarrow> ('x bank_state_scheme, unit) op" where
  "SendCoins e fromAddr toAddr amount =
     seq_op (subUnlockedCoins e fromAddr amount) (seq_op (addCoins toAddr amount) (ensureAccount toAddr))"

record Input =
  in_Address :: string
  in_Coins :: Coins

record Output =
  out_Address :: string
  out_Coins :: Coins

definition Input_ValidateBasic :: "'e bank_env_scheme \<Rightarrow> Input \<Rightarrow> unit res" where
  "Input_ValidateBasic e i =
     bind_r (AccAddressFromBech32 e (in_Address i)) (\<lambda>_.
       if \<not> Coins_IsValid (in_Coins i) then Inl (Err ''invalid coins'')
       else if \<not> Coins_IsAllPositive (in_Coins i) then Inl (Err ''invalid coins'') else Inr ())"

definition Output_ValidateBasic :: "'e bank_env_scheme \<Rightarrow> Output \<Rightarrow> unit res" where
  "Output_ValidateBasic e out =
     bind_r (AccAddressFromBech32 e (out_Address out)) (\<lambda>_.
       if \<not> Coins_IsValid (out_Coins out) then Inl (Err ''invalid coins'')
       else if \<not> Coins_IsAllPositive (out_Coins out) then Inl (Err ''invalid coins'') else Inr ())"

definition ValidateInputOutputs :: "'e bank_env_scheme \<Rightarrow> Input \<Rightarrow> Output list \<Rightarrow> unit res" where
  "ValidateInputOutputs e input outputs =
     bind_r (Input_ValidateBasic e input) (\<lambda>_.
     bind_r (fold_r (\<lambda>totalOut out. bind_r (Output_ValidateBasic e out) (\<lambda>_. Coins_Add totalOut (out_Coins out))) [] outputs)
       (\<lambda>totalOut. if \<not> Coins_Equal (in_Coins input) totalOut then Inl (Err ''sum inputs != sum outputs'') else Inr ()))"

definition credit_output :: "'e bank_env_scheme \<Rightarrow> Output \<Rightarrow> ('x bank_state_scheme, unit) op" where
  "credit_output e out =
     bind_op (lift_op (StringToBytes e (out_Address out))) (\<lambda>outAddress.
       seq_op (addCoins outAddress (out_Coins out)) (ensureAccount outAddress))"

definition InputOutputCoins :: "'e bank_env_scheme \<Rightarrow> Input \<Rightarrow> Output list \<Rightarrow> ('x bank_state_scheme, unit) op" where
  "InputOutputCoins e input outputs =
     seq_op (lift_op (ValidateInputOutputs e input outputs))
       (bind_op (lift_op (StringToBytes e (in_Address input))) (\<lambda>inAddress.
        seq_op (subUnlockedCoins e inAddress (in_Coins input)) (for_op (credit_output e) outputs)))"

section \<open>Send-enabled flags and parameters\<close>

definition GetParams :: "'x bank_state_scheme \<Rightarrow> bank_Params" where
  "GetParams s = (case BankParams s of Some p \<Rightarrow> p | None \<Rightarrow> \<lparr>params_SendEnabled = [], DefaultSendEnabled = False\<rparr>)"

definition SetSendEnabled :: "string \<Rightarrow> bool \<Rightarrow> 'x bank_state_scheme \<Rightarrow> 'x bank_state_scheme" where
  "SetSendEnabled denom v s = s\<lparr>SendEnabledMap := kv_set (SendEnabledMap s) denom v\<rparr>"

definition SetAllSendEnabled :: "SendEnabled list \<Rightarrow> 'x bank_state_scheme \<Rightarrow> 'x bank_state_scheme" where
  "SetAllSendEnabled entries s = foldl (\<lambda>s entry. SetSendEnabled (se_Denom entry) (se_Enabled entry) s) s entries"

definition DeleteSendEnabled :: "string list \<Rightarrow> 'x bank_state_scheme \<Rightarrow> 'x bank_state_scheme" where
  "DeleteSendEnabled denoms s =
     foldl (\<lambda>s denom. s\<lparr>SendEnabledMap := kv_del (SendEnabledMap s) denom\<rparr>) s denoms"

definition SetParams :: "bank_Params \<Rightarrow> ('x bank_state_scheme, unit) op" where
  "SetParams params s =
     (if length (params_SendEnabled params) > 0
      then (Inr (), (SetAllSendEnabled (params_SendEnabled params) s)
              \<lparr>BankParams := Some \<lparr>params_SendEnabled = [], DefaultSendEnabled = DefaultSendEnabled params\<rparr>\<rparr>)
      else (Inr (), s\<lparr>BankParams := Some params\<rparr>))"

definition getSendEnabled :: "'x bank_state_scheme \<Rightarrow> string \<Rightarrow> bool option" where
  "getSendEnabled s denom = kv_get (SendEnabledMap s) denom"

definition getSendEnabledOrDefault :: "'x bank_state_scheme \<Rightarrow> string \<Rightarrow> bool \<Rightarrow> bool" where
  "getSendEnabledOrDefault s denom defaultVal =
     (case getSendEnabled s denom of Some sendEnabled \<Rightarrow> sendEnabled | None \<Rightarrow> defaultVal)"

definition IsSendEnabledDenom :: "'x bank_state_scheme \<Rightarrow> string \<Rightarrow> bool" where
  "IsSendEnabledDenom s denom = getSendEnabledOrDefault s denom (DefaultSendEnabled (GetParams s))"

definition IsSendEnabledCoins :: "'x bank_state_scheme \<Rightarrow> Coins \<Rightarrow> unit res" where
  "IsSendEnabledCoins s coins =
     (if length coins = 0 then Inr ()
      else let defaultVal = DefaultSendEnabled (GetParams s) in
        if list_ex (\<lambda>c. \<not> getSendEnabledOrDefault s (Denom c) defaultVal) coins
        then Inl (Err ''transfers are currently disabled'') else Inr ())"

section \<open>Supply\<close>

definition GetSupply :: "'x bank_state_scheme \<Rightarrow> string \<Rightarrow> Coin res" where
  "GetSupply s denom = (case kv_get (Supply s) denom of None \<Rightarrow> NewCoin denom ZeroInt | Some amount \<Rightarrow> NewCoin denom amount)"

definition HasSupply :: "'x bank_state_scheme \<Rightarrow> string \<Rightarrow> bool" where
  "HasSupply s denom = kv_has (Supply s) denom"

definition setSupply :: "Coin \<Rightarrow> ('x bank_state_scheme, unit) op" where
  "setSupply c =
     modify_op (\<lambda>s. if Coin_IsZero c then s\<lparr>Supply := kv_del (Supply s) (Denom c)\<rparr>
                    else s\<lparr>Supply := kv_set (Supply s) (Denom c) (Amount c)\<rparr>)"

text \<open>The total supply, for a page limit that the number of denominations does not reach.\<close>

definition GetPaginatedTotalSupply :: "'x bank_state_scheme \<Rightarrow> Coins res" where
  "GetPaginatedTotalSupply s =
     bind_r (NewCoins []) (\<lambda>coins.
       fold_r (\<lambda>coins (key, value). bind_r (NewCoin key value) (\<lambda>c. Coins_Add coins [c])) coins (Supply s))"

definition Minter :: string where "Minter = ''minter''"

definition Burner :: string where "Burner = ''burner''"

definition Staking :: string where "Staking = ''staking''"

definition mint_supply :: "Coin \<Rightarrow> ('x bank_state_scheme, unit) op" where
  "mint_supply amount =
     bind_op (pure_op (\<lambda>s. GetSupply s (Denom amount))) (\<lambda>supply.
     bind_op (lift_op (Coin_Add supply amount)) setSupply)"

definition burn_supply :: "Coin \<Rightarrow> ('x bank_state_scheme, unit) op" where
  "burn_supply amount =
     bind_op (pure_op (\<lambda>s. GetSupply s (Denom amount))) (\<lambda>supply.
     bind_op (lift_op (Coin_Sub supply amount)) setSupply)"

text \<open>The module account a keeper function acts for; it panics if there is none or if it lacks
  the permission.\<close>

definition authorized_module :: "'e auth_env_scheme \<Rightarrow> string \<Rightarrow> string option \<Rightarrow> ('x auth_state_scheme, AccAddress) op" where
  "authorized_module e moduleName permission =
     bind_op (GetModuleAccount e moduleName) (\<lambda>acc.
       case acc of
         None \<Rightarrow> fail_op (Panic ''module account does not exist'')
       | Some macc \<Rightarrow>
           if case permission of None \<Rightarrow> True | Some p \<Rightarrow> HasPermission (Permissions macc) p
           then ret_op (Address (macc_base macc))
           else fail_op (Panic ''module account does not have permissions''))"

definition MintCoins :: "'e bank_env_scheme \<Rightarrow> string \<Rightarrow> Coins \<Rightarrow> ('x bank_state_scheme, unit) op" where
  "MintCoins e moduleName amounts =
     seq_op (lift_op (mintCoinsRestrictionFn e amounts))
       (bind_op (authorized_module e moduleName (Some Minter)) (\<lambda>addr.
          seq_op (addCoins addr amounts) (for_op mint_supply amounts)))"

definition BurnCoins :: "'e bank_env_scheme \<Rightarrow> string \<Rightarrow> Coins \<Rightarrow> ('x bank_state_scheme, unit) op" where
  "BurnCoins e moduleName amounts =
     bind_op (authorized_module e moduleName (Some Burner)) (\<lambda>addr.
       seq_op (subUnlockedCoins e addr amounts) (for_op burn_supply amounts))"

section \<open>Transfers of modules\<close>

definition SendCoinsFromModuleToAccount ::
    "'e bank_env_scheme \<Rightarrow> string \<Rightarrow> AccAddress \<Rightarrow> Coins \<Rightarrow> ('x bank_state_scheme, unit) op" where
  "SendCoinsFromModuleToAccount e senderModule recipientAddr amount =
     (case GetModuleAddress e senderModule of
        None \<Rightarrow> fail_op (Panic ''module account does not exist'')
      | Some senderAddr \<Rightarrow>
          if blockedAddrs e recipientAddr then fail_op (Err ''not allowed to receive funds'')
          else SendCoins e senderAddr recipientAddr amount)"

definition SendCoinsFromModuleToModule ::
    "'e bank_env_scheme \<Rightarrow> string \<Rightarrow> string \<Rightarrow> Coins \<Rightarrow> ('x bank_state_scheme, unit) op" where
  "SendCoinsFromModuleToModule e senderModule recipientModule amount =
     (case GetModuleAddress e senderModule of
        None \<Rightarrow> fail_op (Panic ''module account does not exist'')
      | Some senderAddr \<Rightarrow>
          bind_op (authorized_module e recipientModule None) (\<lambda>recipient. SendCoins e senderAddr recipient amount))"

definition SendCoinsFromAccountToModule ::
    "'e bank_env_scheme \<Rightarrow> AccAddress \<Rightarrow> string \<Rightarrow> Coins \<Rightarrow> ('x bank_state_scheme, unit) op" where
  "SendCoinsFromAccountToModule e senderAddr recipientModule amount =
     bind_op (authorized_module e recipientModule None) (\<lambda>recipient. SendCoins e senderAddr recipient amount)"

section \<open>Delegations\<close>

definition trackDelegation :: "'e bank_env_scheme \<Rightarrow> AccAddress \<Rightarrow> Coins \<Rightarrow> Coins \<Rightarrow> ('x bank_state_scheme, unit) op" where
  "trackDelegation e addr balance amount s =
     (case GetAccount s addr of
        None \<Rightarrow> (Inl (Err ''account does not exist''), s)
      | Some acc \<Rightarrow>
          (case vesting_of acc of
             None \<Rightarrow> (Inr (), s)
           | Some _ \<Rightarrow> bind_op (lift_op (Account_TrackDelegation acc (BlockTime e) balance amount)) SetAccount s))"

definition trackUndelegation :: "AccAddress \<Rightarrow> Coins \<Rightarrow> ('x bank_state_scheme, unit) op" where
  "trackUndelegation addr amount s =
     (case GetAccount s addr of
        None \<Rightarrow> (Inl (Err ''account does not exist''), s)
      | Some acc \<Rightarrow>
          (case vesting_of acc of
             None \<Rightarrow> (Inr (), s)
           | Some _ \<Rightarrow> bind_op (lift_op (Account_TrackUndelegation acc amount)) SetAccount s))"

text \<open>The loop of \<open>DelegateCoins\<close>: it collects the balances before it lowers them.\<close>

definition delegateCoin :: "AccAddress \<Rightarrow> Coins \<Rightarrow> Coin \<Rightarrow> ('x bank_state_scheme, Coins) op" where
  "delegateCoin addr balances c =
     bind_op (pure_op (\<lambda>s. GetBalance s addr (Denom c))) (\<lambda>balance.
     bind_op (lift_op (Coin_IsLT balance c)) (\<lambda>lt.
     if lt then fail_op (Err ''failed to delegate'')
     else bind_op (lift_op (Coins_Add balances [balance])) (\<lambda>balances'.
       bind_op (lift_op (Coin_Sub balance c)) (\<lambda>newBalance.
       seq_op (setBalance addr newBalance) (ret_op balances')))))"

definition DelegateCoins :: "'e bank_env_scheme \<Rightarrow> AccAddress \<Rightarrow> AccAddress \<Rightarrow> Coins \<Rightarrow> ('x bank_state_scheme, unit) op" where
  "DelegateCoins e delegatorAddr moduleAccAddr amount s =
     (if GetAccount s moduleAccAddr = None then (Inl (Err ''module account does not exist''), s)
      else if \<not> Coins_IsValid amount then (Inl (Err ''invalid coins''), s)
      else
        bind_op (lift_op (NewCoins [])) (\<lambda>balances.
        bind_op (fold_op (delegateCoin delegatorAddr) balances amount) (\<lambda>balances.
        seq_op (trackDelegation e delegatorAddr balances amount) (addCoins moduleAccAddr amount))) s)"

definition UndelegateCoins :: "'e bank_env_scheme \<Rightarrow> AccAddress \<Rightarrow> AccAddress \<Rightarrow> Coins \<Rightarrow> ('x bank_state_scheme, unit) op" where
  "UndelegateCoins e moduleAccAddr delegatorAddr amount s =
     (if GetAccount s moduleAccAddr = None then (Inl (Err ''module account does not exist''), s)
      else if \<not> Coins_IsValid amount then (Inl (Err ''invalid coins''), s)
      else
        seq_op (subUnlockedCoins e moduleAccAddr amount)
          (seq_op (trackUndelegation delegatorAddr amount) (addCoins delegatorAddr amount)) s)"

definition DelegateCoinsFromAccountToModule ::
    "'e bank_env_scheme \<Rightarrow> AccAddress \<Rightarrow> string \<Rightarrow> Coins \<Rightarrow> ('x bank_state_scheme, unit) op" where
  "DelegateCoinsFromAccountToModule e senderAddr recipientModule amount =
     bind_op (authorized_module e recipientModule (Some Staking)) (\<lambda>recipient. DelegateCoins e senderAddr recipient amount)"

definition UndelegateCoinsFromModuleToAccount ::
    "'e bank_env_scheme \<Rightarrow> string \<Rightarrow> AccAddress \<Rightarrow> Coins \<Rightarrow> ('x bank_state_scheme, unit) op" where
  "UndelegateCoinsFromModuleToAccount e senderModule recipientAddr amount =
     bind_op (authorized_module e senderModule (Some Staking)) (\<lambda>sender. UndelegateCoins e sender recipientAddr amount)"

section \<open>Invariants the module registers\<close>

definition NonnegativeBalanceInvariant :: "'x bank_state_scheme \<Rightarrow> bool res" where
  "NonnegativeBalanceInvariant s =
     bind_r (IterateAllBalances (\<lambda>count _ balance. Inr (if Coin_IsNegative balance then count + 1 else count)) (0 :: nat) s)
       (\<lambda>count. Inr (count \<noteq> 0))"

definition TotalSupply :: "'x bank_state_scheme \<Rightarrow> bool res" where
  "TotalSupply s =
     bind_r (GetPaginatedTotalSupply s) (\<lambda>supply.
     bind_r (IterateAllBalances (\<lambda>expectedTotal _ balance. Coins_Add expectedTotal [balance]) [] s) (\<lambda>expectedTotal.
     Inr (\<not> Coins_Equal expectedTotal supply)))"

section \<open>Messages\<close>

record MsgSend =
  FromAddress :: string
  ToAddress :: string
  send_Amount :: Coins

record MsgMultiSend =
  Inputs :: "Input list"
  Outputs :: "Output list"

record MsgUpdateParams =
  up_Authority :: string
  up_Params :: bank_Params

record MsgSetSendEnabled =
  sse_Authority :: string
  sse_SendEnabled :: "SendEnabled list"
  UseDefaultFor :: "string list"

definition Send :: "'e bank_env_scheme \<Rightarrow> MsgSend \<Rightarrow> ('x bank_state_scheme, unit) op" where
  "Send e msg =
     bind_op (lift_op (StringToBytes e (FromAddress msg))) (\<lambda>from.
     bind_op (lift_op (StringToBytes e (ToAddress msg))) (\<lambda>to.
     if \<not> Coins_IsValid (send_Amount msg) then fail_op (Err ''invalid coins'')
     else if \<not> Coins_IsAllPositive (send_Amount msg) then fail_op (Err ''invalid coins'')
     else seq_op (pure_op (\<lambda>s. IsSendEnabledCoins s (send_Amount msg)))
       (if blockedAddrs e to then fail_op (Err ''not allowed to receive funds'')
        else SendCoins e from to (send_Amount msg))))"

definition check_recipient :: "'e bank_env_scheme \<Rightarrow> Output \<Rightarrow> ('x bank_state_scheme, unit) op" where
  "check_recipient e out =
     bind_op (lift_op (StringToBytes e (out_Address out))) (\<lambda>accAddr.
       if blockedAddrs e accAddr then fail_op (Err ''not allowed to receive funds'') else ret_op ())"

definition MultiSend :: "'e bank_env_scheme \<Rightarrow> MsgMultiSend \<Rightarrow> ('x bank_state_scheme, unit) op" where
  "MultiSend e msg =
     (case Inputs msg of
        [] \<Rightarrow> fail_op (Err ''no inputs to send transaction'')
      | [input] \<Rightarrow>
          if Outputs msg = [] then fail_op (Err ''no outputs to send transaction'')
          else seq_op (lift_op (ValidateInputOutputs e input (Outputs msg)))
            (seq_op (pure_op (\<lambda>s. IsSendEnabledCoins s (in_Coins input)))
              (seq_op (for_op (check_recipient e) (Outputs msg)) (InputOutputCoins e input (Outputs msg))))
      | _ \<Rightarrow> fail_op (Err ''multiple senders not allowed''))"

definition Params_Validate :: "bank_Params \<Rightarrow> unit res" where
  "Params_Validate p =
     (if length (params_SendEnabled p) > 0 then Inl (Err ''use of send_enabled in params is no longer supported'')
      else Inr ())"

definition UpdateParams :: "'e bank_env_scheme \<Rightarrow> MsgUpdateParams \<Rightarrow> ('x bank_state_scheme, unit) op" where
  "UpdateParams e req =
     (if authority e \<noteq> up_Authority req then fail_op (Err ''invalid authority'')
      else seq_op (lift_op (Params_Validate (up_Params req))) (SetParams (up_Params req)))"

text \<open>The check of the entries keeps the denominations seen so far.\<close>

fun check_entries :: "string list \<Rightarrow> SendEnabled list \<Rightarrow> unit res" where
  "check_entries seen [] = Inr ()"
| "check_entries seen (se # ses) =
     (if se_Denom se \<in> set seen then Inl (Err ''duplicate denom entries found'')
      else bind_r (ValidateDenom (se_Denom se)) (\<lambda>_. check_entries (se_Denom se # seen) ses))"

definition SetSendEnabled_msg :: "'e bank_env_scheme \<Rightarrow> MsgSetSendEnabled \<Rightarrow> ('x bank_state_scheme, unit) op" where
  "SetSendEnabled_msg e msg =
     (if authority e \<noteq> sse_Authority msg then fail_op (Err ''invalid authority'')
      else seq_op (lift_op (check_entries [] (sse_SendEnabled msg)))
        (seq_op (lift_op (bind_r (map_r ValidateDenom (UseDefaultFor msg)) (\<lambda>_. Inr ())))
          (modify_op (\<lambda>s. DeleteSendEnabled (UseDefaultFor msg) (SetAllSendEnabled (sse_SendEnabled msg) s)))))"

end
