(* ===== verification/BankLedger.thy ===== *)
theory BankLedger
  imports Bank
begin

text \<open>
  The bank keeper as a ledger. \<open>bal\<close> and \<open>sup\<close> read the balances and the supply as functions;
  \<open>held\<close> is the sum of the balances of a denomination. The lemmas give the exact effect of the
  operations that change balances, including when they fail.
\<close>

section \<open>The abstract ledger\<close>

definition bal :: "'x bank_state_scheme \<Rightarrow> AccAddress \<Rightarrow> string \<Rightarrow> int" where
  "bal s addr d = (case Balances_Get s addr d of None \<Rightarrow> 0 | Some v \<Rightarrow> v)"

definition sup :: "'x bank_state_scheme \<Rightarrow> string \<Rightarrow> int" where
  "sup s d = (case kv_get (Supply s) d of None \<Rightarrow> 0 | Some v \<Rightarrow> v)"

abbreviation of_denom :: "string \<Rightarrow> addr_key \<times> string \<Rightarrow> sdk_Int \<Rightarrow> int" where
  "of_denom d \<equiv> \<lambda>k v. if snd k = d then v else 0"

definition held :: "'x bank_state_scheme \<Rightarrow> string \<Rightarrow> int" where
  "held s d = kv.total (of_denom d) (im_map (Balances s))"

definition bal_ok :: "'x bank_state_scheme \<Rightarrow> bool" where
  "bal_ok s \<longleftrightarrow> reverse.coherent (Balances s)
     \<and> (\<forall>k v. kv_get (im_map (Balances s)) k = Some v \<longrightarrow> 0 < v \<and> wf_Int v \<and> reDnm_MatchString (snd k))"

definition sup_ok :: "'x bank_state_scheme \<Rightarrow> bool" where
  "sup_ok s \<longleftrightarrow> kv_wf (Supply s) \<and> (\<forall>d v. kv_get (Supply s) d = Some v \<longrightarrow> 0 < v \<and> wf_Int v \<and> reDnm_MatchString d)"

text \<open>Only the balances of \<open>addr\<close> change, by \<open>g\<close>.\<close>

definition shift :: "AccAddress \<Rightarrow> (string \<Rightarrow> int) \<Rightarrow> 'x bank_state_scheme \<Rightarrow> 'x bank_state_scheme \<Rightarrow> bool" where
  "shift addr g s s' \<longleftrightarrow> bal_ok s' \<and> (\<exists>b. s' = s\<lparr>Balances := b\<rparr>)
     \<and> (\<forall>a d. bal s' a d = bal s a d + (if a = addr then g d else 0)) \<and> (\<forall>d. held s' d = held s d + g d)"

lemma shift_trans:
  "shift addr g s s' \<Longrightarrow> shift addr h s' s'' \<Longrightarrow> (\<And>d. k d = g d + h d) \<Longrightarrow> shift addr k s s''"
  by (auto simp: shift_def)

lemma shift_cong: "shift addr g s s' \<Longrightarrow> (\<And>d. g d = h d) \<Longrightarrow> shift addr h s s'"
  by (auto simp: shift_def)

lemma shift_refl: "bal_ok s \<Longrightarrow> shift addr (\<lambda>_. 0) s s"
  by (auto simp: shift_def intro: exI[of _ "Balances s"])

lemma wf_Int_0 [simp]: "wf_Int 0"
  by (simp add: wf_Int_def)

lemma bal_facts:
  assumes "bal_ok s"
  shows "0 \<le> bal s addr d" "wf_Int (bal s addr d)" "bal s addr d \<le> held s d" "bal s addr d \<noteq> 0 \<Longrightarrow> reDnm_MatchString d"
proof -
  let ?m = "im_map (Balances s)"
  have wf: "kv_wf ?m" using assms by (simp add: bal_ok_def reverse.coherent_def)
  have ent: "kv_get ?m k = Some v \<Longrightarrow> 0 < v \<and> wf_Int v \<and> reDnm_MatchString (snd k)" for k v
    using assms unfolding bal_ok_def by blast
  show "0 \<le> bal s addr d" "wf_Int (bal s addr d)" "bal s addr d \<noteq> 0 \<Longrightarrow> reDnm_MatchString d"
    using ent[of "balance_key addr d"]
    by (auto simp: bal_def Balances_Get_def IndexedMap_Get_def balance_key_def split: option.splits if_splits)
  have "bal s addr d \<le> kv.at (of_denom d) ?m (balance_key addr d)"
    using ent[of "balance_key addr d"]
    by (auto simp: bal_def Balances_Get_def IndexedMap_Get_def balance_key_def kv.at_def split: option.splits)
  also have "\<dots> \<le> held s d" unfolding held_def
    using ent by (intro kv.at_le_total[OF wf]) (auto simp: less_imp_le)
  finally show "bal s addr d \<le> held s d" .
qed

lemma sup_facts: "sup_ok s \<Longrightarrow> 0 \<le> sup s d \<and> wf_Int (sup s d)"
  by (auto simp: sup_ok_def sup_def less_imp_le split: option.splits)

lemma GetBalance_eq:
  assumes "bal_ok s" and "reDnm_MatchString d"
  shows "GetBalance s addr d = Inr (coin d (bal s addr d))"
  using bal_facts(1)[OF assms(1), of addr d] assms(2)
  by (auto simp: GetBalance_def bal_def NewCoin_Inr split: option.splits)

section \<open>Writing one balance\<close>

lemma key_inj: "balance_key a d = balance_key a' d' \<longleftrightarrow> a = a' \<and> d = d'"
  by (auto simp: balance_key_def)

lemma write_shift:
  assumes ok: "bal_ok s" and enc: "encodable addr" and co: "reverse.coherent b"
    and get: "\<And>k. kv_get (im_map b) k = (if k = balance_key addr d then v else kv_get (im_map (Balances s)) k)"
    and v: "v = (if x = 0 then None else Some x)" "0 \<le> x" "wf_Int x" "reDnm_MatchString d"
  shows "shift addr (\<lambda>d'. if d' = d then x - bal s addr d else 0) s (s\<lparr>Balances := b\<rparr>)"
proof -
  let ?m = "im_map (Balances s)" and ?k = "balance_key addr d" and ?s = "s\<lparr>Balances := b\<rparr>"
  have wf: "kv_wf ?m" "kv_wf (im_map b)" using ok co by (simp_all add: bal_ok_def reverse.coherent_def)
  have "bal_ok ?s" using ok co v by (auto simp: bal_ok_def get balance_key_def)
  moreover have "bal ?s a d' = bal s a d' + (if a = addr then if d' = d then x - bal s addr d else 0 else 0)" for a d'
    using enc v by (auto simp: bal_def Balances_Get_def IndexedMap_Get_def get key_inj)
  moreover have "held ?s d' = held s d' + (if d' = d then x - bal s addr d else 0)" for d'
  proof -
    have "held ?s d' = held s d' - kv.at (of_denom d') ?m ?k + kv.at (of_denom d') (im_map b) ?k"
      using kv.total_change[OF wf, of ?k "of_denom d'"] by (simp add: held_def get)
    moreover have "kv.at (of_denom d') ?m ?k = (if d' = d then bal s addr d else 0)"
      using enc by (auto simp: kv.at_def bal_def Balances_Get_def IndexedMap_Get_def balance_key_def split: option.splits)
    moreover have "kv.at (of_denom d') (im_map b) ?k = (if d' = d then x else 0)"
      using v by (auto simp: kv.at_def get balance_key_def)
    ultimately show ?thesis by simp
  qed
  ultimately show ?thesis unfolding shift_def by blast
qed

lemma setBalance_run:
  assumes "bal_ok s" and "encodable addr" and "reDnm_MatchString d" and "0 \<le> x" and "wf_Int x"
  shows "\<exists>s'. setBalance addr (coin d x) s = (Inr (), s') \<and> shift addr (\<lambda>d'. if d' = d then x - bal s addr d else 0) s s'"
proof -
  let ?k = "balance_key addr d"
  have co: "reverse.coherent (Balances s)" using assms(1) by (simp add: bal_ok_def)
  then have wf: "kv_wf (im_map (Balances s))" by (simp add: reverse.coherent_def)
  have val: "Coin_IsValid (coin d x)" using assms(3,4) by (simp add: Coin_IsValid_def)
  obtain b where b: "setBalance addr (coin d x) s = (Inr (), s\<lparr>Balances := b\<rparr>)" "reverse.coherent b"
    "im_map b = (if x = 0 then kv_del (im_map (Balances s)) ?k else kv_set (im_map (Balances s)) ?k x)"
  proof (cases "x = 0")
    case True
    note r = reverse_Set(2)[of ?k "Balances s"]
    show thesis using that[OF _ reverse.Remove_coherent(1)[OF co r]] True val assms(2)
      by (simp add: setBalance_def on_balances_def r)
  next
    case False
    note r = reverse_Set(1)[of ?k x "Balances s"]
    show thesis using that[OF _ reverse.Set_coherent(1)[OF co r]] False val assms(2)
      by (simp add: setBalance_def on_balances_def r)
  qed
  then have "kv_get (im_map b) k = (if k = ?k then if x = 0 then None else Some x else kv_get (im_map (Balances s)) k)" for k
    using wf by (auto simp: kv_get_del kv_get_set)
  from write_shift[OF assms(1,2) b(2) this refl assms(4,5,3)] b(1) show ?thesis by blast
qed

lemma setBalance_unencodable: "\<not> encodable addr \<Longrightarrow> \<exists>m. setBalance addr c s = (Inl (Err m), s)"
  by (simp add: setBalance_def on_balances_def fail_op_def)

lemma bal_unencodable: "\<not> encodable addr \<Longrightarrow> bal s addr d = 0"
  by (simp add: bal_def Balances_Get_def)

section \<open>Spending and receiving\<close>

text \<open>The test of \<open>subUnlockedCoins\<close> for one coin, as the code writes it with coin sets.\<close>

lemma SafeSub_single:
  assumes "reDnm_MatchString d" and "0 \<le> b" and "0 \<le> l" and "wf_Int b" and "wf_Int l"
  shows "Coins_SafeSub [coin d b] [coin d l] = Inr (if b = l then [] else [coin d (b - l)], b < l)"
proof -
  let ?n = "if l = 0 then [] else [coin d l]" and ?r = "if b = l then [] else [coin d (b - l)]"
  have n: "NewCoins [coin d l] = Inr ?n" using assms by (simp add: NewCoins_single)
  have wfn: "wf_coins (Coins_negative ?n)" "strict_denoms Denom (Coins_negative ?n)" "wf_coins [coin d b]"
    using assms(4,5) unfolding negative_facts by (auto simp: wf_coins_def strict_denoms_def)
  have am: "amt [coin d b] d' + amt (Coins_negative ?n) d' = (if d' = d then b - l else 0)" for d'
    by (simp add: negative_facts)
  have "\<forall>d'. wf_Int (amt [coin d b] d' + amt (Coins_negative ?n) d')"
    unfolding am using wf_Int_diff[OF assms(2-5)] by simp
  with safeAdd_strict[of "[coin d b]" "Coins_negative ?n"] wfn obtain r where
    r: "safeAdd [coin d b] (Coins_negative ?n) = Inr r" "normal_coins r"
    "\<forall>d'. amt r d' = amt [coin d b] d' + amt (Coins_negative ?n) d'" by (auto simp: strict_denoms_def)
  have ramt: "amt r d' = (if d' = d then b - l else 0)" for d' using r(3) unfolding am by blast
  have "r = ?r"
    by (rule normal_coins_ext[OF r(2)]) (auto simp: normal_coins_def strict_denoms_def ramt fun_eq_iff)
  then show ?thesis using n r(1) by (simp add: Coins_SafeSub_def Coins_IsAnyNegative_def)
qed

lemma Coin_Sub_eq:
  "0 \<le> b \<Longrightarrow> wf_Int b \<Longrightarrow> 0 \<le> x \<Longrightarrow> x \<le> b \<Longrightarrow> Coin_Sub (coin d b) (coin d x) = Inr (coin d (b - x))"
  using Int_Sub_Inr[of b x "b - x"] by (simp add: Coin_Sub_def Coin_SafeSub_def wf_Int_def Let_def)

lemma coin_eta: "coin (Denom c) (Amount c) = c"
  by simp

lemma subUnlockedCoin_run:
  assumes ok: "bal_ok s" and lc: "good lc" and c: "0 < Amount c" "wf_Int (Amount c)" "reDnm_MatchString (Denom c)"
  shows "if Amount c \<le> bal s addr (Denom c) - amt lc (Denom c)
    then \<exists>s'. subUnlockedCoin addr lc c s = (Inr (), s') \<and> shift addr (\<lambda>d. if d = Denom c then - Amount c else 0) s s'
    else \<exists>m. subUnlockedCoin addr lc c s = (Inl (Err m), s)"
proof -
  let ?d = "Denom c" let ?b = "bal s addr ?d" and ?l = "amt lc ?d"
  have b: "0 \<le> ?b" "wf_Int ?b" and l: "0 \<le> ?l" "wf_Int ?l" using bal_facts[OF ok] good_amt[OF lc] by auto
  have gb: "GetBalance s addr ?d = Inr (coin ?d ?b)" by (rule GetBalance_eq[OF ok c(3)])
  have lk: "bind_r (AmountOf lc ?d) (NewCoin ?d) = Inr (coin ?d ?l)"
    using lc c(3) l(1) valid_wf_strict(1) by (simp add: AmountOf_amt NewCoin_Inr)
  have s1: "Coins_SafeSub [coin ?d ?b] [coin ?d ?l] = Inr (if ?b = ?l then [] else [coin ?d (?b - ?l)], ?b < ?l)"
    by (rule SafeSub_single[OF c(3) b(1) l(1) b(2) l(2)])
  have s2: "\<exists>r. Coins_SafeSub (if ?b = ?l then [] else [coin ?d (?b - ?l)]) [c] = Inr (r, ?b - ?l < Amount c)" if le: "?l \<le> ?b"
  proof -
    have g: "good (if ?b = ?l then [] else [coin ?d (?b - ?l)])" "good [c]"
      using le c wf_Int_diff[OF b(1) l(1) b(2) l(2)] by (auto simp: valid_coins_def wf_coins_def)
    from Coins_SafeSub_valid[of _ "[c]"] this obtain r neg where
      r: "Coins_SafeSub (if ?b = ?l then [] else [coin ?d (?b - ?l)]) [c] = Inr (r, neg)"
      "neg \<longleftrightarrow> (\<exists>d. amt (if ?b = ?l then [] else [coin ?d (?b - ?l)]) d < amt [c] d)" by blast
    have "amt (if ?b = ?l then [] else [coin ?d (?b - ?l)]) d = (if d = ?d then ?b - ?l else 0)" for d by auto
    then have "neg \<longleftrightarrow> ?b - ?l < Amount c" using r(2) c(1) by (auto split: if_splits)
    with r(1) show ?thesis by blast
  qed
  show ?thesis
  proof (cases "Amount c \<le> ?b - ?l")
    case True
    then have le: "?l \<le> ?b" "Amount c \<le> ?b" using c(1) l(1) by linarith+
    then have enc: "encodable addr" using bal_unencodable[of addr s] c(1) by (cases "encodable addr") auto
    have "Coin_Sub (coin ?d ?b) c = Inr (coin ?d (?b - Amount c))"
      using Coin_Sub_eq[OF b _ le(2), of ?d] c(1) by (simp add: coin_eta)
    then have run: "subUnlockedCoin addr lc c s = setBalance addr (coin ?d (?b - Amount c)) s"
      using s2[OF le(1)] True le by (auto simp: subUnlockedCoin_def bind_op_def pure_op_def gb lift_op_def lk s1)
    have "wf_Int (?b - Amount c)" using wf_Int_diff[OF b(1) _ b(2) c(2)] c(1) by simp
    from setBalance_run[OF ok enc c(3) _ this] le(2) obtain s' where
      s': "setBalance addr (coin ?d (?b - Amount c)) s = (Inr (), s')"
      "shift addr (\<lambda>d'. if d' = ?d then (?b - Amount c) - ?b else 0) s s'" by auto
    from s'(2) have "shift addr (\<lambda>d. if d = ?d then - Amount c else 0) s s'" by (rule shift_cong) simp
    with True run s'(1) show ?thesis by auto
  next
    case False
    then show ?thesis
    proof (cases "?b < ?l")
      case True
      with False show ?thesis by (auto simp: subUnlockedCoin_def bind_op_def pure_op_def gb lift_op_def lk s1 fail_op_def)
    next
      case lb: False
      with False s2 show ?thesis
        by (fastforce simp: subUnlockedCoin_def bind_op_def pure_op_def gb lift_op_def lk s1 fail_op_def not_less not_le)
    qed
  qed
qed

lemma shift_bal_eq: "shift addr g s s' \<Longrightarrow> bal s' a d = bal s a d + (if a = addr then g d else 0)"
  by (simp add: shift_def)

lemma shift_ok: "shift addr g s s' \<Longrightarrow> bal_ok s'"
  by (simp add: shift_def)

lemma if_map: "(if b then P else Q) \<Longrightarrow> (P \<Longrightarrow> P') \<Longrightarrow> (Q \<Longrightarrow> Q') \<Longrightarrow> (if b then P' else Q')"
  by (cases b) simp_all

lemma sub_loop:
  assumes "bal_ok s" and "good lc" and "good cs"
  shows "if \<forall>c\<in>set cs. Amount c \<le> bal s addr (Denom c) - amt lc (Denom c)
    then \<exists>s'. for_op (subUnlockedCoin addr lc) cs s = (Inr (), s') \<and> shift addr (\<lambda>d. - amt cs d) s s'
    else \<exists>m s'. for_op (subUnlockedCoin addr lc) cs s = (Inl (Err m), s')"
  using assms(1,3)
proof (induction cs arbitrary: s)
  case Nil
  then show ?case by (auto simp: ret_op_def intro: shift_refl)
next
  case (Cons c cs)
  note c = good_Cons[OF Cons.prems(2)]
  note one = subUnlockedCoin_run[OF Cons.prems(1) assms(2), of c addr]
  show ?case
  proof (cases "Amount c \<le> bal s addr (Denom c) - amt lc (Denom c)")
    case True
    with one c obtain t where t: "subUnlockedCoin addr lc c s = (Inr (), t)"
      "shift addr (\<lambda>d. if d = Denom c then - Amount c else 0) s t" by auto
    have same: "bal t addr (Denom c') = bal s addr (Denom c')" if "c' \<in> set cs" for c'
      using shift_bal_eq[OF t(2), of addr "Denom c'"] Cons.prems(2) that by (auto simp: valid_coins_Cons)
    then have cond: "(\<forall>c'\<in>set (c # cs). Amount c' \<le> bal s addr (Denom c') - amt lc (Denom c'))
        \<longleftrightarrow> (\<forall>c'\<in>set cs. Amount c' \<le> bal t addr (Denom c') - amt lc (Denom c'))" using True by auto
    have run: "for_op (subUnlockedCoin addr lc) (c # cs) s = for_op (subUnlockedCoin addr lc) cs t"
      using t(1) by (simp add: op_run bind_op_run)
    have join: "shift addr (\<lambda>d. - amt cs d) t s' \<Longrightarrow> shift addr (\<lambda>d. - amt (c # cs) d) s s'" for s'
      using c by (intro shift_trans[OF t(2)]) auto
    have "good cs" using c by blast
    from Cons.IH[OF shift_ok[OF t(2)] this] show ?thesis unfolding cond run by (rule if_map) (use join in blast)+
  next
    case False
    with one c obtain m where "subUnlockedCoin addr lc c s = (Inl (Err m), s)" by auto
    with False show ?thesis by (auto simp: op_run bind_op_run)
  qed
qed

lemma covers_iff:
  assumes "good cs"
  shows "(\<forall>c\<in>set cs. Amount c \<le> f (Denom c)) \<longleftrightarrow> (\<forall>d. 0 < amt cs d \<longrightarrow> amt cs d \<le> f d)"
proof -
  have st: "strict_denoms Denom cs" using assms valid_wf_strict(1) by blast
  have "amt cs (Denom c) = Amount c" if "c \<in> set cs" for c using total_of_member[OF st that] .
  moreover have "\<exists>c\<in>set cs. Denom c = d" if "0 < amt cs d" for d
    using total_of_notin[of d Denom cs Amount] that by force
  moreover have "0 < Amount c" if "c \<in> set cs" for c using assms that by (auto simp: valid_coins_def)
  ultimately show ?thesis by metis
qed

lemma Int_Add_eq: "Int_Add a b = (if wf_Int (a + b) then Inr (a + b) else Inl (Panic ''Int overflow''))"
  by (auto simp: Int_Add_def Let_def BitLen_gt wf_Int_def)

lemma addCoin_run:
  assumes ok: "bal_ok s" and enc: "encodable addr" and c: "0 < Amount c" "wf_Int (Amount c)" "reDnm_MatchString (Denom c)"
  shows "if wf_Int (bal s addr (Denom c) + Amount c)
    then \<exists>s'. addCoin addr c s = (Inr (), s') \<and> shift addr (\<lambda>d. if d = Denom c then Amount c else 0) s s'
    else addCoin addr c s = (Inl (Panic ''Int overflow''), s)"
proof -
  let ?d = "Denom c" let ?b = "bal s addr ?d"
  have b: "0 \<le> ?b" "wf_Int ?b" using bal_facts[OF ok] by auto
  have gb: "GetBalance s addr ?d = Inr (coin ?d ?b)" by (rule GetBalance_eq[OF ok c(3)])
  show ?thesis
  proof (cases "wf_Int (?b + Amount c)")
    case True
    then have "Coin_Add (coin ?d ?b) c = Inr (coin ?d (?b + Amount c))" by (simp add: Coin_Add_def Int_Add_eq)
    then have run: "addCoin addr c s = setBalance addr (coin ?d (?b + Amount c)) s"
      by (simp add: addCoin_def bind_op_def pure_op_def gb lift_op_def)
    from setBalance_run[OF ok enc c(3) _ True] b(1) c(1) obtain s' where
      s': "setBalance addr (coin ?d (?b + Amount c)) s = (Inr (), s')"
      "shift addr (\<lambda>d'. if d' = ?d then (?b + Amount c) - ?b else 0) s s'" by auto
    from s'(2) have "shift addr (\<lambda>d. if d = ?d then Amount c else 0) s s'" by (rule shift_cong) simp
    with True run s'(1) show ?thesis by auto
  next
    case False
    then have "Coin_Add (coin ?d ?b) c = Inl (Panic ''Int overflow'')" by (simp add: Coin_Add_def Int_Add_eq)
    with False show ?thesis by (simp add: addCoin_def bind_op_def pure_op_def gb lift_op_def)
  qed
qed

lemma add_loop:
  assumes "bal_ok s" and "encodable addr" and "good cs"
  shows "if \<forall>d. wf_Int (bal s addr d + amt cs d)
    then \<exists>s'. for_op (addCoin addr) cs s = (Inr (), s') \<and> shift addr (amt cs) s s'
    else \<exists>s'. for_op (addCoin addr) cs s = (Inl (Panic ''Int overflow''), s')"
  using assms(1,3)
proof (induction cs arbitrary: s)
  case Nil
  then show ?case using bal_facts(2)[OF Nil(1)] by (auto simp: ret_op_def intro: shift_cong[OF shift_refl])
next
  case (Cons c cs)
  note c = good_Cons[OF Cons.prems(2)]
  note one = addCoin_run[OF Cons.prems(1) assms(2), of c]
  have am: "bal s addr (Denom c) + amt (c # cs) (Denom c) = bal s addr (Denom c) + Amount c" using c by auto
  show ?case
  proof (cases "wf_Int (bal s addr (Denom c) + Amount c)")
    case True
    with one c obtain t where t: "addCoin addr c s = (Inr (), t)"
      "shift addr (\<lambda>d. if d = Denom c then Amount c else 0) s t" by auto
    have eq: "bal s addr d + amt (c # cs) d = bal t addr d + amt cs d" for d
      using shift_bal_eq[OF t(2), of addr d] c by auto
    have cond: "(\<forall>d. wf_Int (bal s addr d + amt (c # cs) d)) \<longleftrightarrow> (\<forall>d. wf_Int (bal t addr d + amt cs d))"
      by (simp only: eq)
    have run: "for_op (addCoin addr) (c # cs) s = for_op (addCoin addr) cs t"
      using t(1) by (simp add: op_run bind_op_run)
    have join: "shift addr (amt cs) t s' \<Longrightarrow> shift addr (amt (c # cs)) s s'" for s'
      using c by (intro shift_trans[OF t(2)]) auto
    have "good cs" using c by blast
    from Cons.IH[OF shift_ok[OF t(2)] this] show ?thesis unfolding cond run by (rule if_map) (use join in blast)+
  next
    case False
    with one c have "addCoin addr c s = (Inl (Panic ''Int overflow''), s)" by auto
    moreover have "\<not> (\<forall>d. wf_Int (bal s addr d + amt (c # cs) d))" using False am by metis
    ultimately show ?thesis by (auto simp: op_run bind_op_run)
  qed
qed

section \<open>Locked coins\<close>

definition accounts_ok :: "'x auth_state_scheme \<Rightarrow> bool" where
  "accounts_ok s \<longleftrightarrow> (\<forall>addr acc. GetAccount s addr = Some acc \<longrightarrow> account_ok acc)"

definition locked_amt :: "'e bank_env_scheme \<Rightarrow> 'x bank_state_scheme \<Rightarrow> AccAddress \<Rightarrow> string \<Rightarrow> int" where
  "locked_amt e s addr d = (case LockedCoins e s addr of Inr l \<Rightarrow> amt l d | Inl _ \<Rightarrow> 0)"

lemma NewCoins_Nil [simp]: "NewCoins [] = Inr []"
  by (simp add: NewCoins_valid valid_coins_def)

lemma LockedCoins_run:
  assumes "accounts_ok s"
  shows "\<exists>l. LockedCoins e s addr = Inr l \<and> good l \<and> (\<forall>d. amt l d = locked_amt e s addr d)"
proof -
  have "\<exists>l. LockedCoins e s addr = Inr l \<and> good l"
  proof (cases "\<exists>acc b. GetAccount s addr = Some acc \<and> vesting_of acc = Some b")
    case True
    then obtain acc b where a: "GetAccount s addr = Some acc" "vesting_of acc = Some b" by blast
    then have "account_ok acc" using assms by (simp add: accounts_ok_def)
    from account_vesting[OF this a(2), of "BlockTime e"] a show ?thesis by (auto simp: LockedCoins_def)
  next
    case False
    then have "LockedCoins e s addr = Inr []" by (auto simp: LockedCoins_def split: option.splits)
    then show ?thesis by (simp add: valid_coins_def wf_coins_def)
  qed
  then show ?thesis by (auto simp: locked_amt_def)
qed

lemma locked_amt_nonneg: "accounts_ok s \<Longrightarrow> 0 \<le> locked_amt e s addr d"
  using LockedCoins_run[of s e addr] good_amt by metis

definition spendable :: "'e bank_env_scheme \<Rightarrow> 'x bank_state_scheme \<Rightarrow> AccAddress \<Rightarrow> Coins \<Rightarrow> bool" where
  "spendable e s addr a \<longleftrightarrow> (\<forall>d. 0 < amt a d \<longrightarrow> amt a d \<le> bal s addr d - locked_amt e s addr d)"

lemma subUnlockedCoins_run:
  assumes "bal_ok s" and "accounts_ok s" and "wf_coins a"
  shows "if valid_coins a \<and> spendable e s addr a
    then \<exists>s'. subUnlockedCoins e addr a s = (Inr (), s') \<and> shift addr (\<lambda>d. - amt a d) s s'
    else \<exists>m s'. subUnlockedCoins e addr a s = (Inl (Err m), s')"
proof (cases "valid_coins a")
  case True
  obtain l where l: "LockedCoins e s addr = Inr l" "good l" "\<forall>d. amt l d = locked_amt e s addr d"
    using LockedCoins_run[OF assms(2)] by blast
  have g: "good a" using True assms(3) by blast
  have run: "subUnlockedCoins e addr a s = for_op (subUnlockedCoin addr l) a s"
    using True l(1) by (simp add: subUnlockedCoins_def Coins_IsValid_iff bind_op_def pure_op_def)
  have "valid_coins a \<and> spendable e s addr a \<longleftrightarrow> (\<forall>c\<in>set a. Amount c \<le> bal s addr (Denom c) - amt l (Denom c))"
    using True covers_iff[OF g, of "\<lambda>d. bal s addr d - amt l d"] l(3) by (simp add: spendable_def)
  then show ?thesis using sub_loop[OF assms(1) l(2) g, of addr] unfolding run by simp
next
  case False
  then show ?thesis by (simp add: subUnlockedCoins_def Coins_IsValid_iff fail_op_def)
qed

lemma addCoins_run:
  assumes "bal_ok s" and "encodable addr" and "good a"
  shows "if \<forall>d. wf_Int (bal s addr d + amt a d)
    then \<exists>s'. addCoins addr a s = (Inr (), s') \<and> shift addr (amt a) s s'
    else \<exists>s'. addCoins addr a s = (Inl (Panic ''Int overflow''), s')"
  using add_loop[OF assms] assms(3) by (simp add: addCoins_def Coins_IsValid_iff)

lemma addCoins_unencodable:
  assumes "bal_ok s" and "\<not> encodable addr" and "good a" and "a \<noteq> []"
  shows "\<exists>e. addCoins addr a s = (Inl e, s)"
proof -
  obtain c cs where a: "a = c # cs" using assms(4) by (cases a) auto
  have "reDnm_MatchString (Denom c)" using assms(3) a by (simp add: valid_coins_def)
  then have "GetBalance s addr (Denom c) = Inr (coin (Denom c) 0)"
    using GetBalance_eq[OF assms(1)] bal_unencodable[OF assms(2)] by simp
  then have "addCoin addr c s = (case Coin_Add (coin (Denom c) 0) c of Inl e \<Rightarrow> (Inl e, s) | Inr nb \<Rightarrow> setBalance addr nb s)"
    by (simp add: addCoin_def bind_op_def pure_op_def lift_op_def split: sum.splits)
  then have "\<exists>e. addCoin addr c s = (Inl e, s)"
    using setBalance_unencodable[OF assms(2), of _ s] by (fastforce split: sum.splits)
  then show ?thesis using assms(3) a by (auto simp: addCoins_def Coins_IsValid_iff op_run bind_op_run)
qed

lemma addCoins_Inr:
  assumes "bal_ok s" and "wf_coins a" and "addCoins addr a s = (Inr u, s')"
  shows "good a \<and> shift addr (amt a) s s'"
proof -
  have g: "good a" using assms(2,3) by (auto simp: addCoins_def Coins_IsValid_iff fail_op_def split: if_splits)
  have "shift addr (amt a) s s'"
  proof (cases "encodable addr")
    case True
    from addCoins_run[OF assms(1) True g] assms(3) show ?thesis by (auto split: if_splits)
  next
    case False
    then have "a = []" using addCoins_unencodable[OF assms(1) False g] assms(3) by auto
    then show ?thesis using assms(1,3) by (auto simp: addCoins_def Coins_IsValid_iff ret_op_def valid_coins_def intro: shift_cong[OF shift_refl])
  qed
  with g show ?thesis by blast
qed

lemma subUnlockedCoins_Inr:
  assumes "bal_ok s" and "accounts_ok s" and "wf_coins a" and "subUnlockedCoins e addr a s = (Inr u, s')"
  shows "good a \<and> spendable e s addr a \<and> shift addr (\<lambda>d. - amt a d) s s'"
  using subUnlockedCoins_run[OF assms(1-3), of e addr] assms(3,4) by (auto split: if_splits)

section \<open>New accounts\<close>

text \<open>Accounts may be added, none of them vesting, and nothing else changes.\<close>

definition grown :: "'x bank_state_scheme \<Rightarrow> 'x bank_state_scheme \<Rightarrow> bool" where
  "grown s s' \<longleftrightarrow> auth_wf s' \<and> (\<exists>a n. s' = s\<lparr>NextNumber := n, Accounts := a\<rparr>)
     \<and> (\<forall>a acc. GetAccount s a = Some acc \<longrightarrow> GetAccount s' a = Some acc)
     \<and> (\<forall>a acc. GetAccount s a = None \<longrightarrow> GetAccount s' a = Some acc \<longrightarrow> vesting_of acc = None \<and> account_ok acc)"

lemma grown_refl: "auth_wf s \<Longrightarrow> grown s s"
proof -
  have "\<exists>a n. s = s\<lparr>NextNumber := n, Accounts := a\<rparr>" by (intro exI[of _ "Accounts s"] exI[of _ "NextNumber s"]) simp
  then show "auth_wf s \<Longrightarrow> grown s s" by (simp add: grown_def)
qed

lemma grown_created:
  assumes "created s addr acc s'" and "GetAccount s addr = None" and "vesting_of acc = None" and "account_ok acc"
  shows "grown s s'"
  using assms by (auto simp: grown_def created_def)

lemma plain_accounts_ok [simp]: "account_ok (BaseAcc b)" "account_ok (ModuleAcc m)"
  by (simp_all add: account_ok_def)

lemma ensureAccount_Inr:
  assumes "auth_wf s" and "ensureAccount addr s = (Inr u, s')"
  shows "grown s s'"
proof (cases "GetAccount s addr")
  case None
  then have "bind_op (NewAccountWithAddress addr) SetAccount s = (Inr u, s')"
    using assms(2) by (simp add: ensureAccount_def HasAccount_iff)
  from NewAccountWithAddress_Inr[OF assms(1) this] None show ?thesis by (auto intro: grown_created)
next
  case (Some acc)
  then show ?thesis using assms grown_refl by (simp add: ensureAccount_def HasAccount_iff)
qed

lemma authorized_module_Inr:
  assumes "auth_wf s" and "authorized_module e name p s = (Inr addr, s')"
  shows "grown s s' \<and> addr = mod_address e name"
proof -
  from assms(2) obtain mo t where mo: "GetModuleAccount e name s = (Inr mo, t)"
    and rest: "(case mo of None \<Rightarrow> fail_op (Panic ''module account does not exist'')
       | Some macc \<Rightarrow> if case p of None \<Rightarrow> True | Some p \<Rightarrow> HasPermission (Permissions macc) p
           then ret_op (Address (macc_base macc)) else fail_op (Panic ''module account does not have permissions'')) t
       = (Inr addr, s')"
    unfolding authorized_module_def op_Inr(1) by blast
  obtain m where m: "GetModuleAccount e name s = (Inr (Some m), s')" "addr = Address (macc_base m)"
    using mo rest by (cases mo) (auto simp: ret_op_def fail_op_def split: if_splits)
  from GetModuleAccount_Inr[OF assms(1) m(1)] m(2) show ?thesis
    by (auto intro: grown_refl[OF assms(1)] grown_created)
qed

end
