(* ===== verification/BankInv.thy ===== *)
theory BankInv
  imports BankLedger
begin

text \<open>
  The invariant of the bank: the supply of a denomination is the sum of its balances, no
  stored balance is zero or negative, the index agrees with the balances and every account
  is well formed. Every operation that succeeds keeps it, and keeps locked coins covered by
  the balance of their account.
\<close>

section \<open>The invariant\<close>

definition ledger_ok :: "'x bank_state_scheme \<Rightarrow> bool" where
  "ledger_ok s \<longleftrightarrow> auth_wf s \<and> accounts_ok s \<and> bal_ok s \<and> sup_ok s"

definition bank_inv :: "'x bank_state_scheme \<Rightarrow> bool" where
  "bank_inv s \<longleftrightarrow> ledger_ok s \<and> (\<forall>d. held s d = sup s d)"

definition covered :: "'e bank_env_scheme \<Rightarrow> 'x bank_state_scheme \<Rightarrow> bool" where
  "covered e s \<longleftrightarrow> (\<forall>addr d. locked_amt e s addr d \<le> bal s addr d)"

lemma shift_frame:
  assumes "shift addr g s s'"
  shows "GetAccount s' = GetAccount s" "sup s' = sup s" "sup_ok s' = sup_ok s" "locked_amt e s' = locked_amt e s"
    "auth_wf s' = auth_wf s" "accounts_ok s' = accounts_ok s"
proof -
  obtain b where s': "s' = s\<lparr>Balances := b\<rparr>" using assms by (auto simp: shift_def)
  show g: "GetAccount s' = GetAccount s" by (simp add: s' GetAccount_def fun_eq_iff)
  show "sup s' = sup s" "sup_ok s' = sup_ok s" by (simp_all add: s' sup_def sup_ok_def fun_eq_iff)
  show "locked_amt e s' = locked_amt e s" by (simp add: fun_eq_iff locked_amt_def LockedCoins_def g)
  show "auth_wf s' = auth_wf s" "accounts_ok s' = accounts_ok s"
    by (simp_all add: auth_wf_def accounts_ok_def g) (simp add: s')
qed

lemma shift_ledger: "shift addr g s s' \<Longrightarrow> ledger_ok s \<Longrightarrow> ledger_ok s'"
  using shift_frame[of addr g s s'] by (simp add: ledger_ok_def shift_ok)

lemma grown_frame:
  assumes "grown s s'"
  shows "bal s' = bal s" "held s' = held s" "sup s' = sup s" "bal_ok s' = bal_ok s" "sup_ok s' = sup_ok s"
    "locked_amt e s' = locked_amt e s" "accounts_ok s \<Longrightarrow> accounts_ok s'"
proof -
  obtain a n where s': "s' = s\<lparr>NextNumber := n, Accounts := a\<rparr>" using assms by (auto simp: grown_def)
  show "bal s' = bal s" "held s' = held s" "sup s' = sup s" "bal_ok s' = bal_ok s" "sup_ok s' = sup_ok s"
    by (simp_all add: s' bal_def held_def sup_def bal_ok_def sup_ok_def Balances_Get_def fun_eq_iff)
  have "LockedCoins e s' addr = LockedCoins e s addr" for addr
    using assms unfolding grown_def LockedCoins_def
    by (cases "GetAccount s addr"; cases "GetAccount s' addr") auto
  then show "locked_amt e s' = locked_amt e s" by (simp add: fun_eq_iff locked_amt_def)
  show "accounts_ok s \<Longrightarrow> accounts_ok s'"
    using assms unfolding grown_def accounts_ok_def by (metis option.exhaust)
qed

lemma grown_ledger: "grown s s' \<Longrightarrow> ledger_ok s \<Longrightarrow> ledger_ok s'"
  using grown_frame[of s s'] by (simp add: ledger_ok_def grown_def)

section \<open>Transfers\<close>

lemma SendCoins_Inr:
  assumes ok: "ledger_ok s" and wf: "wf_coins a" and run: "SendCoins e from to a s = (Inr u, s')"
  obtains s1 s2 where "good a" "spendable e s from a" "shift from (\<lambda>d. - amt a d) s s1" "shift to (amt a) s1 s2" "grown s2 s'"
proof -
  from run obtain s1 s2 where st: "subUnlockedCoins e from a s = (Inr (), s1)" "addCoins to a s1 = (Inr (), s2)"
    "ensureAccount to s2 = (Inr u, s')" by (auto simp: SendCoins_def res_simps)
  have b: "bal_ok s" "accounts_ok s" "auth_wf s" using ok by (simp_all add: ledger_ok_def)
  note 1 = subUnlockedCoins_Inr[OF b(1,2) wf st(1)]
  note 2 = addCoins_Inr[OF _ wf st(2)]
  have s1: "shift from (\<lambda>d. - amt a d) s s1" using 1 by blast
  have s2: "shift to (amt a) s1 s2" using 2 shift_ok[OF s1] by blast
  have "auth_wf s2" using b(3) shift_frame(5)[OF s1] shift_frame(5)[OF s2] by simp
  from ensureAccount_Inr[OF this st(3)] 1 s2 that show thesis by blast
qed

text \<open>The effect of a transfer.\<close>

definition transferred :: "AccAddress \<Rightarrow> AccAddress \<Rightarrow> Coins \<Rightarrow> 'x bank_state_scheme \<Rightarrow> 'x bank_state_scheme \<Rightarrow> bool" where
  "transferred from to a s s' \<longleftrightarrow>
     (\<forall>addr d. bal s' addr d = bal s addr d - (if addr = from then amt a d else 0) + (if addr = to then amt a d else 0))
     \<and> sup s' = sup s"

lemma SendCoins_effect:
  assumes ok: "ledger_ok s" and wf: "wf_coins a" and run: "SendCoins e from to a s = (Inr u, s')"
  shows "ledger_ok s'" "held s' = held s" "transferred from to a s s'" "good a" "spendable e s from a"
    "locked_amt e' s' = locked_amt e' s"
    "\<forall>addr acc. GetAccount s addr = Some acc \<longrightarrow> GetAccount s' addr = Some acc"
proof -
  from SendCoins_Inr[OF assms] obtain s1 s2 where
    st: "good a" "spendable e s from a" "shift from (\<lambda>d. - amt a d) s s1" "shift to (amt a) s1 s2" "grown s2 s'" by blast
  show "good a" "spendable e s from a" using st(1,2) by blast+
  show "ledger_ok s'" using ok shift_ledger[OF st(3)] shift_ledger[OF st(4)] grown_ledger[OF st(5)] by simp
  show "held s' = held s" using st(3,4) grown_frame(2)[OF st(5)] by (auto simp: shift_def fun_eq_iff)
  show "transferred from to a s s'"
    using shift_bal_eq[OF st(3)] shift_bal_eq[OF st(4)] shift_frame(2)[OF st(3)] shift_frame(2)[OF st(4)]
      grown_frame(1,3)[OF st(5)] by (simp add: transferred_def)
  show "locked_amt e' s' = locked_amt e' s"
    by (simp add: shift_frame(4)[OF st(3)] shift_frame(4)[OF st(4)] grown_frame(6)[OF st(5)])
  show "\<forall>addr acc. GetAccount s addr = Some acc \<longrightarrow> GetAccount s' addr = Some acc"
    using shift_frame(1)[OF st(3)] shift_frame(1)[OF st(4)] st(5) by (auto simp: grown_def)
qed

lemma SendCoins_keeps:
  assumes "wf_coins a" and "SendCoins e from to a s = (Inr u, s')"
  shows "bank_inv s \<Longrightarrow> bank_inv s'" "ledger_ok s \<Longrightarrow> covered e s \<Longrightarrow> covered e s'"
proof -
  show "bank_inv s'" if "bank_inv s"
    using that SendCoins_effect[OF _ assms] by (auto simp: bank_inv_def transferred_def)
  show "covered e s'" if "ledger_ok s" "covered e s"
  proof -
    note ef = SendCoins_effect[OF that(1) assms]
    have "locked_amt e s addr d \<le> bal s' addr d" for addr d
    proof (cases "0 < amt a d")
      case True
      then have "amt a d \<le> bal s from d - locked_amt e s from d" using ef(5) by (simp add: spendable_def)
      moreover have "locked_amt e s addr d \<le> bal s addr d" using that(2) by (simp add: covered_def)
      ultimately show ?thesis using ef(3) True by (auto simp: transferred_def)
    next
      case False
      then have "amt a d = 0" using good_amt[OF ef(4), of d] by linarith
      then show ?thesis using ef(3) that(2) by (simp add: transferred_def covered_def)
    qed
    then show ?thesis by (simp add: covered_def ef(6))
  qed
qed

section \<open>Multi-send\<close>

definition out_sum :: "Output list \<Rightarrow> string \<Rightarrow> int" where
  "out_sum outs d = sum_list (map (\<lambda>out. amt (out_Coins out) d) outs)"

text \<open>The validated total of the outputs is the pointwise sum.\<close>

lemma total_out:
  assumes "fold_r (\<lambda>totalOut out. bind_r (Output_ValidateBasic e out) (\<lambda>_. Coins_Add totalOut (out_Coins out))) acc outs = Inr tot"
    and "good acc" and "\<forall>out\<in>set outs. wf_coins (out_Coins out)"
  shows "good tot \<and> (\<forall>d. amt tot d = amt acc d + out_sum outs d) \<and> (\<forall>out\<in>set outs. good (out_Coins out))"
  using assms
proof (induction outs arbitrary: acc)
  case Nil
  then show ?case by (simp add: out_sum_def)
next
  case (Cons x outs)
  from Cons.prems(1) obtain acc' where st: "Output_ValidateBasic e x = Inr ()" "Coins_Add acc (out_Coins x) = Inr acc'"
    "fold_r (\<lambda>totalOut out. bind_r (Output_ValidateBasic e out) (\<lambda>_. Coins_Add totalOut (out_Coins out))) acc' outs = Inr tot"
    by (auto simp: res_simps)
  have g: "good (out_Coins x)" using st(1) Cons.prems(3)
    by (auto simp: Output_ValidateBasic_def Coins_IsValid_iff res_simps split: if_splits)
  then have "good acc'" "\<And>d. amt acc' d = amt acc d + amt (out_Coins x) d"
    using Coins_Add_Inr[OF st(2)] Cons.prems(2) by auto
  with Cons.IH[OF st(3)] Cons.prems(3) g show ?case by (simp add: out_sum_def)
qed

lemma Coins_Equal_strict: "strict_denoms Denom a \<Longrightarrow> strict_denoms Denom b \<Longrightarrow> Coins_Equal a b \<longleftrightarrow> a = b"
  by (auto simp: Coins_Equal_def Coins_Sort_def sort_key_strict list.rel_eq)

lemma ValidateInputOutputs_Inr:
  assumes "ValidateInputOutputs e input outs = Inr u" and "wf_coins (in_Coins input)" and "\<forall>out\<in>set outs. wf_coins (out_Coins out)"
  shows "good (in_Coins input) \<and> (\<forall>d. amt (in_Coins input) d = out_sum outs d) \<and> (\<forall>out\<in>set outs. good (out_Coins out))"
proof -
  from assms(1) obtain tot where st: "Input_ValidateBasic e input = Inr ()" "Coins_Equal (in_Coins input) tot"
    "fold_r (\<lambda>totalOut out. bind_r (Output_ValidateBasic e out) (\<lambda>_. Coins_Add totalOut (out_Coins out))) [] outs = Inr tot"
    by (auto simp: ValidateInputOutputs_def res_simps split: if_splits)
  have "good []" by (simp add: valid_coins_def wf_coins_def)
  note to = total_out[OF st(3) this assms(3)]
  have g: "good (in_Coins input)" using st(1) assms(2)
    by (auto simp: Input_ValidateBasic_def Coins_IsValid_iff res_simps split: if_splits)
  have "in_Coins input = tot" using st(2) Coins_Equal_strict[of "in_Coins input" tot] g to valid_wf_strict(1) by blast
  with to g show ?thesis by simp
qed

text \<open>Crediting outputs only raises balances, by their sum in all.\<close>

definition credited :: "(string \<Rightarrow> int) \<Rightarrow> 'e bank_env_scheme \<Rightarrow> 'x bank_state_scheme \<Rightarrow> 'x bank_state_scheme \<Rightarrow> bool" where
  "credited g e s s' \<longleftrightarrow> ledger_ok s' \<and> (\<forall>d. held s' d = held s d + g d) \<and> sup s' = sup s
     \<and> (\<forall>addr d. bal s addr d \<le> bal s' addr d) \<and> locked_amt e s' = locked_amt e s"

lemma credited_trans:
  assumes "credited g e s t" and "credited h e t s'" and "\<And>d. k d = g d + h d"
  shows "credited k e s s'"
proof -
  have "bal s addr d \<le> bal s' addr d" for addr d
    using assms(1,2) order_trans[of "bal s addr d" "bal t addr d"] by (simp add: credited_def)
  then show ?thesis using assms by (auto simp: credited_def)
qed

lemma credited_covered:
  assumes "credited g e s s'" and "covered e s"
  shows "covered e s'"
proof -
  have "locked_amt e s' addr d \<le> bal s' addr d" for addr d
    using assms order_trans[of "locked_amt e s addr d" "bal s addr d"] by (simp add: credited_def covered_def)
  then show ?thesis by (simp add: covered_def)
qed

lemma credit_output_Inr:
  assumes ok: "ledger_ok s" and wf: "wf_coins (out_Coins x)" and run: "credit_output e x s = (Inr u, s')"
  shows "credited (amt (out_Coins x)) e s s'"
proof -
  from run obtain addr s1 where st: "addCoins addr (out_Coins x) s = (Inr (), s1)" "ensureAccount addr s1 = (Inr u, s')"
    by (auto simp: credit_output_def res_simps)
  have "bal_ok s" using ok by (simp add: ledger_ok_def)
  then have 1: "good (out_Coins x)" "shift addr (amt (out_Coins x)) s s1" using addCoins_Inr[OF _ wf st(1)] by blast+
  have 2: "grown s1 s'" using ensureAccount_Inr[OF _ st(2)] shift_ledger[OF 1(2) ok] by (simp add: ledger_ok_def)
  have nn: "0 \<le> amt (out_Coins x) d" for d using good_amt[OF 1(1)] by blast
  show ?thesis
    using shift_ledger[OF 1(2) ok] grown_ledger[OF 2] shift_bal_eq[OF 1(2)] shift_frame(2)[OF 1(2)] grown_frame(1-3)[OF 2]
      1(2) nn by (simp add: credited_def shift_def shift_frame(4)[OF 1(2)] grown_frame(6)[OF 2])
qed

lemma credit_loop:
  assumes "ledger_ok s" and "\<forall>out\<in>set outs. wf_coins (out_Coins out)" and "for_op (credit_output e) outs s = (Inr u, s')"
  shows "credited (out_sum outs) e s s'"
  using assms
proof (induction outs arbitrary: s)
  case Nil
  then show ?case by (simp add: res_simps credited_def out_sum_def)
next
  case (Cons x outs)
  from Cons.prems(3) obtain t where t: "credit_output e x s = (Inr (), t)" "for_op (credit_output e) outs t = (Inr u, s')"
    by (auto simp: res_simps)
  have 1: "credited (amt (out_Coins x)) e s t" using credit_output_Inr[OF Cons.prems(1) _ t(1)] Cons.prems(2) by simp
  then have "credited (out_sum outs) e t s'" using Cons.IH[OF _ _ t(2)] Cons.prems(2) by (simp add: credited_def)
  from credited_trans[OF 1 this] show ?case by (simp add: out_sum_def)
qed

lemma covered_sub:
  assumes "covered e s" and "spendable e s from a" and "good a" and "shift from (\<lambda>d. - amt a d) s s1"
  shows "covered e s1"
proof -
  have "locked_amt e s addr d \<le> bal s1 addr d" for addr d
    using assms(1,2) good_amt[OF assms(3), of d] shift_bal_eq[OF assms(4), of addr d]
    unfolding covered_def spendable_def by (cases "amt a d = 0") (auto simp: le_less)
  then show ?thesis by (simp add: covered_def shift_frame(4)[OF assms(4)])
qed

lemma InputOutputCoins_keeps:
  assumes wf: "wf_coins (in_Coins input)" "\<forall>out\<in>set outs. wf_coins (out_Coins out)"
    and run: "InputOutputCoins e input outs s = (Inr u, s')"
  shows "bank_inv s \<Longrightarrow> bank_inv s' \<and> sup s' = sup s" "ledger_ok s \<Longrightarrow> covered e s \<Longrightarrow> covered e s'"
proof -
  from run obtain inA s1 where st: "ValidateInputOutputs e input outs = Inr ()"
    "subUnlockedCoins e inA (in_Coins input) s = (Inr (), s1)" "for_op (credit_output e) outs s1 = (Inr u, s')"
    by (auto simp: InputOutputCoins_def res_simps)
  note v = ValidateInputOutputs_Inr[OF st(1) wf]
  have *: "good (in_Coins input) \<and> spendable e s inA (in_Coins input) \<and> shift inA (\<lambda>d. - amt (in_Coins input) d) s s1
      \<and> credited (out_sum outs) e s1 s'" if ok: "ledger_ok s"
  proof -
    have sub: "good (in_Coins input) \<and> spendable e s inA (in_Coins input) \<and> shift inA (\<lambda>d. - amt (in_Coins input) d) s s1"
      using subUnlockedCoins_Inr[OF _ _ wf(1) st(2)] ok by (simp add: ledger_ok_def)
    then show ?thesis using credit_loop[OF _ wf(2) st(3)] shift_ledger ok by blast
  qed
  show "bank_inv s' \<and> sup s' = sup s" if "bank_inv s"
  proof -
    from that * have c: "shift inA (\<lambda>d. - amt (in_Coins input) d) s s1" "credited (out_sum outs) e s1 s'"
      by (auto simp: bank_inv_def)
    have "sup s' = sup s" using c(2) shift_frame(2)[OF c(1)] by (simp add: credited_def)
    with that c v show ?thesis by (auto simp: bank_inv_def credited_def shift_def)
  qed
  show "covered e s'" if "ledger_ok s" "covered e s"
  proof -
    have "covered e s1" using covered_sub that * by blast
    then show ?thesis using * that(1) credited_covered by blast
  qed
qed

section \<open>Minting and burning\<close>

definition sup_shift :: "(string \<Rightarrow> int) \<Rightarrow> 'x bank_state_scheme \<Rightarrow> 'x bank_state_scheme \<Rightarrow> bool" where
  "sup_shift g s s' \<longleftrightarrow> sup_ok s' \<and> (\<exists>m. s' = s\<lparr>Supply := m\<rparr>) \<and> (\<forall>d. sup s' d = sup s d + g d)"

lemma sup_shift_trans:
  "sup_shift g s s' \<Longrightarrow> sup_shift h s' s'' \<Longrightarrow> (\<And>d. k d = g d + h d) \<Longrightarrow> sup_shift k s s''"
  by (auto simp: sup_shift_def)

lemma sup_shift_cong: "sup_shift g s s' \<Longrightarrow> (\<And>d. g d = h d) \<Longrightarrow> sup_shift h s s'"
  by (auto simp: sup_shift_def)

lemma sup_shift_refl: "sup_ok s \<Longrightarrow> (\<And>d. g d = 0) \<Longrightarrow> sup_shift g s s"
  by (auto simp: sup_shift_def intro: exI[of _ "Supply s"])

lemma sup_shift_frame:
  assumes "sup_shift g s s'"
  shows "bal s' = bal s" "held s' = held s" "bal_ok s' = bal_ok s" "locked_amt e s' = locked_amt e s"
    "auth_wf s' = auth_wf s" "accounts_ok s' = accounts_ok s" "GetAccount s' = GetAccount s"
proof -
  obtain m where s': "s' = s\<lparr>Supply := m\<rparr>" using assms by (auto simp: sup_shift_def)
  show "bal s' = bal s" "held s' = held s" "bal_ok s' = bal_ok s"
    by (simp_all add: s' bal_def held_def bal_ok_def Balances_Get_def fun_eq_iff)
  show g: "GetAccount s' = GetAccount s" by (simp add: s' GetAccount_def fun_eq_iff)
  show "locked_amt e s' = locked_amt e s" by (simp add: fun_eq_iff locked_amt_def LockedCoins_def g)
  show "auth_wf s' = auth_wf s" "accounts_ok s' = accounts_ok s"
    by (simp_all add: auth_wf_def accounts_ok_def g) (simp add: s')
qed

lemma sup_shift_ledger: "sup_shift g s s' \<Longrightarrow> ledger_ok s \<Longrightarrow> ledger_ok s'"
  using sup_shift_frame[of g s s'] by (simp add: ledger_ok_def) (simp add: sup_shift_def)

lemma GetSupply_eq: "sup_ok s \<Longrightarrow> reDnm_MatchString d \<Longrightarrow> GetSupply s d = Inr (coin d (sup s d))"
  using sup_facts[of s d] by (auto simp: GetSupply_def sup_def NewCoin_Inr split: option.splits)

lemma setSupply_run:
  assumes "sup_ok s" and "0 \<le> x" and "wf_Int x" and "reDnm_MatchString d"
  shows "\<exists>s'. setSupply (coin d x) s = (Inr (), s') \<and> sup_shift (\<lambda>d'. if d' = d then x - sup s d else 0) s s'"
proof -
  let ?m = "if x = 0 then kv_del (Supply s) d else kv_set (Supply s) d x"
  have wf: "kv_wf (Supply s)" using assms(1) by (simp add: sup_ok_def)
  have get: "kv_get ?m d' = (if d' = d then if x = 0 then None else Some x else kv_get (Supply s) d')" for d'
    using wf by (auto simp: kv_get_del kv_get_set)
  have "setSupply (coin d x) s = (Inr (), s\<lparr>Supply := ?m\<rparr>)" by (simp add: setSupply_def op_run)
  moreover have "kv_wf ?m" using wf by (simp add: kv_wf_del kv_wf_set)
  then have "sup_ok (s\<lparr>Supply := ?m\<rparr>)" using assms unfolding sup_ok_def by (simp add: get)
  then have "sup_shift (\<lambda>d'. if d' = d then x - sup s d else 0) s (s\<lparr>Supply := ?m\<rparr>)"
    by (auto simp: sup_shift_def sup_def get)
  ultimately show ?thesis by blast
qed

lemma mint_supply_run:
  assumes ok: "sup_ok s" and c: "0 < Amount c" "wf_Int (Amount c)" "reDnm_MatchString (Denom c)"
  shows "if wf_Int (sup s (Denom c) + Amount c)
    then \<exists>s'. mint_supply c s = (Inr (), s') \<and> sup_shift (\<lambda>d. if d = Denom c then Amount c else 0) s s'
    else mint_supply c s = (Inl (Panic ''Int overflow''), s)"
proof -
  let ?d = "Denom c"
  have gs: "GetSupply s ?d = Inr (coin ?d (sup s ?d))" by (rule GetSupply_eq[OF ok c(3)])
  have add: "Coin_Add (coin ?d (sup s ?d)) c
      = (if wf_Int (sup s ?d + Amount c) then Inr (coin ?d (sup s ?d + Amount c)) else Inl (Panic ''Int overflow''))"
    by (simp add: Coin_Add_def Int_Add_eq)
  show ?thesis
  proof (cases "wf_Int (sup s ?d + Amount c)")
    case True
    have "mint_supply c s = setSupply (coin ?d (sup s ?d + Amount c)) s"
      using True by (simp add: mint_supply_def bind_op_def pure_op_def gs lift_op_def add)
    moreover have "0 \<le> sup s ?d + Amount c" using sup_facts[OF ok, of ?d] c(1) by simp
    ultimately show ?thesis using setSupply_run[OF ok _ True c(3)] True by (simp cong: if_cong)
  qed (simp add: mint_supply_def bind_op_def pure_op_def gs lift_op_def add)
qed

lemma mint_loop:
  assumes "sup_ok s" and "good cs"
  shows "if \<forall>d. wf_Int (sup s d + amt cs d)
    then \<exists>s'. for_op mint_supply cs s = (Inr (), s') \<and> sup_shift (amt cs) s s'
    else \<exists>s'. for_op mint_supply cs s = (Inl (Panic ''Int overflow''), s')"
  using assms
proof (induction cs arbitrary: s)
  case Nil
  then show ?case using sup_facts[OF Nil(1)] by (auto simp: ret_op_def intro: sup_shift_refl)
next
  case (Cons c cs)
  note c = good_Cons[OF Cons.prems(2)]
  note one = mint_supply_run[OF Cons.prems(1), of c]
  have am: "sup s (Denom c) + amt (c # cs) (Denom c) = sup s (Denom c) + Amount c" using c by auto
  show ?case
  proof (cases "wf_Int (sup s (Denom c) + Amount c)")
    case True
    with one c obtain t where t: "mint_supply c s = (Inr (), t)"
      "sup_shift (\<lambda>d. if d = Denom c then Amount c else 0) s t" by auto
    have eq: "sup s d + amt (c # cs) d = sup t d + amt cs d" for d using t(2) c by (auto simp: sup_shift_def)
    have cond: "(\<forall>d. wf_Int (sup s d + amt (c # cs) d)) \<longleftrightarrow> (\<forall>d. wf_Int (sup t d + amt cs d))" by (simp only: eq)
    have run: "for_op mint_supply (c # cs) s = for_op mint_supply cs t" using t(1) by (simp add: op_run bind_op_run)
    have join: "sup_shift (amt cs) t s' \<Longrightarrow> sup_shift (amt (c # cs)) s s'" for s'
      using c by (intro sup_shift_trans[OF t(2)]) auto
    have "good cs" "sup_ok t" using c t(2) by (auto simp: sup_shift_def)
    from Cons.IH[OF this(2,1)] show ?thesis unfolding cond run by (rule if_map) (use join in blast)+
  next
    case False
    with one c have "mint_supply c s = (Inl (Panic ''Int overflow''), s)" by auto
    moreover have "\<not> (\<forall>d. wf_Int (sup s d + amt (c # cs) d))" using False am by metis
    ultimately show ?thesis by (auto simp: op_run bind_op_run)
  qed
qed

lemma burn_supply_run:
  assumes ok: "sup_ok s" and c: "0 < Amount c" "wf_Int (Amount c)" "reDnm_MatchString (Denom c)"
    and le: "Amount c \<le> sup s (Denom c)"
  shows "\<exists>s'. burn_supply c s = (Inr (), s') \<and> sup_shift (\<lambda>d. if d = Denom c then - Amount c else 0) s s'"
proof -
  let ?d = "Denom c"
  have sf: "0 \<le> sup s ?d" "wf_Int (sup s ?d)" using sup_facts[OF ok] by blast+
  have gs: "GetSupply s ?d = Inr (coin ?d (sup s ?d))" by (rule GetSupply_eq[OF ok c(3)])
  have "Coin_Sub (coin ?d (sup s ?d)) c = Inr (coin ?d (sup s ?d - Amount c))"
    using Coin_Sub_eq[OF sf _ le, of ?d] c(1) by (simp add: coin_eta)
  then have "burn_supply c s = setSupply (coin ?d (sup s ?d - Amount c)) s"
    by (simp add: burn_supply_def bind_op_def pure_op_def gs lift_op_def)
  moreover have "wf_Int (sup s ?d - Amount c)" using wf_Int_diff[OF sf(1) _ sf(2) c(2)] c(1) by simp
  from setSupply_run[OF ok _ this c(3)] le obtain s' where
    "setSupply (coin ?d (sup s ?d - Amount c)) s = (Inr (), s')"
    "sup_shift (\<lambda>d'. if d' = ?d then sup s ?d - Amount c - sup s ?d else 0) s s'" by auto
  ultimately show ?thesis by (auto intro: sup_shift_cong)
qed

lemma burn_loop:
  assumes "sup_ok s" and "good cs" and "\<forall>d. amt cs d \<le> sup s d"
  shows "\<exists>s'. for_op burn_supply cs s = (Inr (), s') \<and> sup_shift (\<lambda>d. - amt cs d) s s'"
  using assms
proof (induction cs arbitrary: s)
  case Nil
  then show ?case by (auto simp: ret_op_def intro: sup_shift_refl)
next
  case (Cons c cs)
  note c = good_Cons[OF Cons.prems(2)]
  have "amt (c # cs) (Denom c) \<le> sup s (Denom c)" using Cons.prems(3) by blast
  then have "Amount c \<le> sup s (Denom c)" using c by auto
  then obtain t where t: "burn_supply c s = (Inr (), t)" "sup_shift (\<lambda>d. if d = Denom c then - Amount c else 0) s t"
    using burn_supply_run[OF Cons.prems(1), of c] c by blast
  have "amt cs d \<le> sup t d" for d
    using t(2) c spec[OF Cons.prems(3), of d] by (cases "d = Denom c") (auto simp: sup_shift_def)
  moreover have "good cs" "sup_ok t" using c t(2) by (auto simp: sup_shift_def)
  ultimately obtain s' where s': "for_op burn_supply cs t = (Inr (), s')" "sup_shift (\<lambda>d. - amt cs d) t s'"
    using Cons.IH by blast
  have "sup_shift (\<lambda>d. - amt (c # cs) d) s s'" using c by (intro sup_shift_trans[OF t(2) s'(2)]) auto
  with t(1) s'(1) show ?case by (auto simp: op_run bind_op_run)
qed

lemma MintCoins_effect:
  assumes inv: "bank_inv s" and wf: "wf_coins a" and run: "MintCoins e name a s = (Inr u, s')"
  shows "bank_inv s'" "\<And>d. sup s' d = sup s d + amt a d" "locked_amt e' s' = locked_amt e' s" "good a"
    "\<And>addr d. bal s' addr d = bal s addr d + (if addr = mod_address e name then amt a d else 0)"
proof -
  from run obtain addr s0 s1 where st: "authorized_module e name (Some Minter) s = (Inr addr, s0)"
    "addCoins addr a s0 = (Inr (), s1)" "for_op mint_supply a s1 = (Inr u, s')"
    by (auto simp: MintCoins_def res_simps)
  have ok: "ledger_ok s" "auth_wf s" "\<And>d. held s d = sup s d" using inv by (simp_all add: bank_inv_def ledger_ok_def)
  have g0: "grown s s0" "addr = mod_address e name" using authorized_module_Inr[OF ok(2) st(1)] by blast+
  have ok0: "ledger_ok s0" using grown_ledger[OF g0(1) ok(1)] .
  have s1: "good a" "shift addr (amt a) s0 s1" using addCoins_Inr[OF _ wf st(2)] ok0 by (auto simp: ledger_ok_def)
  have ok1: "ledger_ok s1" using shift_ledger[OF s1(2) ok0] .
  have s2: "sup_shift (amt a) s1 s'" using mint_loop[of s1 a] s1(1) st(3) ok1 by (auto simp: ledger_ok_def split: if_splits)
  show "good a" by (fact s1(1))
  show sup: "sup s' d = sup s d + amt a d" for d
    using s2 shift_frame(2)[OF s1(2)] grown_frame(3)[OF g0(1)] by (simp add: sup_shift_def)
  show "bal s' addr' d = bal s addr' d + (if addr' = mod_address e name then amt a d else 0)" for addr' d
    using sup_shift_frame(1)[OF s2] shift_bal_eq[OF s1(2)] grown_frame(1)[OF g0(1)] g0(2) by simp
  show "locked_amt e' s' = locked_amt e' s"
    by (simp add: sup_shift_frame(4)[OF s2] shift_frame(4)[OF s1(2)] grown_frame(6)[OF g0(1)])
  have "held s' d = held s d + amt a d" for d
    using sup_shift_frame(2)[OF s2] s1(2) grown_frame(2)[OF g0(1)] by (simp add: shift_def)
  then show "bank_inv s'" using sup_shift_ledger[OF s2 ok1] ok(3) sup by (simp add: bank_inv_def)
qed

lemma BurnCoins_effect:
  assumes inv: "bank_inv s" and wf: "wf_coins a" and run: "BurnCoins e name a s = (Inr u, s')"
  shows "bank_inv s'" "\<And>d. sup s' d = sup s d - amt a d" "locked_amt e' s' = locked_amt e' s" "good a"
    "spendable e s (mod_address e name) a"
    "\<And>addr d. bal s' addr d = bal s addr d - (if addr = mod_address e name then amt a d else 0)"
proof -
  from run obtain addr s0 s1 where st: "authorized_module e name (Some Burner) s = (Inr addr, s0)"
    "subUnlockedCoins e addr a s0 = (Inr (), s1)" "for_op burn_supply a s1 = (Inr u, s')"
    by (auto simp: BurnCoins_def res_simps)
  have ok: "ledger_ok s" "auth_wf s" "\<And>d. held s d = sup s d" using inv by (simp_all add: bank_inv_def ledger_ok_def)
  have g0: "grown s s0" "addr = mod_address e name" using authorized_module_Inr[OF ok(2) st(1)] by blast+
  have ok0: "ledger_ok s0" using grown_ledger[OF g0(1) ok(1)] .
  have s1: "good a" "spendable e s0 addr a" "shift addr (\<lambda>d. - amt a d) s0 s1"
    using subUnlockedCoins_Inr[OF _ _ wf st(2)] ok0 by (auto simp: ledger_ok_def)
  have ok1: "ledger_ok s1" using shift_ledger[OF s1(3) ok0] .
  show "good a" by (fact s1(1))
  show sp: "spendable e s (mod_address e name) a"
    using s1(2) g0(2) by (simp add: spendable_def grown_frame(1)[OF g0(1)] grown_frame(6)[OF g0(1)])
  have "amt a d \<le> sup s1 d" for d
  proof -
    have "amt a d \<le> bal s addr d" using sp g0(2) good_amt[OF s1(1), of d] locked_amt_nonneg[of s e addr d] bal_facts(1)[of s addr d] ok(1)
      by (cases "amt a d = 0") (auto simp: spendable_def ledger_ok_def le_less dest: spec[of _ d])
    also have "\<dots> \<le> held s d" using bal_facts(3)[of s addr d] ok(1) by (simp add: ledger_ok_def)
    finally show ?thesis using ok(3) shift_frame(2)[OF s1(3)] grown_frame(3)[OF g0(1)] by simp
  qed
  then have s2: "sup_shift (\<lambda>d. - amt a d) s1 s'" using burn_loop[of s1 a] s1(1) st(3) ok1 by (auto simp: ledger_ok_def)
  show sup: "sup s' d = sup s d - amt a d" for d
    using s2 shift_frame(2)[OF s1(3)] grown_frame(3)[OF g0(1)] by (simp add: sup_shift_def)
  show "bal s' addr' d = bal s addr' d - (if addr' = mod_address e name then amt a d else 0)" for addr' d
    using sup_shift_frame(1)[OF s2] shift_bal_eq[OF s1(3)] grown_frame(1)[OF g0(1)] g0(2) by simp
  show "locked_amt e' s' = locked_amt e' s"
    by (simp add: sup_shift_frame(4)[OF s2] shift_frame(4)[OF s1(3)] grown_frame(6)[OF g0(1)])
  have "held s' d = held s d - amt a d" for d
    using sup_shift_frame(2)[OF s2] s1(3) grown_frame(2)[OF g0(1)] by (simp add: shift_def)
  then show "bank_inv s'" using sup_shift_ledger[OF s2 ok1] ok(3) sup by (simp add: bank_inv_def)
qed

end
