(* ===== verification/BankDelegation.thy ===== *)
theory BankDelegation
  imports BankInv
begin

text \<open>
  Delegations move coins that may be locked, and the tracking of the vesting account keeps
  the books: the locked coins that leave the account are counted as delegated, so the rest
  stays covered.
\<close>

section \<open>Tracking in the account store\<close>

text \<open>How tracking changes an account: only the two counters.\<close>

definition retracked :: "AccountI \<Rightarrow> BaseVestingAccount \<Rightarrow> AccountI \<Rightarrow> BaseVestingAccount \<Rightarrow> bool" where
  "retracked acc b acc' b' \<longleftrightarrow> vesting_of acc' = Some b' \<and> base_of acc' = base_of acc \<and> account_ok acc'
     \<and> GetVestingCoins acc' = GetVestingCoins acc"

lemma retracked_intro:
  assumes "account_ok acc" and "vesting_of acc = Some b" and "good_bva b'" and "delegated_to b b'"
  shows "case acc of
      ContinuousAcc c \<Rightarrow> retracked acc b (ContinuousAcc (c\<lparr>cva_bva := b'\<rparr>)) b'
    | PeriodicAcc p \<Rightarrow> retracked acc b (PeriodicAcc (p\<lparr>pva_bva := b'\<rparr>)) b'
    | DelayedAcc d \<Rightarrow> retracked acc b (DelayedAcc (d\<lparr>dva_bva := b'\<rparr>)) b'
    | PermanentLockedAcc p \<Rightarrow> retracked acc b (PermanentLockedAcc (p\<lparr>plva_bva := b'\<rparr>)) b'
    | _ \<Rightarrow> True"
  using assms
  by (cases acc) (auto simp: retracked_def account_ok_def good_bva_def delegated_to_def continuous_ok_def periodic_ok_def
      delayed_ok_def permanent_ok_def fun_eq_iff Continuous_GetVestingCoins_def Continuous_GetVestedCoins_def
      Periodic_GetVestingCoins_def Periodic_GetVestedCoins_def Delayed_GetVestingCoins_def Delayed_GetVestedCoins_def
      PermanentLocked_GetVestingCoins_def)

lemma Account_TrackDelegation_Inr:
  assumes ok: "account_ok acc" and b: "vesting_of acc = Some b" and v: "GetVestingCoins acc t = Inr v" "good v"
    and g: "good B" "good a" and run: "Account_TrackDelegation acc t B a = Inr acc'"
  shows "\<exists>b'. retracked acc b acc' b' \<and> tracked v b a b'"
proof -
  have gb: "good_bva b" using ok b by (simp add: account_ok_def good_bva_def)
  have base: "\<exists>b'. Base_TrackDelegation b B v a = Inr b'"
    using b v(1) run by (cases acc) (auto simp: res_simps Continuous_TrackDelegation_def Periodic_TrackDelegation_def
        Delayed_TrackDelegation_def PermanentLocked_TrackDelegation_def PermanentLocked_GetVestingCoins_def)
  then obtain b' where b': "Base_TrackDelegation b B v a = Inr b'" "tracked v b a b'"
    using TrackDelegation_run[OF gb g(1) v(2) g(2)] by (auto split: if_splits)
  then have "retracked acc b acc' b'"
    using retracked_intro[OF ok b, of b'] b v(1) run unfolding tracked_def
    by (cases acc) (auto simp: res_simps Continuous_TrackDelegation_def Periodic_TrackDelegation_def
        Delayed_TrackDelegation_def PermanentLocked_TrackDelegation_def PermanentLocked_GetVestingCoins_def)
  with b'(2) show ?thesis by blast
qed

lemma Account_TrackUndelegation_Inr:
  assumes ok: "account_ok acc" and b: "vesting_of acc = Some b" and g: "good a"
  shows "\<exists>acc' b'. Account_TrackUndelegation acc a = Inr acc' \<and> retracked acc b acc' b' \<and> untracked b a b'"
proof -
  have gb: "good_bva b" using ok b by (simp add: account_ok_def good_bva_def)
  obtain b' where b': "Base_TrackUndelegation b a = Inr b'" "untracked b a b'" using TrackUndelegation_run[OF gb g] by blast
  then have bb: "good_bva b'" "delegated_to b b'" by (simp_all add: untracked_def)
  show ?thesis using retracked_intro[OF ok b bb] b b' by (cases acc) auto
qed

section \<open>The loop of a delegation\<close>

lemma delegateCoin_Inr:
  assumes ok: "bal_ok s" and B: "good B" and c: "0 < Amount c" "wf_Int (Amount c)" "reDnm_MatchString (Denom c)"
    and run: "delegateCoin addr B c s = (Inr B', s')"
  shows "good B' \<and> Amount c \<le> bal s addr (Denom c) \<and> shift addr (\<lambda>d. if d = Denom c then - Amount c else 0) s s'"
proof -
  let ?d = "Denom c" let ?b = "bal s addr ?d"
  have b: "0 \<le> ?b" "wf_Int ?b" using bal_facts[OF ok] by auto
  have gb: "GetBalance s addr ?d = Inr (coin ?d ?b)" by (rule GetBalance_eq[OF ok c(3)])
  have le: "Amount c \<le> ?b" and add: "Coins_Add B [coin ?d ?b] = Inr B'"
    and set: "\<exists>nb. Coin_Sub (coin ?d ?b) c = Inr nb \<and> setBalance addr nb s = (Inr (), s')"
    using run by (auto simp: delegateCoin_def res_simps pure_op_def gb Coin_IsLT_def split: if_splits)
  have "Coin_Sub (coin ?d ?b) c = Inr (coin ?d (?b - Amount c))"
    using Coin_Sub_eq[OF b _ le, of ?d] c(1) by (simp add: coin_eta)
  then have run: "setBalance addr (coin ?d (?b - Amount c)) s = (Inr (), s')" using set by simp
  have "good [coin ?d ?b]" using good_coin c le b by simp
  then have "good B'" using Coins_Add_Inr[OF add] B by blast
  moreover have enc: "encodable addr" using setBalance_unencodable[of addr "coin ?d (?b - Amount c)" s] run
    by (cases "encodable addr") auto
  have "wf_Int (?b - Amount c)" using wf_Int_diff[OF b(1) _ b(2) c(2)] c(1) by simp
  from setBalance_run[OF ok enc c(3) _ this] le run
  have "shift addr (\<lambda>d'. if d' = ?d then (?b - Amount c) - ?b else 0) s s'" by auto
  then have "shift addr (\<lambda>d. if d = ?d then - Amount c else 0) s s'" by (rule shift_cong) simp
  ultimately show ?thesis using le by blast
qed

lemma delegate_loop:
  assumes "bal_ok s" and "good B" and "good cs" and "fold_op (delegateCoin addr) B cs s = (Inr B', s')"
  shows "good B' \<and> (\<forall>d. amt cs d \<le> bal s addr d) \<and> shift addr (\<lambda>d. - amt cs d) s s'"
  using assms
proof (induction cs arbitrary: s B)
  case Nil
  then show ?case using bal_facts(1)[OF Nil(1)] by (auto simp: res_simps intro: shift_refl)
next
  case (Cons c cs)
  note c = good_Cons[OF Cons.prems(3)]
  from Cons.prems(4) obtain B1 t where t: "delegateCoin addr B c s = (Inr B1, t)" "fold_op (delegateCoin addr) B1 cs t = (Inr B', s')"
    by (auto simp: res_simps)
  have 1: "good B1" "Amount c \<le> bal s addr (Denom c)" "shift addr (\<lambda>d. if d = Denom c then - Amount c else 0) s t"
    using delegateCoin_Inr[OF Cons.prems(1,2) _ _ _ t(1)] c by blast+
  have gcs: "good cs" using c by blast
  note 2 = Cons.IH[OF shift_ok[OF 1(3)] 1(1) gcs t(2)]
  have "amt (c # cs) d \<le> bal s addr d" for d
    using 1(2) 2 shift_bal_eq[OF 1(3), of addr d] c by (cases "d = Denom c") (auto dest: spec[of _ d])
  moreover have "shift addr (\<lambda>d. - amt (c # cs) d) s s'" using 2 c by (intro shift_trans[OF 1(3)]) auto
  ultimately show ?case using 2 by blast
qed

section \<open>Tracking in the store\<close>

text \<open>After tracking, one vesting account may have other counters; \<open>locked\<close> changes only for it,
  by at most what the counter moved.\<close>

definition tracked_at :: "AccAddress \<Rightarrow> 'x bank_state_scheme \<Rightarrow> 'x bank_state_scheme \<Rightarrow> bool" where
  "tracked_at addr s s' \<longleftrightarrow> auth_wf s' \<and> accounts_ok s' \<and> (\<exists>a. s' = s\<lparr>Accounts := a\<rparr>)
     \<and> (\<forall>a. a \<noteq> addr \<longrightarrow> GetAccount s' a = GetAccount s a)"

lemma tracked_at_frame:
  assumes "tracked_at addr s s'"
  shows "bal s' = bal s" "held s' = held s" "sup s' = sup s" "bal_ok s' = bal_ok s" "sup_ok s' = sup_ok s"
    "a \<noteq> addr \<Longrightarrow> locked_amt e s' a = locked_amt e s a"
proof -
  obtain m where s': "s' = s\<lparr>Accounts := m\<rparr>" using assms by (auto simp: tracked_at_def)
  show "bal s' = bal s" "held s' = held s" "sup s' = sup s" "bal_ok s' = bal_ok s" "sup_ok s' = sup_ok s"
    by (simp_all add: s' bal_def held_def sup_def bal_ok_def sup_ok_def Balances_Get_def fun_eq_iff)
  show "locked_amt e s' a = locked_amt e s a" if "a \<noteq> addr"
    using assms that by (simp add: fun_eq_iff locked_amt_def LockedCoins_def tracked_at_def)
qed

lemma tracked_at_ledger: "tracked_at addr s s' \<Longrightarrow> ledger_ok s \<Longrightarrow> ledger_ok s'"
  using tracked_at_frame(4,5)[of addr s s'] by (simp add: ledger_ok_def tracked_at_def)

lemma tracked_at_refl: "ledger_ok s \<Longrightarrow> tracked_at addr s s"
proof -
  have "\<exists>a. s = s\<lparr>Accounts := a\<rparr>" by (intro exI[of _ "Accounts s"]) simp
  then show "ledger_ok s \<Longrightarrow> tracked_at addr s s" by (simp add: tracked_at_def ledger_ok_def)
qed

lemma SetAccount_tracked:
  assumes ok: "ledger_ok s" and acc: "GetAccount s addr = Some acc" and re: "retracked acc b acc' b'"
    and run: "SetAccount acc' s = (Inr u, s')"
  shows "tracked_at addr s s' \<and> GetAccount s' addr = Some acc'"
proof -
  have wf: "auth_wf s" "accounts_ok s" using ok by (simp_all add: ledger_ok_def)
  have "GetAddress acc' = addr" using re wf(1) acc by (simp add: retracked_def GetAddress_def auth_wf_def)
  with SetAccount_Inr[OF wf(1) run] obtain a where
    a: "s' = s\<lparr>Accounts := a\<rparr>" "auth_wf s'" "\<forall>x. GetAccount s' x = (if x = addr then Some acc' else GetAccount s x)" by auto
  have "accounts_ok s'" using wf(2) re a(3) by (auto simp: accounts_ok_def retracked_def split: if_splits)
  with a show ?thesis by (auto simp: tracked_at_def)
qed

lemma locked_vesting:
  assumes "accounts_ok s" and "GetAccount s addr = Some acc" and "vesting_of acc = Some b"
  shows "\<exists>v. GetVestingCoins acc (BlockTime e) = Inr v \<and> good v
    \<and> (\<forall>d. locked_amt e s addr d = max 0 (amt v d - amt (DelegatedVesting b) d))"
proof -
  have "account_ok acc" using assms(1,2) by (simp add: accounts_ok_def)
  from account_vesting[OF this assms(3), of "BlockTime e"] obtain v l where
    "GetVestingCoins acc (BlockTime e) = Inr v" "Account_LockedCoins acc (BlockTime e) = Inr l" "good v"
    "\<forall>d. amt l d = max 0 (amt v d - amt (DelegatedVesting b) d)" by blast
  then show ?thesis using assms(2,3) by (auto simp: locked_amt_def LockedCoins_def)
qed

lemma locked_plain:
  "GetAccount s addr = Some acc \<Longrightarrow> vesting_of acc = None \<Longrightarrow> locked_amt e s addr d = 0"
  by (simp add: locked_amt_def LockedCoins_def)

lemma from_vesting_locked: "0 \<le> a \<Longrightarrow> max 0 (v - (dv + from_vesting v dv a)) = max 0 (max 0 (v - dv) - a)"
  unfolding from_vesting_def by linarith

lemma trackDelegation_Inr:
  assumes ok: "ledger_ok s" and g: "good B" "good a" and run: "trackDelegation e addr B a s = (Inr u, s')"
  shows "tracked_at addr s s' \<and> (\<forall>d. locked_amt e s' addr d = max 0 (locked_amt e s addr d - amt a d))"
proof -
  from run obtain acc where acc: "GetAccount s addr = Some acc"
    by (auto simp: trackDelegation_def split: option.splits)
  have aok: "account_ok acc" using ok acc by (simp add: ledger_ok_def accounts_ok_def)
  show ?thesis
  proof (cases "vesting_of acc")
    case None
    then have "s' = s" using run acc by (simp add: trackDelegation_def)
    then show ?thesis using tracked_at_refl[OF ok] good_amt[OF g(2)] by (simp add: locked_plain[OF acc None])
  next
    case (Some b)
    from run acc Some obtain acc' where acc': "Account_TrackDelegation acc (BlockTime e) B a = Inr acc'" "SetAccount acc' s = (Inr u, s')"
      by (auto simp: trackDelegation_def res_simps)
    obtain v where v: "GetVestingCoins acc (BlockTime e) = Inr v" "good v"
      "\<forall>d. locked_amt e s addr d = max 0 (amt v d - amt (DelegatedVesting b) d)"
      using locked_vesting[OF _ acc Some] ok by (auto simp: ledger_ok_def)
    obtain b' where b': "retracked acc b acc' b'" "tracked v b a b'"
      using Account_TrackDelegation_Inr[OF aok Some v(1,2) g acc'(1)] by blast
    have t: "tracked_at addr s s'" "GetAccount s' addr = Some acc'" using SetAccount_tracked[OF ok acc b'(1) acc'(2)] by blast+
    have "accounts_ok s'" using t(1) by (simp add: tracked_at_def)
    from locked_vesting[OF this t(2), of b' e] b'(1) v(1)
    have "locked_amt e s' addr d = max 0 (amt v d - amt (DelegatedVesting b') d)" for d
      by (auto simp: retracked_def)
    moreover have "amt (DelegatedVesting b') d = amt (DelegatedVesting b) d + from_vesting (amt v d) (amt (DelegatedVesting b) d) (amt a d)" for d
      using b'(2) by (simp add: tracked_def Let_def)
    ultimately have "locked_amt e s' addr d = max 0 (locked_amt e s addr d - amt a d)" for d
      using v(3) from_vesting_locked[of "amt a d" "amt v d"] good_amt[OF g(2), of d] by simp
    with t(1) show ?thesis by blast
  qed
qed

lemma trackUndelegation_Inr:
  assumes ok: "ledger_ok s" and g: "good a" and run: "trackUndelegation addr a s = (Inr u, s')"
  shows "tracked_at addr s s' \<and> (\<forall>d. locked_amt e s' addr d \<le> locked_amt e s addr d + amt a d)"
proof -
  from run obtain acc where acc: "GetAccount s addr = Some acc"
    by (auto simp: trackUndelegation_def split: option.splits)
  have aok: "account_ok acc" using ok acc by (simp add: ledger_ok_def accounts_ok_def)
  show ?thesis
  proof (cases "vesting_of acc")
    case None
    then have "s' = s" using run acc by (simp add: trackUndelegation_def)
    then show ?thesis using tracked_at_refl[OF ok] good_amt[OF g] by simp
  next
    case (Some b)
    obtain acc' b' where b': "Account_TrackUndelegation acc a = Inr acc'" "retracked acc b acc' b'" "untracked b a b'"
      using Account_TrackUndelegation_Inr[OF aok Some g] by blast
    then have "SetAccount acc' s = (Inr u, s')" using run acc Some by (simp add: trackUndelegation_def res_simps)
    from SetAccount_tracked[OF ok acc b'(2) this] have t: "tracked_at addr s s'" "GetAccount s' addr = Some acc'" by blast+
    obtain v where v: "GetVestingCoins acc (BlockTime e) = Inr v"
      "\<forall>d. locked_amt e s addr d = max 0 (amt v d - amt (DelegatedVesting b) d)"
      using locked_vesting[OF _ acc Some] ok by (auto simp: ledger_ok_def)
    have "accounts_ok s'" using t(1) by (simp add: tracked_at_def)
    from locked_vesting[OF this t(2), of b' e] b'(2) v(1)
    have l': "locked_amt e s' addr d = max 0 (amt v d - amt (DelegatedVesting b') d)" for d
      by (auto simp: retracked_def)
    have "amt (DelegatedVesting b) d - amt a d \<le> amt (DelegatedVesting b') d" for d
    proof -
      have "0 \<le> amt (DelegatedFree b) d" using aok Some good_amt by (simp add: account_ok_def)
      then show ?thesis using b'(3) good_amt[OF g, of d] by (simp add: untracked_def Let_def min_def)
    qed
    moreover have "max 0 (x - y') \<le> max 0 (x - y) + z" if "y - z \<le> y'" "0 \<le> z" for x y y' z :: int
      using that by linarith
    ultimately have "locked_amt e s' addr d \<le> locked_amt e s addr d + amt a d" for d
      using good_amt[OF g, of d] unfolding l' v(2)[rule_format] by blast
    with t(1) show ?thesis by blast
  qed
qed

section \<open>Delegating and undelegating\<close>

lemma transferred_held:
  assumes "shift f (\<lambda>d. - g d) s s1" and "tracked_at x s1 s2" and "shift t g s2 s'"
  shows "held s' = held s" "sup s' = sup s"
    "bal s' a d = bal s a d - (if a = f then g d else 0) + (if a = t then g d else 0)"
  using shift_bal_eq[OF assms(1), of a d] shift_bal_eq[OF assms(3), of a d] shift_frame(2)[OF assms(1)]
    shift_frame(2)[OF assms(3)] tracked_at_frame(1-3)[OF assms(2)] assms(1,3) by (auto simp: shift_def fun_eq_iff)

lemma DelegateCoins_effect:
  assumes ok: "ledger_ok s" and wf: "wf_coins a" and run: "DelegateCoins e from to a s = (Inr u, s')"
  shows "ledger_ok s'" "held s' = held s" "transferred from to a s s'" "good a" "\<And>d. amt a d \<le> bal s from d"
    "\<And>d. locked_amt e s' from d = max 0 (locked_amt e s from d - amt a d)"
    "\<And>x. x \<noteq> from \<Longrightarrow> locked_amt e s' x = locked_amt e s x"
proof -
  have va: "good a" using run wf by (auto simp: DelegateCoins_def Coins_IsValid_iff split: if_splits)
  from run obtain B s1 s2 where st: "fold_op (delegateCoin from) [] a s = (Inr B, s1)"
    "trackDelegation e from B a s1 = (Inr (), s2)" "addCoins to a s2 = (Inr u, s')"
    by (auto simp: DelegateCoins_def res_simps split: if_splits)
  have g0: "good []" by (simp add: valid_coins_def wf_coins_def)
  have 1: "good B" "\<forall>d. amt a d \<le> bal s from d" "shift from (\<lambda>d. - amt a d) s s1"
    using delegate_loop[OF _ g0 va st(1)] ok by (auto simp: ledger_ok_def)
  have ok1: "ledger_ok s1" using shift_ledger[OF 1(3) ok] .
  have 2: "tracked_at from s1 s2" "\<forall>d. locked_amt e s2 from d = max 0 (locked_amt e s1 from d - amt a d)"
    using trackDelegation_Inr[OF ok1 1(1) va st(2)] by blast+
  have ok2: "ledger_ok s2" using tracked_at_ledger[OF 2(1) ok1] .
  have 3: "shift to (amt a) s2 s'" using addCoins_Inr[OF _ wf st(3)] ok2 by (auto simp: ledger_ok_def)
  show "ledger_ok s'" "good a" using shift_ledger[OF 3 ok2] va by blast+
  show "held s' = held s" using transferred_held(1)[OF 1(3) 2(1) 3] .
  show "transferred from to a s s'" using transferred_held(2,3)[OF 1(3) 2(1) 3] by (simp add: transferred_def)
  show "amt a d \<le> bal s from d" for d using 1(2) by blast
  show "locked_amt e s' from d = max 0 (locked_amt e s from d - amt a d)" for d
    using 2(2) by (simp add: shift_frame(4)[OF 3] shift_frame(4)[OF 1(3)])
  show "locked_amt e s' x = locked_amt e s x" if "x \<noteq> from" for x
    by (simp add: shift_frame(4)[OF 3] tracked_at_frame(6)[OF 2(1) that] shift_frame(4)[OF 1(3)])
qed

lemma DelegateCoins_covered:
  assumes "ledger_ok s" and "wf_coins a" and "DelegateCoins e from to a s = (Inr u, s')" and "covered e s"
  shows "covered e s'"
  unfolding covered_def
proof (intro allI)
  fix addr d
  note ef = DelegateCoins_effect[OF assms(1-3)]
  have c: "locked_amt e s addr d \<le> bal s addr d" using assms(4) by (simp add: covered_def)
  have nn: "0 \<le> amt a d" using good_amt[OF ef(4)] by blast
  show "locked_amt e s' addr d \<le> bal s' addr d"
    using ef(3,6,7) ef(5)[of d] c nn unfolding transferred_def by (cases "addr = from") auto
qed

lemma UndelegateCoins_effect:
  assumes ok: "ledger_ok s" and wf: "wf_coins a" and run: "UndelegateCoins e from to a s = (Inr u, s')"
  shows "ledger_ok s'" "held s' = held s" "transferred from to a s s'" "good a" "spendable e s from a"
    "\<And>d. locked_amt e s' to d \<le> locked_amt e s to d + amt a d"
    "\<And>x. x \<noteq> to \<Longrightarrow> locked_amt e s' x = locked_amt e s x"
proof -
  from run obtain s1 s2 where st: "subUnlockedCoins e from a s = (Inr (), s1)"
    "trackUndelegation to a s1 = (Inr (), s2)" "addCoins to a s2 = (Inr u, s')"
    by (auto simp: UndelegateCoins_def res_simps split: if_splits)
  have 1: "good a" "spendable e s from a" "shift from (\<lambda>d. - amt a d) s s1"
    using subUnlockedCoins_Inr[OF _ _ wf st(1)] ok by (auto simp: ledger_ok_def)
  have ok1: "ledger_ok s1" using shift_ledger[OF 1(3) ok] .
  have 2: "tracked_at to s1 s2" "\<forall>d. locked_amt e s2 to d \<le> locked_amt e s1 to d + amt a d"
    using trackUndelegation_Inr[OF ok1 1(1) st(2)] by blast+
  have ok2: "ledger_ok s2" using tracked_at_ledger[OF 2(1) ok1] .
  have 3: "shift to (amt a) s2 s'" using addCoins_Inr[OF _ wf st(3)] ok2 by (auto simp: ledger_ok_def)
  show "ledger_ok s'" "good a" "spendable e s from a" using shift_ledger[OF 3 ok2] 1 by blast+
  show "held s' = held s" using transferred_held(1)[OF 1(3) 2(1) 3] .
  show "transferred from to a s s'" using transferred_held(2,3)[OF 1(3) 2(1) 3] by (simp add: transferred_def)
  show "locked_amt e s' to d \<le> locked_amt e s to d + amt a d" for d
    using 2(2) by (simp add: shift_frame(4)[OF 3] shift_frame(4)[OF 1(3)])
  show "locked_amt e s' x = locked_amt e s x" if "x \<noteq> to" for x
    by (simp add: shift_frame(4)[OF 3] tracked_at_frame(6)[OF 2(1) that] shift_frame(4)[OF 1(3)])
qed

lemma UndelegateCoins_covered:
  assumes "ledger_ok s" and "wf_coins a" and "UndelegateCoins e from to a s = (Inr u, s')" and "covered e s"
  shows "covered e s'"
  unfolding covered_def
proof (intro allI)
  fix addr d
  note ef = UndelegateCoins_effect[OF assms(1-3)]
  have c: "locked_amt e s x d \<le> bal s x d" for x using assms(4) by (simp add: covered_def)
  have nn: "0 \<le> amt a d" using good_amt[OF ef(4)] by blast
  have sp: "amt a d \<le> bal s from d - locked_amt e s from d"
    using ef(5) c[of "from"] nn by (cases "amt a d = 0") (auto simp: spendable_def)
  have b: "bal s' addr d = bal s addr d - (if addr = from then amt a d else 0) + (if addr = to then amt a d else 0)"
    using ef(3) by (simp add: transferred_def)
  show "locked_amt e s' addr d \<le> bal s' addr d"
  proof (cases "addr = to")
    case True
    then show ?thesis using ef(6)[of d] c[of to] sp nn b by (cases "from = to") auto
  next
    case False
    then show ?thesis using fun_cong[OF ef(7)[OF False], of d] c[of addr] sp nn b by (cases "addr = from") auto
  qed
qed

end
