(* ===== verification/VestingMsg.thy ===== *)
theory VestingMsg
  imports BankDelegation
begin

text \<open>
  The messages that create vesting accounts: \<^verbatim>\<open>src/x/auth/vesting/msg_server.go\<close>. Each stores a
  new account whose coins are locked and then sends it these coins.
\<close>

section \<open>Messages\<close>

record MsgCreateVestingAccount =
  cv_FromAddress :: string
  cv_ToAddress :: string
  cv_Amount :: Coins
  cv_EndTime :: int64
  Delayed :: bool

record MsgCreatePermanentLockedAccount =
  pl_FromAddress :: string
  pl_ToAddress :: string
  pl_Amount :: Coins

record MsgCreatePeriodicVestingAccount =
  pv_FromAddress :: string
  pv_ToAddress :: string
  pv_StartTime :: int64
  pv_VestingPeriods :: "Period list"

definition validateAmount :: "Coins \<Rightarrow> unit res" where
  "validateAmount amount =
     (if \<not> Coins_IsValid amount then Inl (Err ''invalid coins'')
      else if \<not> Coins_IsAllPositive amount then Inl (Err ''invalid coins'') else Inr ())"

text \<open>The last part of the three handlers: number and store the account, then fund it.\<close>

definition fund_new_account ::
    "'e bank_env_scheme \<Rightarrow> (BaseAccount \<Rightarrow> AccountI) \<Rightarrow> AccAddress \<Rightarrow> AccAddress \<Rightarrow> Coins \<Rightarrow> ('x bank_state_scheme, unit) op" where
  "fund_new_account e mk from to amount =
     bind_op (NewAccount (BaseAcc (NewBaseAccountWithAddress to))) (\<lambda>baseAccount.
       seq_op (SetAccount (mk (base_of baseAccount))) (SendCoins e from to amount))"

definition CreateVestingAccount :: "'e bank_env_scheme \<Rightarrow> MsgCreateVestingAccount \<Rightarrow> ('x bank_state_scheme, unit) op" where
  "CreateVestingAccount e msg =
     bind_op (lift_op (StringToBytes e (cv_FromAddress msg))) (\<lambda>from.
     bind_op (lift_op (StringToBytes e (cv_ToAddress msg))) (\<lambda>to.
     seq_op (lift_op (validateAmount (cv_Amount msg)))
       (if le64 (cv_EndTime msg) 0 then fail_op (Err ''invalid end time'')
        else seq_op (pure_op (\<lambda>s. IsSendEnabledCoins s (cv_Amount msg)))
          (if blockedAddrs e to then fail_op (Err ''not allowed to receive funds'')
           else (\<lambda>s. if GetAccount s to \<noteq> None then (Inl (Err ''account already exists''), s)
             else fund_new_account e (\<lambda>baseAccount.
               let bva = NewBaseVestingAccount baseAccount (Coins_Sort (cv_Amount msg)) (cv_EndTime msg) in
               if Delayed msg then DelayedAcc \<lparr>dva_bva = bva\<rparr>
               else ContinuousAcc \<lparr>cva_bva = bva, cva_StartTime = BlockTime e\<rparr>)
               from to (cv_Amount msg) s)))))"

definition CreatePermanentLockedAccount ::
    "'e bank_env_scheme \<Rightarrow> MsgCreatePermanentLockedAccount \<Rightarrow> ('x bank_state_scheme, unit) op" where
  "CreatePermanentLockedAccount e msg =
     bind_op (lift_op (StringToBytes e (pl_FromAddress msg))) (\<lambda>from.
     bind_op (lift_op (StringToBytes e (pl_ToAddress msg))) (\<lambda>to.
     seq_op (lift_op (validateAmount (pl_Amount msg)))
       (seq_op (pure_op (\<lambda>s. IsSendEnabledCoins s (pl_Amount msg)))
          (if blockedAddrs e to then fail_op (Err ''not allowed to receive funds'')
           else (\<lambda>s. if GetAccount s to \<noteq> None then (Inl (Err ''account already exists''), s)
             else fund_new_account e (\<lambda>baseAccount. PermanentLockedAcc (NewPermanentLockedAccount baseAccount (pl_Amount msg)))
               from to (pl_Amount msg) s)))))"

definition periods_total :: "Period list \<Rightarrow> Coins res" where
  "periods_total periods =
     fold_r (\<lambda>totalCoins period.
         if less64 (Length period) 1 then Inl (Err ''invalid period length'')
         else Coins_Add totalCoins (period_Amount period)) [] periods"

definition CreatePeriodicVestingAccount ::
    "'e bank_env_scheme \<Rightarrow> MsgCreatePeriodicVestingAccount \<Rightarrow> ('x bank_state_scheme, unit) op" where
  "CreatePeriodicVestingAccount e msg =
     bind_op (lift_op (StringToBytes e (pv_FromAddress msg))) (\<lambda>from.
     bind_op (lift_op (StringToBytes e (pv_ToAddress msg))) (\<lambda>to.
     if less64 (pv_StartTime msg) 1 then fail_op (Err ''invalid start time'')
     else bind_op (lift_op (periods_total (pv_VestingPeriods msg))) (\<lambda>totalCoins.
       (\<lambda>s. if GetAccount s to \<noteq> None then (Inl (Err ''account already exists''), s)
         else seq_op (pure_op (\<lambda>s. IsSendEnabledCoins s totalCoins))
           (fund_new_account e (\<lambda>baseAccount.
              PeriodicAcc (NewPeriodicVestingAccount baseAccount (Coins_Sort totalCoins) (pv_StartTime msg) (pv_VestingPeriods msg)))
              from to totalCoins) s))))"

section \<open>Funding a new account\<close>

text \<open>What the constructor has to provide: a vesting account for the base account it gets,
  well formed and with no more locked than the amount sent.\<close>

definition grants :: "(BaseAccount \<Rightarrow> AccountI) \<Rightarrow> Coins \<Rightarrow> bool" where
  "grants mk a \<longleftrightarrow> (\<forall>b. base_of (mk b) = b \<and> account_ok (mk b)
     \<and> (\<exists>v. vesting_of (mk b) = Some v \<and> (\<forall>d. amt (OriginalVesting v) d \<le> amt a d) \<and> DelegatedVesting v = []))"

lemma created_frame:
  assumes "created s addr acc s'"
  shows "bal s' = bal s" "held s' = held s" "sup s' = sup s" "bal_ok s' = bal_ok s" "sup_ok s' = sup_ok s" "auth_wf s'"
    "a \<noteq> addr \<Longrightarrow> locked_amt e s' a = locked_amt e s a" "GetAccount s' addr = Some acc"
    "account_ok acc \<Longrightarrow> accounts_ok s \<Longrightarrow> accounts_ok s'"
proof -
  obtain m n where s': "s' = s\<lparr>NextNumber := n, Accounts := m\<rparr>" using assms by (auto simp: created_def)
  show "bal s' = bal s" "held s' = held s" "sup s' = sup s" "bal_ok s' = bal_ok s" "sup_ok s' = sup_ok s"
    by (simp_all add: s' bal_def held_def sup_def bal_ok_def sup_ok_def Balances_Get_def fun_eq_iff)
  show "auth_wf s'" "GetAccount s' addr = Some acc" using assms by (simp_all add: created_def)
  show "locked_amt e s' a = locked_amt e s a" if "a \<noteq> addr"
    using assms that by (simp add: fun_eq_iff locked_amt_def LockedCoins_def created_def)
  show "account_ok acc \<Longrightarrow> accounts_ok s \<Longrightarrow> accounts_ok s'"
    using assms by (auto simp: accounts_ok_def created_def split: if_splits)
qed

lemma fund_new_account_Inr:
  assumes ok: "ledger_ok s" and g: "grants mk a" and run: "fund_new_account e mk from to a s = (Inr u, s')"
  obtains b s1 where "created s to (mk b) s1" "SendCoins e from to a s1 = (Inr u, s')" "ledger_ok s1"
proof -
  let ?n = "Sequence_Peek (NextNumber s)"
  let ?b = "(NewBaseAccountWithAddress to)\<lparr>AccountNumber := ?n\<rparr>"
  let ?t = "s\<lparr>NextNumber := Some (?n + 1)\<rparr>"
  have "NewAccount (BaseAcc (NewBaseAccountWithAddress to)) s = (Inr (BaseAcc ?b), ?t)"
    by (simp add: NewAccount_def bind_op_run op_run NextAccountNumber_eq SetAccountNumber_def)
  then obtain s1 where s1: "SetAccount (mk ?b) ?t = (Inr (), s1)" "SendCoins e from to a s1 = (Inr u, s')"
    using run by (auto simp: fund_new_account_def res_simps)
  have "GetAddress (mk ?b) = to" using g by (simp add: grants_def GetAddress_def NewBaseAccountWithAddress_def)
  then have c: "created s to (mk ?b) s1" using created_intro[OF _ s1(1)] ok by (simp add: ledger_ok_def)
  have "account_ok (mk ?b)" using g by (simp add: grants_def)
  then have "ledger_ok s1" using created_frame[OF c] ok by (simp add: ledger_ok_def)
  with c s1(2) that show thesis by blast
qed

lemma fund_new_account_keeps:
  assumes inv: "bank_inv s" and g: "grants mk a" and wf: "wf_coins a" and run: "fund_new_account e mk from to a s = (Inr u, s')"
  shows "bank_inv s'" "sup s' = sup s" "covered e s \<Longrightarrow> covered e s'"
proof -
  have ok: "ledger_ok s" using inv by (simp add: bank_inv_def)
  from fund_new_account_Inr[OF ok g run] obtain b s1 where
    c: "created s to (mk b) s1" and send: "SendCoins e from to a s1 = (Inr u, s')" and ok1: "ledger_ok s1" by blast
  note ef = SendCoins_effect[OF ok1 wf send]
  have "bank_inv s1" using inv ok1 created_frame(2,3)[OF c] by (simp add: bank_inv_def)
  then show "bank_inv s'" by (rule SendCoins_keeps(1)[OF wf send])
  show "sup s' = sup s" using ef(3) created_frame(3)[OF c] by (simp add: transferred_def)
  show "covered e s'" if cov: "covered e s"
    unfolding covered_def
  proof (intro allI)
    fix addr d
    have nn: "0 \<le> amt a d" using good_amt[OF ef(4)] by blast
    have b0: "0 \<le> bal s x d" for x using bal_facts(1)[of s x d] ok by (simp add: ledger_ok_def)
    have l0: "0 \<le> locked_amt e s1 x d" for x using locked_amt_nonneg[of s1 e x d] ok1 by (simp add: ledger_ok_def)
    have bal: "bal s' addr d = bal s addr d - (if addr = from then amt a d else 0) + (if addr = to then amt a d else 0)"
      using ef(3) created_frame(1)[OF c] by (simp add: transferred_def)
    have sp: "amt a d \<noteq> 0 \<Longrightarrow> amt a d \<le> bal s from d - locked_amt e s1 from d"
      using ef(5) nn created_frame(1)[OF c] by (simp add: spendable_def)
    have lto: "locked_amt e s1 to d \<le> amt a d"
    proof -
      obtain v where v: "vesting_of (mk b) = Some v" "amt (OriginalVesting v) d \<le> amt a d" "DelegatedVesting v = []"
        using g unfolding grants_def by blast
      have "account_ok (mk b)" using g by (simp add: grants_def)
      from account_vesting[OF this v(1), of "BlockTime e"] v created_frame(8)[OF c] nn show ?thesis
        by (auto simp: locked_amt_def LockedCoins_def dest: spec[of _ d])
    qed
    show "locked_amt e s' addr d \<le> bal s' addr d"
    proof (cases "addr = to")
      case True
      then show ?thesis using lto b0[of to] l0[of to] sp bal nn unfolding ef(6)
        by (cases "from = to"; cases "amt a d = 0") auto
    next
      case False
      have "locked_amt e s1 addr d = locked_amt e s addr d" by (simp add: created_frame(7)[OF c False])
      then show ?thesis using cov sp bal nn False unfolding ef(6) covered_def
        by (cases "addr = from"; cases "amt a d = 0") auto
    qed
  qed
qed

section \<open>The grants of the handlers\<close>

lemma Coins_Sort_good: "good a \<Longrightarrow> Coins_Sort a = a"
  using valid_wf_strict(1) by (simp add: Coins_Sort_def sort_key_strict)

text \<open>An amount below this bound can be multiplied by a decimal without overflow.\<close>

definition moderate :: "Coins \<Rightarrow> bool" where
  "moderate a \<longleftrightarrow> (\<forall>c\<in>set a. Amount c < 2 ^ 255)"

lemma grants_delayed_continuous:
  assumes "good a" and "moderate a" and "0 \<le> sint t"
  shows "grants (\<lambda>b. let bva = NewBaseVestingAccount b (Coins_Sort a) et in
      if dl then DelayedAcc \<lparr>dva_bva = bva\<rparr> else ContinuousAcc \<lparr>cva_bva = bva, cva_StartTime = t\<rparr>) a"
  using assms by (cases dl) (auto simp: grants_def Let_def NewBaseVestingAccount_def Coins_Sort_good account_ok_def delayed_ok_def
      continuous_ok_def moderate_def valid_coins_def wf_coins_def)

lemma grants_permanent: "good a \<Longrightarrow> grants (\<lambda>b. PermanentLockedAcc (NewPermanentLockedAccount b a)) a"
  by (auto simp: grants_def NewPermanentLockedAccount_def NewBaseVestingAccount_def account_ok_def permanent_ok_def
      valid_coins_def wf_coins_def)

lemma periods_total_Inr:
  assumes "periods_total ps = Inr tot" and "\<forall>p\<in>set ps. good (period_Amount p)"
  shows "good tot \<and> (\<forall>d. amt tot d = sum_list (map (\<lambda>p. amt (period_Amount p) d) ps)) \<and> (\<forall>p\<in>set ps. 1 \<le> sint (Length p))"
proof -
  have "good tot \<and> (\<forall>d. amt tot d = amt acc d + sum_list (map (\<lambda>p. amt (period_Amount p) d) ps)) \<and> (\<forall>p\<in>set ps. 1 \<le> sint (Length p))"
    if "fold_r (\<lambda>totalCoins period. if less64 (Length period) 1 then Inl (Err ''invalid period length'')
        else Coins_Add totalCoins (period_Amount period)) acc ps = Inr tot" "good acc" for acc
    using that assms(2)
  proof (induction ps arbitrary: acc)
    case (Cons p ps)
    then obtain acc' where a: "\<not> less64 (Length p) 1" "Coins_Add acc (period_Amount p) = Inr acc'"
      "fold_r (\<lambda>totalCoins period. if less64 (Length period) 1 then Inl (Err ''invalid period length'')
        else Coins_Add totalCoins (period_Amount period)) acc' ps = Inr tot"
      by (auto simp: res_simps split: if_splits)
    have "good acc'" "\<And>d. amt acc' d = amt acc d + amt (period_Amount p) d"
      using Coins_Add_Inr[OF a(2)] Cons.prems(2,3) by auto
    with Cons.IH[OF a(3)] Cons.prems(3) a(1) show ?case by auto
  qed simp
  from this[of "[]"] assms(1) show ?thesis by (simp add: periods_total_def valid_coins_def wf_coins_def)
qed

lemma end_time:
  assumes "0 \<le> sint start" and "\<forall>p\<in>set ps. 0 \<le> sint (Length p)"
    and "sint start + sum_list (map (sint \<circ> Length) ps) < 2 ^ 63"
  shows "sint (foldl (\<lambda>endTime p. endTime + Length p) start ps) = sint start + sum_list (map (sint \<circ> Length) ps)"
  using assms
proof (induction ps arbitrary: start)
  case (Cons p ps)
  have nn: "0 \<le> sum_list (map (sint \<circ> Length) ps)" using Cons.prems(2) by (intro sum_list_nonneg) auto
  have "sint (start + Length p) = sint start + sint (Length p)" using Cons.prems nn by (intro sint_add64) (auto simp: o_def)
  with Cons.IH[of "start + Length p"] Cons.prems show ?case by simp
qed simp

lemma grants_periodic:
  assumes tot: "periods_total ps = Inr tot" and ps: "\<forall>p\<in>set ps. good (period_Amount p)"
    and start: "1 \<le> sint start" "sint start + sum_list (map (sint \<circ> Length) ps) < 2 ^ 63"
  shows "grants (\<lambda>b. PeriodicAcc (NewPeriodicVestingAccount b (Coins_Sort tot) start ps)) tot"
proof -
  note t = periods_total_Inr[OF tot ps]
  have "sint (foldl (\<lambda>endTime p. endTime + Length p) start ps) = sint start + sum_list (map (sint \<circ> Length) ps)"
    using start t by (intro end_time) auto
  then show ?thesis using t ps start(1) Coins_Sort_good[of tot]
    by (auto simp: grants_def NewPeriodicVestingAccount_def NewBaseVestingAccount_def account_ok_def periodic_ok_def
        valid_coins_def[of "[]"] wf_coins_def[of "[]"])
qed

section \<open>The handlers keep the invariants\<close>

definition moves_ok :: "'e bank_env_scheme \<Rightarrow> 'x bank_state_scheme \<Rightarrow> 'x bank_state_scheme \<Rightarrow> bool" where
  "moves_ok e s s' \<longleftrightarrow> bank_inv s' \<and> (covered e s \<longrightarrow> covered e s')"

lemma moves_ok_fund:
  "bank_inv s \<Longrightarrow> grants mk a \<Longrightarrow> wf_coins a \<Longrightarrow> fund_new_account e mk from to a s = (Inr u, s') \<Longrightarrow>
   moves_ok e s s' \<and> sup s' = sup s"
  using fund_new_account_keeps[of s mk a e "from" to u s'] by (simp add: moves_ok_def)

lemma validateAmount_Inr: "validateAmount a = Inr u \<Longrightarrow> valid_coins a"
  by (auto simp: validateAmount_def Coins_IsValid_iff split: if_splits)

lemma CreateVestingAccount_keeps:
  assumes inv: "bank_inv s" and m: "wf_coins (cv_Amount msg)" "moderate (cv_Amount msg)" and t: "0 \<le> sint (BlockTime e)"
    and run: "CreateVestingAccount e msg s = (Inr u, s')"
  shows "moves_ok e s s' \<and> sup s' = sup s"
proof -
  let ?mk = "\<lambda>b. let bva = NewBaseVestingAccount b (Coins_Sort (cv_Amount msg)) (cv_EndTime msg) in
      if Delayed msg then DelayedAcc \<lparr>dva_bva = bva\<rparr> else ContinuousAcc \<lparr>cva_bva = bva, cva_StartTime = BlockTime e\<rparr>"
  from run obtain f t' where v: "validateAmount (cv_Amount msg) = Inr ()" "fund_new_account e ?mk f t' (cv_Amount msg) s = (Inr u, s')"
    by (auto simp: CreateVestingAccount_def res_simps pure_op_def split: if_splits)
  have "grants ?mk (cv_Amount msg)" using validateAmount_Inr[OF v(1)] m t by (intro grants_delayed_continuous) auto
  from moves_ok_fund[OF inv this m(1) v(2)] show ?thesis .
qed

lemma CreatePermanentLockedAccount_keeps:
  assumes inv: "bank_inv s" and m: "wf_coins (pl_Amount msg)" and run: "CreatePermanentLockedAccount e msg s = (Inr u, s')"
  shows "moves_ok e s s' \<and> sup s' = sup s"
proof -
  let ?mk = "\<lambda>b. PermanentLockedAcc (NewPermanentLockedAccount b (pl_Amount msg))"
  from run obtain f t where v: "validateAmount (pl_Amount msg) = Inr ()" "fund_new_account e ?mk f t (pl_Amount msg) s = (Inr u, s')"
    by (auto simp: CreatePermanentLockedAccount_def res_simps pure_op_def split: if_splits)
  have "grants ?mk (pl_Amount msg)" using validateAmount_Inr[OF v(1)] m by (intro grants_permanent) auto
  from moves_ok_fund[OF inv this m v(2)] show ?thesis .
qed

lemma CreatePeriodicVestingAccount_keeps:
  assumes inv: "bank_inv s" and m: "\<forall>p\<in>set (pv_VestingPeriods msg). good (period_Amount p)"
    and t: "sint (pv_StartTime msg) + sum_list (map (sint \<circ> Length) (pv_VestingPeriods msg)) < 2 ^ 63"
    and run: "CreatePeriodicVestingAccount e msg s = (Inr u, s')"
  shows "moves_ok e s s' \<and> sup s' = sup s"
proof -
  from run obtain f t' tot where v: "\<not> less64 (pv_StartTime msg) 1" "periods_total (pv_VestingPeriods msg) = Inr tot"
    "fund_new_account e (\<lambda>b. PeriodicAcc (NewPeriodicVestingAccount b (Coins_Sort tot) (pv_StartTime msg) (pv_VestingPeriods msg))) f t' tot s
     = (Inr u, s')"
    by (auto simp: CreatePeriodicVestingAccount_def res_simps pure_op_def split: if_splits)
  have st: "1 \<le> sint (pv_StartTime msg)" using v(1) by simp
  have "wf_coins tot" using periods_total_Inr[OF v(2) m] by blast
  from moves_ok_fund[OF inv grants_periodic[OF v(2) m st t] this v(3)] show ?thesis .
qed

end
