(* ===== verification/BankSample.thy ===== *)
theory BankSample
  imports BankInv
begin

text \<open>
  A small ledger for concrete runs: a continuous vesting account at address 1 and a base
  account at address 2, holding 1000 and 500 of one denomination. It satisfies the invariants.
\<close>

definition sample_env :: bank_env where
  "sample_env = \<lparr>permAddrs = (\<lambda>n. if n = ''mint'' then Some [Minter, Burner] else if n = ''bonded'' then Some [Staking] else None),
     mod_address = (\<lambda>n. if n = ''mint'' then [8] else [9]), blockedAddrs = (\<lambda>a. a = [9]), mintCoinsRestrictionFn = (\<lambda>_. Inr ()),
     authority = ''gov'', StringToBytes = (\<lambda>x. if x = ''a1'' then Inr [1] else if x = ''a2'' then Inr [2] else if x = ''a3'' then Inr [3]
       else if x = ''a9'' then Inr [9] else Inl (Err ''decoding bech32 failed'')),
     AccAddressFromBech32 = (\<lambda>x. if x = ''a1'' then Inr [1] else if x = ''a2'' then Inr [2] else if x = ''a3'' then Inr [3]
       else Inl (Err ''decoding bech32 failed'')), BlockTime = 20\<rparr>"

definition sample_bank :: bank_state where
  "sample_bank = \<lparr>Accounts = \<lparr>im_map = [([1], sample_account), ([2], BaseAcc \<lparr>Address = [2], PubKey = Some [2], AccountNumber = 1, Sequence = 0\<rparr>)],
       im_idx = [(0, [1]), (1, [2])]\<rparr>, NextNumber = Some 2, Supply = [(''stake'', 1500)], SendEnabledMap = [],
     Balances = \<lparr>im_map = [(((1, [1]), ''stake''), 1000), (((1, [2]), ''stake''), 500)],
       im_idx = [((''stake'', (1, [1])), ()), ((''stake'', (1, [2])), ())]\<rparr>, BankParams = Some \<lparr>params_SendEnabled = [], DefaultSendEnabled = True\<rparr>\<rparr>"

lemma sample_account_simps: "GetAccountNumber sample_account = 0" "GetAddress sample_account = [1]"
  "GetAccountNumber (BaseAcc b) = AccountNumber b" "GetAddress (BaseAcc b) = Address b"
  by (simp_all add: sample_account_def GetAccountNumber_def GetAddress_def NewContinuousVestingAccount_def NewBaseVestingAccount_def
      NewBaseAccountWithAddress_def)

lemma sample_GetAccount:
  "GetAccount sample_bank addr = (if addr = [1] then Some sample_account
     else if addr = [2] then Some (BaseAcc \<lparr>Address = [2], PubKey = Some [2], AccountNumber = 1, Sequence = 0\<rparr>) else None)"
  by (simp add: sample_bank_def GetAccount_def IndexedMap_Get_def kv_get_map_of)

lemma sample_auth: "auth_inv sample_bank" "room sample_bank"
proof -
  have "unique_agrees account_by_number (im_map (Accounts sample_bank)) (im_idx (Accounts sample_bank))"
    by (auto simp: unique_agrees_def sample_bank_def kv_get_map_of account_by_number_def sample_account_simps)
  then show "auth_inv sample_bank"
    by (auto simp: auth_inv_def auth_wf_def unique.coherent_def sample_GetAccount sample_account_simps)
       (simp_all add: sample_bank_def Sequence_Peek_def)
  show "room sample_bank" by (simp add: room_def sample_bank_def Sequence_Peek_def)
qed

lemma sample_denom: "reDnm_MatchString ''stake''"
  by (simp add: reDnm_MatchString_def is_letter_def is_digit_def is_denom_char_def in_range_def)

lemma sample_inv: "bank_inv sample_bank"
proof -
  let ?m = "im_map (Balances sample_bank)" and ?i = "im_idx (Balances sample_bank)"
  have wf: "kv_wf ?m" "kv_wf ?i" by (simp_all add: sample_bank_def)
  have get: "kv_get ?m k = (if k = ((1, [1]), ''stake'') then Some 1000 else if k = ((1, [2]), ''stake'') then Some 500 else None)" for k
    using kv_get_map_of[OF wf(1), of k] by (simp add: sample_bank_def)
  have idx: "kv_get ?i k = (if k = (''stake'', (1, [1])) then Some () else if k = (''stake'', (1, [2])) then Some () else None)" for k
    using kv_get_map_of[OF wf(2), of k] by (simp add: sample_bank_def)
  have "reverse.coherent (Balances sample_bank)"
    using wf by (auto simp: reverse.coherent_def reverse_agrees_def get idx)
  moreover have "0 < v \<and> wf_Int v \<and> reDnm_MatchString (snd k)" if "kv_get ?m k = Some v" for k v
    using that sample_denom by (auto simp: get wf_Int_def MaxBitLen_def split: if_splits)
  ultimately have b: "bal_ok sample_bank" unfolding bal_ok_def by blast
  have s: "sup_ok sample_bank" by (auto simp: sup_ok_def sample_bank_def sample_denom wf_Int_def MaxBitLen_def split: if_splits)
  have h: "held sample_bank d = sup sample_bank d" for d
    by (simp add: held_def kv.total_def sup_def sample_bank_def)
  have "accounts_ok sample_bank" using sample_account_ok by (simp add: accounts_ok_def sample_GetAccount account_ok_def)
  with b s h sample_auth(1) show ?thesis by (simp add: bank_inv_def ledger_ok_def auth_inv_def)
qed

lemma sample_bal: "bal sample_bank addr d = (if d = ''stake'' then if addr = [1] then 1000 else if addr = [2] then 500 else 0 else 0)"
  by (simp add: bal_def Balances_Get_def IndexedMap_Get_def sample_bank_def balance_key_def kv_get_map_of encodable_def MaxBytesKeyNonTerminalSize_def)

lemma sample_locked_plain: "addr \<noteq> [1] \<Longrightarrow> locked_amt e sample_bank addr d = 0"
  by (auto simp: locked_amt_def LockedCoins_def sample_GetAccount)

lemma sample_covered: "covered e sample_bank"
  unfolding covered_def
proof (intro allI)
  fix addr d
  show "locked_amt e sample_bank addr d \<le> bal sample_bank addr d"
  proof (cases "addr = [1]")
    case True
    let ?v = "cva_bva (NewContinuousVestingAccount (NewBaseAccountWithAddress [1]) [coin ''stake'' 1000] 10 40)"
    have v: "vesting_of sample_account = Some ?v" by (simp add: sample_account_def)
    from account_vesting[OF sample_account_ok v, of "BlockTime e"] obtain w l where
      l: "Account_LockedCoins sample_account (BlockTime e) = Inr l" "\<forall>d. amt w d \<le> amt (OriginalVesting ?v) d"
      "\<forall>d. amt l d = max 0 (amt w d - amt (DelegatedVesting ?v) d)" by blast
    have o: "amt (OriginalVesting ?v) d = (if d = ''stake'' then 1000 else 0)" "DelegatedVesting ?v = []"
      by (simp_all add: NewContinuousVestingAccount_def NewBaseVestingAccount_def)
    have "amt w d \<le> (if d = ''stake'' then 1000 else 0)" using spec[OF l(2), of d] unfolding o(1) .
    then have "amt l d \<le> (if d = ''stake'' then 1000 else 0)" using spec[OF l(3), of d] unfolding o(2) by simp
    then show ?thesis using True v l(1) by (auto simp: locked_amt_def LockedCoins_def sample_GetAccount sample_bal split: if_splits)
  next
    case False
    then show ?thesis by (simp add: sample_locked_plain sample_bal)
  qed
qed

end
