(* ===== verification/PeriodicVesting.thy ===== *)
theory PeriodicVesting
  imports VestingMsg BankSample
begin

text \<open>
  Two gaps in the handler of \<open>MsgCreatePeriodicVestingAccount\<close>, by concrete runs on the sample
  ledger: it does not check the amounts of the single periods, and it does not check whether
  the recipient may receive coins.
\<close>

text \<open>The amounts 50 and -30 add up to a valid total of 20.\<close>

definition uneven_periods :: MsgCreatePeriodicVestingAccount where
  "uneven_periods = \<lparr>pv_FromAddress = ''a2'', pv_ToAddress = ''a3'', pv_StartTime = 5,
     pv_VestingPeriods = [\<lparr>Length = 10, period_Amount = [coin ''stake'' 50]\<rparr>, \<lparr>Length = 10, period_Amount = [coin ''stake'' (- 30)]\<rparr>]\<rparr>"

lemma negative_period_runs:
  "fst (CreatePeriodicVestingAccount sample_env uneven_periods sample_bank) = Inr ()"
  "LockedCoins sample_env (snd (CreatePeriodicVestingAccount sample_env uneven_periods sample_bank)) [3] = Inl (Panic ''negative coin amount'')"
  "fst (SendCoins sample_env [3] [2] [coin ''stake'' 1] (snd (CreatePeriodicVestingAccount sample_env uneven_periods sample_bank))) =
     Inl (Panic ''negative coin amount'')"
  by code_simp+


text \<open>Address 9 is blocked: the handler of the continuous accounts refuses it.\<close>

definition blocked_periods :: MsgCreatePeriodicVestingAccount where
  "blocked_periods = \<lparr>pv_FromAddress = ''a2'', pv_ToAddress = ''a9'', pv_StartTime = 5,
     pv_VestingPeriods = [\<lparr>Length = 10, period_Amount = [coin ''stake'' 50]\<rparr>]\<rparr>"

definition blocked_vesting :: MsgCreateVestingAccount where
  "blocked_vesting = \<lparr>cv_FromAddress = ''a2'', cv_ToAddress = ''a9'', cv_Amount = [coin ''stake'' 50], cv_EndTime = 40, Delayed = False\<rparr>"

lemma blocked_recipient_accepted:
  "fst (CreatePeriodicVestingAccount sample_env blocked_periods sample_bank) = Inr ()"
  "is_ok (fst (CreateVestingAccount sample_env blocked_vesting sample_bank)) = False"
  by code_simp+

end
