(* ===== verification/Evolution.thy ===== *)
theory Evolution
  imports Bank
begin

text \<open>
  Reasoning about operations that succeed. An operation evolves the state by a relation \<open>rel\<close>
  if every successful run from a state that satisfies \<open>ok\<close> ends in one that does, related to the
  first. The combinators of the model preserve this for every reflexive and transitive relation,
  so that it has to be shown for the primitive operations only.
\<close>

named_theorems evolve_intros \<open>composition rules for evolving operations\<close>

locale evolution =
  fixes ok :: "'s \<Rightarrow> bool" and rel :: "'s \<Rightarrow> 's \<Rightarrow> bool"
  assumes rel_refl: "ok s \<Longrightarrow> rel s s"
    and rel_trans: "rel s t \<Longrightarrow> rel t u \<Longrightarrow> rel s u"
begin

definition evolves :: "('s, 'a) op \<Rightarrow> bool" where
  "evolves m \<longleftrightarrow> (\<forall>s x s'. ok s \<longrightarrow> m s = (Inr x, s') \<longrightarrow> ok s' \<and> rel s s')"

lemma evolvesI: "(\<And>s x s'. ok s \<Longrightarrow> m s = (Inr x, s') \<Longrightarrow> ok s' \<and> rel s s') \<Longrightarrow> evolves m"
  by (simp add: evolves_def)

lemma evolvesD: "evolves m \<Longrightarrow> ok s \<Longrightarrow> m s = (Inr x, s') \<Longrightarrow> ok s' \<and> rel s s'"
  by (simp add: evolves_def)

lemma evolves_same [evolve_intros]:
  "evolves (ret_op x)" "evolves (fail_op err)" "evolves (lift_op r)" "evolves (pure_op f)" "evolves (gets_op g)"
  by (auto simp: evolves_def res_simps pure_op_def rel_refl)

lemma evolves_bind [evolve_intros]: "evolves m \<Longrightarrow> (\<And>x. evolves (k x)) \<Longrightarrow> evolves (bind_op m k)"
  unfolding evolves_def op_Inr(1) by (meson rel_trans)

lemma evolves_seq [evolve_intros]: "evolves m \<Longrightarrow> evolves n \<Longrightarrow> evolves (seq_op m n)"
  unfolding seq_op_def by (rule evolves_bind)

lemma evolves_for: "(\<And>x. x \<in> set xs \<Longrightarrow> evolves (f x)) \<Longrightarrow> evolves (for_op f xs)"
  by (induction xs) (simp_all add: evolves_same evolves_seq)

lemma evolves_for_all [evolve_intros]: "(\<And>x. evolves (f x)) \<Longrightarrow> evolves (for_op f xs)"
  by (rule evolves_for)

lemma evolves_fold [evolve_intros]: "(\<And>acc x. evolves (f acc x)) \<Longrightarrow> evolves (fold_op f acc xs)"
  by (induction xs arbitrary: acc) (simp_all add: evolves_same evolves_bind)

lemma evolves_if [evolve_intros]: "(b \<Longrightarrow> evolves m) \<Longrightarrow> (\<not> b \<Longrightarrow> evolves n) \<Longrightarrow> evolves (if b then m else n)"
  by simp

lemma evolves_case_prod [evolve_intros]: "(\<And>a b. evolves (f a b)) \<Longrightarrow> evolves (case p of (a, b) \<Rightarrow> f a b)"
  by (cases p) simp

lemma evolves_case_option [evolve_intros]:
  "(x = None \<Longrightarrow> evolves m) \<Longrightarrow> (\<And>y. x = Some y \<Longrightarrow> evolves (f y)) \<Longrightarrow> evolves (case x of None \<Rightarrow> m | Some y \<Rightarrow> f y)"
  by (cases x) simp_all

lemma evolves_let [evolve_intros]: "(\<And>y. y = x \<Longrightarrow> evolves (f y)) \<Longrightarrow> evolves (let y = x in f y)"
  by simp

text \<open>A test of the state before an operation.\<close>

lemma evolves_guard: "evolves m \<Longrightarrow> evolves (\<lambda>s. if P s then (Inl err, s) else m s)"
  by (auto simp: evolves_def split: if_splits)

end

end
