(* ===== verification/AccountFrame.thy ===== *)
theory AccountFrame
  imports VestingMsg Evolution
begin

text \<open>
  What the operations of the bank do to accounts: they may create accounts and update the
  counters of vesting accounts, and never touch the base account that holds address, key,
  number and sequence. The lemmas compose over the combinators, so that the fact holds for
  every handler, whatever else it does to the ledger.
\<close>

definition bases_kept :: "'x auth_state_scheme \<Rightarrow> 'x auth_state_scheme \<Rightarrow> bool" where
  "bases_kept s s' \<longleftrightarrow> (\<forall>addr acc. GetAccount s addr = Some acc \<longrightarrow>
     (\<exists>acc'. GetAccount s' addr = Some acc' \<and> base_of acc' = base_of acc))"

lemma bases_kept_refl: "bases_kept s s"
  by (simp add: bases_kept_def)

lemma bases_kept_trans: "bases_kept s t \<Longrightarrow> bases_kept t u \<Longrightarrow> bases_kept s u"
  unfolding bases_kept_def by fastforce

interpretation acct: evolution auth_wf bases_kept
  by unfold_locales (rule bases_kept_refl, rule bases_kept_trans)

abbreviation acct_op :: "('x auth_state_scheme, 'a) op \<Rightarrow> bool" where
  "acct_op \<equiv> acct.evolves"

text \<open>An update of other parts of the state.\<close>

lemma acct_frame:
  assumes "\<And>s x s'. m s = (Inr x, s') \<Longrightarrow> Accounts s' = Accounts s"
  shows "acct_op m"
proof (rule acct.evolvesI)
  fix s x s'
  assume "auth_wf s" and "m s = (Inr x, s')"
  then show "auth_wf s' \<and> bases_kept s s'" using assms[of s x s'] by (auto simp: auth_wf_def GetAccount_def bases_kept_def)
qed

section \<open>The primitive operations\<close>

lemma acct_setBalance [evolve_intros]: "acct_op (setBalance addr c)"
  by (rule acct_frame) (auto simp: setBalance_def on_balances_def fail_op_def split: if_splits prod.splits)

lemma acct_setSupply [evolve_intros]: "acct_op (setSupply c)"
  by (rule acct_frame) (auto simp: setSupply_def res_simps split: if_splits)

lemma SetAllSendEnabled_flags: "\<exists>m. SetAllSendEnabled es s = s\<lparr>SendEnabledMap := m\<rparr>"
proof (induction es rule: rev_induct)
  case Nil
  have "s = s\<lparr>SendEnabledMap := SendEnabledMap s\<rparr>" by simp
  then show ?case by (auto simp: SetAllSendEnabled_def intro: exI[of _ "SendEnabledMap s"])
next
  case (snoc x xs)
  then show ?case by (auto simp: SetAllSendEnabled_def SetSendEnabled_def)
qed

lemma DeleteSendEnabled_flags: "\<exists>m. DeleteSendEnabled ds s = s\<lparr>SendEnabledMap := m\<rparr>"
proof (induction ds rule: rev_induct)
  case Nil
  have "s = s\<lparr>SendEnabledMap := SendEnabledMap s\<rparr>" by simp
  then show ?case by (auto simp: DeleteSendEnabled_def intro: exI[of _ "SendEnabledMap s"])
next
  case (snoc x xs)
  then show ?case by (auto simp: DeleteSendEnabled_def)
qed

lemma SetAllSendEnabled_Accounts [simp]: "Accounts (SetAllSendEnabled es s) = Accounts s"
  using SetAllSendEnabled_flags[of es s] by auto

lemma DeleteSendEnabled_Accounts [simp]: "Accounts (DeleteSendEnabled ds s) = Accounts s"
  using DeleteSendEnabled_flags[of ds s] by auto

lemma acct_flags [evolve_intros]:
  "acct_op (SetParams p)" "acct_op (modify_op (\<lambda>s. DeleteSendEnabled ds (SetAllSendEnabled es s)))"
  by (rule acct_frame; auto simp: SetParams_def res_simps split: if_splits)+

lemma grown_bases: "grown s s' \<Longrightarrow> auth_wf s' \<and> bases_kept s s'"
  by (auto simp: grown_def bases_kept_def)

lemma acct_ensureAccount [evolve_intros]: "acct_op (ensureAccount addr :: ('x bank_state_scheme, unit) op)"
  by (rule acct.evolvesI) (rule grown_bases[OF ensureAccount_Inr])

lemma acct_authorized_module [evolve_intros]: "acct_op (authorized_module e name p :: ('x bank_state_scheme, AccAddress) op)"
  by (rule acct.evolvesI) (use authorized_module_Inr grown_bases in blast)

text \<open>Tracking a delegation replaces an account by one with the same base account.\<close>

lemma SetAccount_bases:
  assumes "auth_wf s" and "GetAccount s (GetAddress acc) = Some old" and "base_of acc = base_of old"
    and "SetAccount acc s = (Inr u, s')"
  shows "auth_wf s' \<and> bases_kept s s'"
  using SetAccount_Inr[OF assms(1,4)] assms(2,3) by (auto simp: bases_kept_def)

lemma Base_TrackDelegation_base: "Base_TrackDelegation b B v a = Inr b' \<Longrightarrow> bva_base b' = bva_base b"
  unfolding Base_TrackDelegation_def
  by (rule fold_r_invariant[where I = "\<lambda>x. bva_base x = bva_base b"]) (auto simp: TrackDelegation_coin_def res_simps Let_def split: if_splits)

lemma Base_TrackUndelegation_base: "Base_TrackUndelegation b a = Inr b' \<Longrightarrow> bva_base b' = bva_base b"
  unfolding Base_TrackUndelegation_def
  by (rule fold_r_invariant[where I = "\<lambda>x. bva_base x = bva_base b"]) (auto simp: TrackUndelegation_coin_def res_simps Let_def split: if_splits)

lemma Account_Track_base:
  "Account_TrackDelegation acc t B a = Inr acc' \<Longrightarrow> base_of acc' = base_of acc"
  "Account_TrackUndelegation acc a = Inr acc' \<Longrightarrow> base_of acc' = base_of acc"
  by (cases acc; auto simp: res_simps Continuous_TrackDelegation_def
      Periodic_TrackDelegation_def Delayed_TrackDelegation_def PermanentLocked_TrackDelegation_def
      dest: Base_TrackDelegation_base Base_TrackUndelegation_base)+

lemma acct_track [evolve_intros]: "acct_op (trackDelegation e addr B a)" "acct_op (trackUndelegation addr a)"
proof -
  have key: "GetAddress acc' = addr" if "auth_wf s" "GetAccount s addr = Some acc" "base_of acc' = base_of acc" for s acc acc'
    using that by (simp add: auth_wf_def GetAddress_def)
  show "acct_op (trackDelegation e addr B a)"
  proof (rule acct.evolvesI)
    fix s u s'
    assume wf: "auth_wf s" and run: "trackDelegation e addr B a s = (Inr u, s')"
    then show "auth_wf s' \<and> bases_kept s s'"
      using SetAccount_bases[OF wf _ _ , of _ _ u s'] key[OF wf] Account_Track_base(1)
      by (fastforce simp: trackDelegation_def res_simps bases_kept_refl split: option.splits)
  qed
  show "acct_op (trackUndelegation addr a)"
  proof (rule acct.evolvesI)
    fix s u s'
    assume wf: "auth_wf s" and run: "trackUndelegation addr a s = (Inr u, s')"
    then show "auth_wf s' \<and> bases_kept s s'"
      using SetAccount_bases[OF wf _ _ , of _ _ u s'] key[OF wf] Account_Track_base(2)
      by (fastforce simp: trackUndelegation_def res_simps bases_kept_refl split: option.splits)
  qed
qed

section \<open>The operations of the keeper\<close>

lemma acct_coins [evolve_intros]: "acct_op (subUnlockedCoins e addr a)" "acct_op (addCoins addr a)"
  unfolding subUnlockedCoins_def addCoins_def subUnlockedCoin_def addCoin_def by (intro evolve_intros)+

lemma acct_SendCoins [evolve_intros]: "acct_op (SendCoins e from to a)"
  unfolding SendCoins_def by (intro evolve_intros)

lemma acct_InputOutputCoins [evolve_intros]: "acct_op (InputOutputCoins e i outs)"
  unfolding InputOutputCoins_def credit_output_def by (intro evolve_intros)

lemma acct_supply [evolve_intros]: "acct_op (MintCoins e name a)" "acct_op (BurnCoins e name a)"
  unfolding MintCoins_def BurnCoins_def mint_supply_def burn_supply_def by (intro evolve_intros)+

lemma acct_modules [evolve_intros]:
  "acct_op (SendCoinsFromModuleToAccount e name addr a)" "acct_op (SendCoinsFromModuleToModule e name name' a)"
  "acct_op (SendCoinsFromAccountToModule e addr name a)"
  unfolding SendCoinsFromModuleToAccount_def SendCoinsFromModuleToModule_def SendCoinsFromAccountToModule_def
  by (intro evolve_intros)+

lemma acct_delegations [evolve_intros]:
  "acct_op (DelegateCoinsFromAccountToModule e addr name a)" "acct_op (UndelegateCoinsFromModuleToAccount e name addr a)"
proof -
  have D: "acct_op (DelegateCoins e from to a)" for e "from" to a
    unfolding DelegateCoins_def delegateCoin_def by (intro acct.evolves_guard evolve_intros)
  have U: "acct_op (UndelegateCoins e from to a)" for e "from" to a
    unfolding UndelegateCoins_def by (intro acct.evolves_guard evolve_intros)
  show "acct_op (DelegateCoinsFromAccountToModule e addr name a)" "acct_op (UndelegateCoinsFromModuleToAccount e name addr a)"
    unfolding DelegateCoinsFromAccountToModule_def UndelegateCoinsFromModuleToAccount_def by (intro evolve_intros D U)+
qed

lemma acct_messages [evolve_intros]:
  "acct_op (Send e m)" "acct_op (UpdateParams e p)" "acct_op (SetSendEnabled_msg e q)"
  unfolding Send_def UpdateParams_def SetSendEnabled_msg_def by (intro evolve_intros)+

lemma acct_MultiSend [evolve_intros]: "acct_op (MultiSend e m)"
  unfolding MultiSend_def check_recipient_def
  by (cases "Inputs m"; cases "tl (Inputs m)") (auto intro!: evolve_intros)

section \<open>New vesting accounts\<close>

lemma fund_new_account_bases:
  assumes mk: "\<And>b. base_of (mk b) = b" and wf: "auth_wf s" and new: "GetAccount s to = None"
    and run: "fund_new_account e mk from to a s = (Inr u, s')"
  shows "auth_wf s' \<and> bases_kept s s'"
proof -
  let ?n = "Sequence_Peek (NextNumber s)"
  let ?b = "(NewBaseAccountWithAddress to)\<lparr>AccountNumber := ?n\<rparr>"
  have "NewAccount (BaseAcc (NewBaseAccountWithAddress to)) s = (Inr (BaseAcc ?b), s\<lparr>NextNumber := Some (?n + 1)\<rparr>)"
    by (simp add: NewAccount_def bind_op_run op_run NextAccountNumber_eq SetAccountNumber_def)
  then obtain s1 where s1: "SetAccount (mk ?b) (s\<lparr>NextNumber := Some (?n + 1)\<rparr>) = (Inr (), s1)" "SendCoins e from to a s1 = (Inr u, s')"
    using run by (auto simp: fund_new_account_def res_simps)
  have "GetAddress (mk ?b) = to" by (simp add: mk GetAddress_def NewBaseAccountWithAddress_def)
  with created_intro[OF wf s1(1)] new have 1: "auth_wf s1 \<and> bases_kept s s1" by (auto simp: created_def bases_kept_def)
  then show ?thesis using acct.evolvesD[OF acct_SendCoins _ s1(2)] bases_kept_trans by blast
qed

text \<open>The last step of the handlers: the account must not exist yet.\<close>

lemma acct_create:
  assumes "\<And>b. base_of (mk b) = b"
  shows "acct_op (\<lambda>s. if GetAccount s to \<noteq> None then (Inl err, s) else fund_new_account e mk from to a s)"
proof (rule acct.evolvesI)
  fix s u s'
  assume wf: "auth_wf s" and run: "(if GetAccount s to \<noteq> None then (Inl err, s) else fund_new_account e mk from to a s) = (Inr u, s')"
  then have "GetAccount s to = None" "fund_new_account e mk from to a s = (Inr u, s')" by (auto split: if_splits)
  from fund_new_account_bases[OF assms wf this] show "auth_wf s' \<and> bases_kept s s'" .
qed

lemma acct_create_after:
  assumes "\<And>b. base_of (mk b) = b"
  shows "acct_op (\<lambda>s. if GetAccount s to \<noteq> None then (Inl err, s) else seq_op (pure_op f) (fund_new_account e mk from to a) s)"
proof (rule acct.evolvesI)
  fix s u s'
  assume wf: "auth_wf s"
    and run: "(if GetAccount s to \<noteq> None then (Inl err, s) else seq_op (pure_op f) (fund_new_account e mk from to a) s) = (Inr u, s')"
  then have "GetAccount s to = None" "fund_new_account e mk from to a s = (Inr u, s')"
    by (auto simp: res_simps pure_op_def split: if_splits)
  from fund_new_account_bases[OF assms wf this] show "auth_wf s' \<and> bases_kept s s'" .
qed

lemma acct_vesting [evolve_intros]:
  "acct_op (CreateVestingAccount e m)" "acct_op (CreatePermanentLockedAccount e p)" "acct_op (CreatePeriodicVestingAccount e q)"
  unfolding CreateVestingAccount_def CreatePermanentLockedAccount_def CreatePeriodicVestingAccount_def
  by (intro evolve_intros acct_create acct_create_after;
      simp add: Let_def NewBaseVestingAccount_def NewPermanentLockedAccount_def NewPeriodicVestingAccount_def)+

end
