(* ===== verification/DecCoins.thy ===== *)
theory DecCoins
  imports Coins
begin

text \<open>
  Decimal coins, \<^verbatim>\<open>src/types/dec_coin.go\<close>: the coin sets whose amounts are \<open>LegacyDec\<close>, used
  by the distribution module for rewards. Unlike \<open>Coins\<close>, addition merges the two slices
  with two indices; the loop is modelled on the parts of the slices not yet visited.
\<close>

record DecCoin =
  DecDenom :: string
  DecAmount :: int

type_synonym DecCoins = "DecCoin list"

abbreviation dcoin :: "string \<Rightarrow> LegacyDec \<Rightarrow> DecCoin" where
  "dcoin d a \<equiv> \<lparr>DecDenom = d, DecAmount = a\<rparr>"

section \<open>DecCoin\<close>

definition NewDecCoin :: "string \<Rightarrow> sdk_Int \<Rightarrow> DecCoin res" where
  "NewDecCoin denom amount =
     bind_r (NewCoin denom amount) (\<lambda>c.
     bind_r (LegacyNewDecFromInt (Amount c)) (\<lambda>a. Inr (dcoin (Denom c) a)))"

definition NewDecCoinFromDec :: "string \<Rightarrow> LegacyDec \<Rightarrow> DecCoin res" where
  "NewDecCoinFromDec denom amount =
     bind_r (mustValidateDenom denom) (\<lambda>_.
       if Dec_IsNegative amount then Inl (Panic ''negative decimal coin amount'')
       else Inr (dcoin denom amount))"

definition NewDecCoinFromCoin :: "Coin \<Rightarrow> DecCoin res" where
  "NewDecCoinFromCoin c =
     bind_r (must (Coin_Validate c)) (\<lambda>_.
     bind_r (LegacyNewDecFromInt (Amount c)) (\<lambda>a. Inr (dcoin (Denom c) a)))"

definition DecCoin_IsZero :: "DecCoin \<Rightarrow> bool" where
  "DecCoin_IsZero c = Dec_IsZero (DecAmount c)"

definition DecCoin_IsPositive :: "DecCoin \<Rightarrow> bool" where
  "DecCoin_IsPositive c = Dec_IsPositive (DecAmount c)"

definition DecCoin_IsNegative :: "DecCoin \<Rightarrow> bool" where
  "DecCoin_IsNegative c = Dec_IsNegative (DecAmount c)"

definition DecCoin_IsGTE :: "DecCoin \<Rightarrow> DecCoin \<Rightarrow> bool res" where
  "DecCoin_IsGTE c other =
     (if DecDenom c \<noteq> DecDenom other then Inl (Panic ''invalid coin denominations'')
      else Inr (\<not> DecAmount c < DecAmount other))"

definition DecCoin_IsLT :: "DecCoin \<Rightarrow> DecCoin \<Rightarrow> bool res" where
  "DecCoin_IsLT c other =
     (if DecDenom c \<noteq> DecDenom other then Inl (Panic ''invalid coin denominations'')
      else Inr (DecAmount c < DecAmount other))"

definition DecCoin_Add :: "DecCoin \<Rightarrow> DecCoin \<Rightarrow> DecCoin res" where
  "DecCoin_Add c coinB =
     (if DecDenom c \<noteq> DecDenom coinB then Inl (Panic ''coin denom different'')
      else bind_r (Dec_Add (DecAmount c) (DecAmount coinB)) (\<lambda>a. Inr (dcoin (DecDenom c) a)))"

definition DecCoin_Sub :: "DecCoin \<Rightarrow> DecCoin \<Rightarrow> DecCoin res" where
  "DecCoin_Sub c coinB =
     (if DecDenom c \<noteq> DecDenom coinB then Inl (Panic ''coin denom different'')
      else bind_r (Dec_Sub (DecAmount c) (DecAmount coinB)) (\<lambda>a.
        let res = dcoin (DecDenom c) a in
        if DecCoin_IsNegative res then Inl (Panic ''negative decimal coin amount'') else Inr res))"

definition DecCoin_TruncateDecimal :: "DecCoin \<Rightarrow> (Coin \<times> DecCoin) res" where
  "DecCoin_TruncateDecimal c =
     bind_r (Dec_TruncateInt (DecAmount c)) (\<lambda>truncated.
     bind_r (LegacyNewDecFromInt truncated) (\<lambda>t.
     bind_r (Dec_Sub (DecAmount c) t) (\<lambda>change.
     bind_r (NewCoin (DecDenom c) truncated) (\<lambda>tc.
     bind_r (NewDecCoinFromDec (DecDenom c) change) (\<lambda>cc. Inr (tc, cc))))))"

definition DecCoin_Validate :: "DecCoin \<Rightarrow> unit res" where
  "DecCoin_Validate c =
     bind_r (ValidateDenom (DecDenom c)) (\<lambda>_.
       if DecCoin_IsNegative c then Inl (Err ''decimal coin amount cannot be negative'') else Inr ())"

section \<open>DecCoins\<close>

definition removeZeroDecCoins :: "DecCoins \<Rightarrow> DecCoins" where
  "removeZeroDecCoins coins = filter (\<lambda>c. \<not> DecCoin_IsZero c) coins"

definition DecCoins_Sort :: "DecCoins \<Rightarrow> DecCoins" where
  "DecCoins_Sort coins = sort_key DecDenom coins"

definition sanitizeDecCoins :: "DecCoins \<Rightarrow> DecCoins" where
  "sanitizeDecCoins decCoins =
     (let newDecCoins = removeZeroDecCoins decCoins in
      if newDecCoins = [] then [] else DecCoins_Sort newDecCoins)"

definition DecCoins_Validate_single :: "DecCoin \<Rightarrow> unit res" where
  "DecCoins_Validate_single c =
     bind_r (ValidateDenom (DecDenom c)) (\<lambda>_.
       if \<not> DecCoin_IsPositive c then Inl (Err ''coin amount is not positive'') else Inr ())"

fun DecCoins_Validate_loop :: "string \<Rightarrow> string set \<Rightarrow> DecCoins \<Rightarrow> unit res" where
  "DecCoins_Validate_loop lowDenom seenDenoms [] = Inr ()"
| "DecCoins_Validate_loop lowDenom seenDenoms (c # cs) =
     (if DecDenom c \<in> seenDenoms then Inl (Err ''duplicate denomination'')
      else bind_r (ValidateDenom (DecDenom c)) (\<lambda>_.
        if DecDenom c \<le> lowDenom then Inl (Err ''denomination is not sorted'')
        else if \<not> DecCoin_IsPositive c then Inl (Err ''coin amount is not positive'')
        else DecCoins_Validate_loop (DecDenom c) (insert (DecDenom c) seenDenoms) cs))"

definition DecCoins_Validate :: "DecCoins \<Rightarrow> unit res" where
  "DecCoins_Validate coins =
     (case coins of
        [] \<Rightarrow> Inr ()
      | [c] \<Rightarrow> DecCoins_Validate_single c
      | c # cs \<Rightarrow> bind_r (DecCoins_Validate_single c) (\<lambda>_.
          DecCoins_Validate_loop (DecDenom c) {DecDenom c} cs))"

definition DecCoins_IsValid :: "DecCoins \<Rightarrow> bool" where
  "DecCoins_IsValid coins = (DecCoins_Validate coins = Inr ())"

definition NewDecCoins :: "DecCoins \<Rightarrow> DecCoins res" where
  "NewDecCoins decCoins =
     (let newDecCoins = sanitizeDecCoins decCoins in
      bind_r (must (DecCoins_Validate newDecCoins)) (\<lambda>_. Inr newDecCoins))"

definition NewDecCoinsFromCoins :: "Coins \<Rightarrow> DecCoins res" where
  "NewDecCoinsFromCoins coins =
     (if coins = [] then Inr []
      else bind_r (NewCoins coins) (\<lambda>newCoins. map_r NewDecCoinFromCoin newCoins))"

text \<open>The loop of \<open>safeAdd\<close>; \<open>acc\<close> (the source's \<open>sum\<close>) is what has been appended so far.\<close>

fun DecCoins_safeAdd_loop :: "DecCoins \<Rightarrow> DecCoins \<Rightarrow> DecCoins \<Rightarrow> DecCoins res" where
  "DecCoins_safeAdd_loop acc [] [] = Inr acc"
| "DecCoins_safeAdd_loop acc [] (b # bs) = Inr (acc @ removeZeroDecCoins (b # bs))"
| "DecCoins_safeAdd_loop acc (a # as) [] = Inr (acc @ removeZeroDecCoins (a # as))"
| "DecCoins_safeAdd_loop acc (a # as) (b # bs) =
     (if DecDenom a < DecDenom b then
        DecCoins_safeAdd_loop (if \<not> DecCoin_IsZero a then acc @ [a] else acc) as (b # bs)
      else if DecDenom a = DecDenom b then
        bind_r (DecCoin_Add a b) (\<lambda>res.
          DecCoins_safeAdd_loop (if \<not> DecCoin_IsZero res then acc @ [res] else acc) as bs)
      else DecCoins_safeAdd_loop (if \<not> DecCoin_IsZero b then acc @ [b] else acc) (a # as) bs)"

definition DecCoins_Add :: "DecCoins \<Rightarrow> DecCoins \<Rightarrow> DecCoins res" where
  "DecCoins_Add coins coinsB = DecCoins_safeAdd_loop [] coins coinsB"

definition DecCoins_negative :: "DecCoins \<Rightarrow> DecCoins" where
  "DecCoins_negative coins = map (\<lambda>c. dcoin (DecDenom c) (Dec_Neg (DecAmount c))) coins"

definition DecCoins_IsAnyNegative :: "DecCoins \<Rightarrow> bool" where
  "DecCoins_IsAnyNegative coins = list_ex DecCoin_IsNegative coins"

definition DecCoins_SafeSub :: "DecCoins \<Rightarrow> DecCoins \<Rightarrow> (DecCoins \<times> bool) res" where
  "DecCoins_SafeSub coins coinsB =
     bind_r (DecCoins_Add coins (DecCoins_negative coinsB)) (\<lambda>diff.
     Inr (diff, DecCoins_IsAnyNegative diff))"

definition DecCoins_Sub :: "DecCoins \<Rightarrow> DecCoins \<Rightarrow> DecCoins res" where
  "DecCoins_Sub coins coinsB =
     bind_r (DecCoins_SafeSub coins coinsB) (\<lambda>(diff, hasNeg).
       if hasNeg then Inl (Panic ''negative coin amount'') else Inr diff)"

definition DecCoins_TruncateDecimal :: "DecCoins \<Rightarrow> (Coins \<times> DecCoins) res" where
  "DecCoins_TruncateDecimal coins =
     fold_r (\<lambda>(truncatedCoins, changeCoins) c.
       bind_r (DecCoin_TruncateDecimal c) (\<lambda>(truncated, change).
       bind_r (if \<not> Coin_IsZero truncated then Coins_Add truncatedCoins [truncated] else Inr truncatedCoins) (\<lambda>t.
       bind_r (if \<not> DecCoin_IsZero change then DecCoins_Add changeCoins [change] else Inr changeCoins) (\<lambda>ch.
       Inr (t, ch))))) ([], []) coins"

text \<open>The recursive binary search of \<open>AmountOf\<close>, after the check of the denomination.\<close>

function DecCoins_AmountOf_search :: "DecCoins \<Rightarrow> string \<Rightarrow> LegacyDec" where
  "DecCoins_AmountOf_search coins denom =
     (case coins of
        [] \<Rightarrow> LegacyZeroDec
      | [c] \<Rightarrow> (if DecDenom c = denom then DecAmount c else LegacyZeroDec)
      | _ # _ # _ \<Rightarrow>
          let midIdx = length coins div 2; c = coins ! midIdx in
          if denom < DecDenom c then DecCoins_AmountOf_search (take midIdx coins) denom
          else if denom = DecDenom c then DecAmount c
          else DecCoins_AmountOf_search (drop (midIdx + 1) coins) denom)"
  by pat_completeness auto
termination
  by (relation "measure (\<lambda>(coins, _). length coins)") (auto split: list.splits)

declare DecCoins_AmountOf_search.simps [simp del]

definition DecCoins_AmountOf :: "DecCoins \<Rightarrow> string \<Rightarrow> LegacyDec res" where
  "DecCoins_AmountOf coins denom =
     bind_r (mustValidateDenom denom) (\<lambda>_. Inr (DecCoins_AmountOf_search coins denom))"

definition DecCoins_Intersect :: "DecCoins \<Rightarrow> DecCoins \<Rightarrow> DecCoins res" where
  "DecCoins_Intersect coins coinsB =
     bind_r (map_r (\<lambda>c. bind_r (DecCoins_AmountOf coinsB (DecDenom c)) (\<lambda>b.
         Inr (dcoin (DecDenom c) (LegacyMinDec (DecAmount c) b)))) coins)
       (\<lambda>res. Inr (removeZeroDecCoins res))"

text \<open>The common loop of \<open>MulDec\<close>, \<open>MulDecTruncate\<close>, \<open>QuoDec\<close> and \<open>QuoDecTruncate\<close>.\<close>

definition DecCoins_scale_loop :: "(LegacyDec \<Rightarrow> LegacyDec res) \<Rightarrow> DecCoins \<Rightarrow> DecCoins res" where
  "DecCoins_scale_loop f coins =
     fold_r (\<lambda>res c. bind_r (f (DecAmount c)) (\<lambda>x.
       let product = dcoin (DecDenom c) x in
       if \<not> DecCoin_IsZero product then DecCoins_Add res [product] else Inr res)) [] coins"

definition DecCoins_MulDec :: "DecCoins \<Rightarrow> LegacyDec \<Rightarrow> DecCoins res" where
  "DecCoins_MulDec coins d = DecCoins_scale_loop (\<lambda>x. Dec_Mul x d) coins"

definition DecCoins_MulDecTruncate :: "DecCoins \<Rightarrow> LegacyDec \<Rightarrow> DecCoins res" where
  "DecCoins_MulDecTruncate coins d =
     (if Dec_IsZero d then Inr [] else DecCoins_scale_loop (\<lambda>x. Dec_MulTruncate x d) coins)"

definition DecCoins_QuoDec :: "DecCoins \<Rightarrow> LegacyDec \<Rightarrow> DecCoins res" where
  "DecCoins_QuoDec coins d =
     (if Dec_IsZero d then Inl (Panic ''invalid zero decimal'')
      else DecCoins_scale_loop (\<lambda>x. Dec_Quo x d) coins)"

definition DecCoins_QuoDecTruncate :: "DecCoins \<Rightarrow> LegacyDec \<Rightarrow> DecCoins res" where
  "DecCoins_QuoDecTruncate coins d =
     (if Dec_IsZero d then Inl (Panic ''invalid zero decimal'')
      else DecCoins_scale_loop (\<lambda>x. Dec_QuoTruncate x d) coins)"

definition DecCoins_Equal :: "DecCoins \<Rightarrow> DecCoins \<Rightarrow> bool" where
  "DecCoins_Equal coins coinsB =
     (length coins = length coinsB \<and> list_all2 (=) (DecCoins_Sort coins) (DecCoins_Sort coinsB))"

definition DecCoins_IsZero :: "DecCoins \<Rightarrow> bool" where
  "DecCoins_IsZero coins = list_all (\<lambda>c. Dec_IsZero (DecAmount c)) coins"

definition DecCoins_IsAllPositive :: "DecCoins \<Rightarrow> bool" where
  "DecCoins_IsAllPositive coins = (coins \<noteq> [] \<and> list_all DecCoin_IsPositive coins)"


section \<open>Validity and lookup\<close>

abbreviation damt :: "DecCoins \<Rightarrow> string \<Rightarrow> int" where
  "damt \<equiv> total_of DecDenom DecAmount"

definition valid_dec :: "DecCoins \<Rightarrow> bool" where
  "valid_dec cs \<longleftrightarrow> strict_denoms DecDenom cs
     \<and> (\<forall>c\<in>set cs. 0 < DecAmount c \<and> reDnm_MatchString (DecDenom c))"

definition normal_dec :: "DecCoins \<Rightarrow> bool" where
  "normal_dec cs \<longleftrightarrow> strict_denoms DecDenom cs \<and> (\<forall>c\<in>set cs. DecAmount c \<noteq> 0)"

interpretation deccoins: coin_set DecDenom DecAmount dcoin
  by unfold_locales simp_all

lemma DecCoin_simps [simp]:
  "DecCoin_IsZero c \<longleftrightarrow> DecAmount c = 0"
  "DecCoin_IsPositive c \<longleftrightarrow> 0 < DecAmount c"
  "DecCoin_IsNegative c \<longleftrightarrow> DecAmount c < 0"
  by (auto simp: DecCoin_IsZero_def DecCoin_IsPositive_def DecCoin_IsNegative_def
      Dec_IsZero_def Dec_IsPositive_def Dec_IsNegative_def sgn_if)

lemma DecCoins_Validate_loop_Inr:
  "(\<And>d. d \<in> seen \<Longrightarrow> d \<le> low) \<Longrightarrow>
   DecCoins_Validate_loop low seen cs = Inr () \<longleftrightarrow> (\<forall>c\<in>set cs. low < DecDenom c) \<and> valid_dec cs"
proof (induction cs arbitrary: low seen)
  case Nil
  then show ?case by (simp add: valid_dec_def)
next
  case (Cons c cs)
  have IH: "DecCoins_Validate_loop (DecDenom c) (insert (DecDenom c) seen) cs = Inr () \<longleftrightarrow>
      (\<forall>c'\<in>set cs. DecDenom c < DecDenom c') \<and> valid_dec cs" if "low < DecDenom c"
    using Cons.prems that by (intro Cons.IH) (auto intro: order.trans less_imp_le)
  have "DecCoins_Validate_loop low seen (c # cs) = Inr () \<longleftrightarrow>
      DecDenom c \<notin> seen \<and> reDnm_MatchString (DecDenom c) \<and> low < DecDenom c \<and> 0 < DecAmount c
      \<and> (\<forall>c'\<in>set cs. DecDenom c < DecDenom c') \<and> valid_dec cs"
    using IH by (auto simp: res_simps not_less)
  also have "\<dots> \<longleftrightarrow> (\<forall>c'\<in>set (c # cs). low < DecDenom c') \<and> valid_dec (c # cs)"
    using Cons.prems[of "DecDenom c"] by (auto simp: valid_dec_def not_less dest: less_trans)
  finally show ?case .
qed

lemma DecCoins_Validate_loop_first:
  "DecCoins_Validate_loop low {low} cs = Inr () \<longleftrightarrow> (\<forall>c\<in>set cs. low < DecDenom c) \<and> valid_dec cs"
  by (rule DecCoins_Validate_loop_Inr) simp

lemma DecCoins_Validate_Inr: "DecCoins_Validate cs = Inr () \<longleftrightarrow> valid_dec cs"
  by (auto simp: DecCoins_Validate_def DecCoins_Validate_single_def DecCoins_Validate_loop_first res_simps
      valid_dec_def simp del: DecCoins_Validate_loop.simps split: list.splits)

lemma valid_dec_normal: "valid_dec cs \<Longrightarrow> normal_dec cs"
  by (auto simp: valid_dec_def normal_dec_def)

lemma valid_dec_nonneg: "valid_dec cs \<Longrightarrow> 0 \<le> damt cs d"
  by (rule total_of_nonneg) (auto simp: valid_dec_def)

lemma normal_dec_ext: "normal_dec a \<Longrightarrow> normal_dec b \<Longrightarrow> damt a = damt b \<Longrightarrow> a = b"
  unfolding normal_dec_def by (rule deccoins.ext_total) auto

lemma DecCoins_search_total:
  "strict_denoms DecDenom cs \<Longrightarrow> DecCoins_AmountOf_search cs d = damt cs d"
proof (induction cs d rule: DecCoins_AmountOf_search.induct)
  case (1 cs d)
  consider "cs = []" | c where "cs = [c]" | x y zs where "cs = x # y # zs"
    by (cases cs rule: remdups_adj.cases) auto
  then show ?case
  proof cases
    case 3
    define m where "m = length cs div 2"
    define c where "c = cs ! m"
    have m: "m < length cs" using 3 by (simp add: m_def)
    have split: "cs = take m cs @ c # drop (Suc m) cs" using id_take_nth_drop[OF m] by (simp add: c_def)
    have st: "strict_denoms DecDenom (take m cs)" "strict_denoms DecDenom (drop (Suc m) cs)"
      "\<forall>x\<in>set (take m cs). DecDenom x < DecDenom c" "\<forall>y\<in>set (drop (Suc m) cs). DecDenom c < DecDenom y"
      using "1.prems" unfolding strict_denoms_append[of _ "take m cs" "c # drop (Suc m) cs", folded split]
      by simp_all
    have tot: "damt cs d = damt (take m cs) d + (if DecDenom c = d then DecAmount c else 0)
        + damt (drop (Suc m) cs) d"
      by (subst split) simp
    have notin: "damt (take m cs) d = 0" if "DecDenom c \<le> d"
      using st(3) that by (intro total_of_notin) auto
    have notin': "damt (drop (Suc m) cs) d = 0" if "d \<le> DecDenom c"
      using st(4) that by (intro total_of_notin) auto
    have step: "DecCoins_AmountOf_search cs d =
        (if d < DecDenom c then DecCoins_AmountOf_search (take m cs) d
         else if d = DecDenom c then DecAmount c else DecCoins_AmountOf_search (drop (Suc m) cs) d)"
      using 3 by (subst DecCoins_AmountOf_search.simps) (simp add: m_def c_def Let_def)
    show ?thesis
      using "1.IH"(1)[OF 3 refl m_def c_def] "1.IH"(2)[OF 3 refl m_def c_def] st notin notin'
      by (auto simp: step tot not_less less_le)
  qed (simp_all add: DecCoins_AmountOf_search.simps LegacyZeroDec_def)
qed

lemma DecCoins_AmountOf_eq:
  "strict_denoms DecDenom cs \<Longrightarrow> reDnm_MatchString d \<Longrightarrow> DecCoins_AmountOf cs d = Inr (damt cs d)"
  by (simp add: DecCoins_AmountOf_def DecCoins_search_total mustValidateDenom_def ValidateDenom_def)

section \<open>Addition\<close>

lemma removeZeroDecCoins_facts:
  "damt (removeZeroDecCoins cs) = damt cs"
  "strict_denoms DecDenom cs \<Longrightarrow> normal_dec (removeZeroDecCoins cs)"
  "DecDenom ` set (removeZeroDecCoins cs) \<subseteq> DecDenom ` set cs"
  by (auto simp: removeZeroDecCoins_def total_of_filter_zero normal_dec_def strict_denoms_filter)

definition dec_fits :: "DecCoins \<Rightarrow> DecCoins \<Rightarrow> bool" where
  "dec_fits a b \<longleftrightarrow> (\<forall>d \<in> DecDenom ` set a \<inter> DecDenom ` set b. wf_Dec (damt a d + damt b d))"

lemma normal_dec_Cons:
  "normal_dec (c # t) \<longleftrightarrow> DecAmount c \<noteq> 0 \<and> (\<forall>d\<in>DecDenom ` set t. DecDenom c < d) \<and> normal_dec t"
  by (auto simp: normal_dec_def)

lemma DecCoin_Add_same:
  "DecDenom a = DecDenom b \<Longrightarrow> DecCoin_Add a b =
     (if wf_Dec (DecAmount a + DecAmount b) then Inr (dcoin (DecDenom a) (DecAmount a + DecAmount b))
      else Inl (Panic ''Int overflow''))"
  by (simp add: DecCoin_Add_def Dec_Add_def Dec_check_cases)

lemma dec_total_above: "\<forall>x\<in>set cs. d < DecDenom x \<Longrightarrow> damt cs d = 0"
  by (rule total_of_notin) auto

lemma dec_fits_drop:
  assumes "\<forall>x\<in>set as. DecDenom a < DecDenom x" and "\<forall>x\<in>set bs. DecDenom a < DecDenom x"
  shows "dec_fits (a # as) bs \<longleftrightarrow> dec_fits as bs" and "dec_fits bs (a # as) \<longleftrightarrow> dec_fits bs as"
proof -
  have "DecDenom a \<notin> DecDenom ` set bs" using assms(2) by auto
  then have "DecDenom ` set (a # as) \<inter> DecDenom ` set bs = DecDenom ` set as \<inter> DecDenom ` set bs"
    by auto
  moreover have "damt (a # as) d = damt as d" if "d \<in> DecDenom ` set bs" for d
    using that \<open>DecDenom a \<notin> DecDenom ` set bs\<close> by auto
  ultimately show "dec_fits (a # as) bs \<longleftrightarrow> dec_fits as bs" and "dec_fits bs (a # as) \<longleftrightarrow> dec_fits bs as"
    unfolding dec_fits_def by (auto simp: Int_commute)
qed

lemma dec_fits_both:
  assumes "\<forall>x\<in>set as. DecDenom a < DecDenom x" and "\<forall>x\<in>set bs. DecDenom b < DecDenom x"
    and "DecDenom a = DecDenom b"
  shows "dec_fits (a # as) (b # bs) \<longleftrightarrow> wf_Dec (DecAmount a + DecAmount b) \<and> dec_fits as bs"
proof -
  have "damt as (DecDenom b) = 0" "damt bs (DecDenom b) = 0"
    using assms by (auto intro: dec_total_above)
  moreover have "DecDenom b \<notin> DecDenom ` set as" "DecDenom b \<notin> DecDenom ` set bs"
    using assms by auto
  ultimately show ?thesis unfolding dec_fits_def using assms(3) by (auto 0 3)
qed

text \<open>What a run of the merge with result \<open>R\<close> owes to the two slices it merges.\<close>

definition merges :: "DecCoins res \<Rightarrow> DecCoins \<Rightarrow> DecCoins \<Rightarrow> DecCoins \<Rightarrow> bool" where
  "merges R acc a b =
     (if dec_fits a b
      then \<exists>t. R = Inr (acc @ t) \<and> normal_dec t
        \<and> DecDenom ` set t \<subseteq> DecDenom ` set a \<union> DecDenom ` set b \<and> (\<forall>d. damt t d = damt a d + damt b d)
      else R = Inl (Panic ''Int overflow''))"

text \<open>One step of the merge: the coin \<open>c\<close> with the least denomination left is appended
  unless it is zero, and the loop goes on with the remainders \<open>a'\<close> and \<open>b'\<close>.\<close>

lemma merge_step:
  assumes IH: "merges R (if DecAmount c \<noteq> 0 then acc @ [c] else acc) a' b'"
    and "dec_fits a b \<longleftrightarrow> dec_fits a' b'"
    and D: "\<forall>d\<in>DecDenom ` set a' \<union> DecDenom ` set b'. DecDenom c < d"
      "insert (DecDenom c) (DecDenom ` set a' \<union> DecDenom ` set b') \<subseteq> DecDenom ` set a \<union> DecDenom ` set b"
    and "\<And>d. damt a d + damt b d = (if DecDenom c = d then DecAmount c else 0) + (damt a' d + damt b' d)"
  shows "merges R acc a b"
proof (cases "dec_fits a' b'")
  case True
  with IH obtain t where t: "R = Inr ((if DecAmount c \<noteq> 0 then acc @ [c] else acc) @ t)" "normal_dec t"
    "DecDenom ` set t \<subseteq> DecDenom ` set a' \<union> DecDenom ` set b'" "\<forall>d. damt t d = damt a' d + damt b' d"
    by (auto simp: merges_def)
  let ?t = "if DecAmount c \<noteq> 0 then c # t else t"
  have "R = Inr (acc @ ?t)" using t(1) by simp
  moreover have "normal_dec ?t" using t(2,3) D(1) by (auto simp: normal_dec_Cons)
  moreover have "DecDenom ` set ?t \<subseteq> DecDenom ` set a \<union> DecDenom ` set b" using t(3) by (intro order.trans[OF _ D(2)]) auto
  moreover have "\<forall>d. damt ?t d = damt a d + damt b d" using t(4) assms(5) by simp
  ultimately show ?thesis using True assms(2) unfolding merges_def by (simp only: if_True) blast
next
  case False
  with IH assms(2) show ?thesis by (simp add: merges_def)
qed

text \<open>The merge loop appends to its accumulator the normalised sum of the two remainders.\<close>

lemma DecCoins_safeAdd_loop_spec:
  assumes "strict_denoms DecDenom a" and "strict_denoms DecDenom b"
  shows "merges (DecCoins_safeAdd_loop acc a b) acc a b"
  using assms
proof (induction acc a b rule: DecCoins_safeAdd_loop.induct)
  case (1 acc)
  then show ?case by (simp add: merges_def dec_fits_def normal_dec_def)
next
  case (2 acc b bs)
  then show ?case using removeZeroDecCoins_facts[of "b # bs"] by (auto simp: merges_def dec_fits_def)
next
  case (3 acc a as)
  then show ?case using removeZeroDecCoins_facts[of "a # as"] by (auto simp: merges_def dec_fits_def)
next
  case (4 acc a as b bs)
  have sa: "\<forall>x\<in>set as. DecDenom a < DecDenom x" and sb: "\<forall>x\<in>set bs. DecDenom b < DecDenom x"
    using "4.prems" by auto
  consider (lt) "DecDenom a < DecDenom b" | (eq) "DecDenom a = DecDenom b" | (gt) "DecDenom b < DecDenom a"
    by (meson linorder_cases)
  then show ?case
  proof cases
    case lt
    have b: "\<forall>x\<in>set (b # bs). DecDenom a < DecDenom x" using sb lt by (auto dest: less_trans)
    have step: "DecCoins_safeAdd_loop acc (a # as) (b # bs) =
        DecCoins_safeAdd_loop (if DecAmount a \<noteq> 0 then acc @ [a] else acc) as (b # bs)"
      using lt by simp
    have IH: "merges (DecCoins_safeAdd_loop (if DecAmount a \<noteq> 0 then acc @ [a] else acc) as (b # bs)) (if DecAmount a \<noteq> 0 then acc @ [a] else acc) as (b # bs)"
      using "4.IH"(1)[OF lt] "4.prems" by simp
    show ?thesis unfolding step
      by (rule merge_step[OF IH dec_fits_drop(1)[OF sa b]]) (use sa b in auto)
  next
    case eq
    define c where "c = dcoin (DecDenom a) (DecAmount a + DecAmount b)"
    show ?thesis
    proof (cases "wf_Dec (DecAmount a + DecAmount b)")
      case True
      then have add: "DecCoin_Add a b = Inr c" using eq by (simp add: DecCoin_Add_same c_def)
      then have step: "DecCoins_safeAdd_loop acc (a # as) (b # bs) =
          DecCoins_safeAdd_loop (if DecAmount c \<noteq> 0 then acc @ [c] else acc) as bs"
        using eq by simp
      have IH: "merges (DecCoins_safeAdd_loop (if DecAmount c \<noteq> 0 then acc @ [c] else acc) as bs) (if DecAmount c \<noteq> 0 then acc @ [c] else acc) as bs"
        using "4.IH"(2)[OF _ eq add] eq "4.prems" by simp
      have fits: "dec_fits (a # as) (b # bs) \<longleftrightarrow> dec_fits as bs"
        using dec_fits_both[OF sa sb eq] True by simp
      show ?thesis unfolding step
        by (rule merge_step[OF IH fits]) (use sa sb eq in \<open>auto simp: c_def\<close>)
    next
      case False
      with eq dec_fits_both[OF sa sb eq] show ?thesis by (simp add: DecCoin_Add_same merges_def)
    qed
  next
    case gt
    have a: "\<forall>x\<in>set (a # as). DecDenom b < DecDenom x" using sa gt by (auto dest: less_trans)
    have step: "DecCoins_safeAdd_loop acc (a # as) (b # bs) =
        DecCoins_safeAdd_loop (if DecAmount b \<noteq> 0 then acc @ [b] else acc) (a # as) bs"
      using gt by auto
    have IH: "merges (DecCoins_safeAdd_loop (if DecAmount b \<noteq> 0 then acc @ [b] else acc) (a # as) bs) (if DecAmount b \<noteq> 0 then acc @ [b] else acc) (a # as) bs"
      using "4.IH"(3) gt "4.prems" by auto
    show ?thesis unfolding step
      by (rule merge_step[OF IH dec_fits_drop(2)[OF sb a]]) (use sb a in auto)
  qed
qed

lemma normal_dec_valid:
  assumes "normal_dec r" and "\<And>d. 0 \<le> damt r d"
    and "\<forall>d\<in>DecDenom ` set r. reDnm_MatchString d"
  shows "valid_dec r"
proof -
  have "0 < DecAmount c" if "c \<in> set r" for c
    using assms(1) assms(2)[of "DecDenom c"] that total_of_member[of DecDenom r c DecAmount]
    by (auto simp: normal_dec_def less_le)
  with assms(1,3) show ?thesis by (simp add: valid_dec_def normal_dec_def)
qed

lemma DecCoins_Add_valid:
  assumes "valid_dec a" and "valid_dec b"
  shows "if dec_fits a b
    then \<exists>r. DecCoins_Add a b = Inr r \<and> valid_dec r \<and> (\<forall>d. damt r d = damt a d + damt b d)
    else DecCoins_Add a b = Inl (Panic ''Int overflow'')"
proof (cases "dec_fits a b")
  case True
  have "strict_denoms DecDenom a" "strict_denoms DecDenom b" using assms by (simp_all add: valid_dec_def)
  from DecCoins_safeAdd_loop_spec[OF this, of "[]"] True obtain r where
    r: "DecCoins_Add a b = Inr r" "normal_dec r" "DecDenom ` set r \<subseteq> DecDenom ` set a \<union> DecDenom ` set b"
    "\<forall>d. damt r d = damt a d + damt b d" by (auto simp: merges_def DecCoins_Add_def)
  have "valid_dec r"
  proof (rule normal_dec_valid[OF r(2)])
    show "0 \<le> damt r d" for d using valid_dec_nonneg[OF assms(1)] valid_dec_nonneg[OF assms(2)] r(4) by simp
    show "\<forall>d\<in>DecDenom ` set r. reDnm_MatchString d" using r(3) assms by (auto simp: valid_dec_def)
  qed
  with r True show ?thesis by simp
next
  case False
  then show ?thesis using DecCoins_safeAdd_loop_spec[of a b "[]"] assms
    by (simp add: merges_def DecCoins_Add_def valid_dec_def)
qed

text \<open>The merge that adds two valid sets of decimal coins returns a valid set whose
  amount of every denomination is the sum of the two amounts; it panics exactly when the
  sum of a denomination present in both sets exceeds 315 bits.\<close>

theorem DecCoins_Add_exact:
  assumes "valid_dec a" and "valid_dec b"
  shows "if \<forall>d \<in> DecDenom ` set a \<inter> DecDenom ` set b. wf_Dec (damt a d + damt b d)
    then \<exists>r. DecCoins_Add a b = Inr r \<and> valid_dec r \<and> (\<forall>d. damt r d = damt a d + damt b d)
    else DecCoins_Add a b = Inl (Panic ''Int overflow'')"
  using DecCoins_Add_valid[OF assms] unfolding dec_fits_def .

lemma DecCoins_Add_exact_witness:
  "\<exists>r. DecCoins_Add [dcoin ''atom'' 5, dcoin ''stake'' 2] [dcoin ''btc'' 1, dcoin ''stake'' 3] = Inr r
     \<and> valid_dec r \<and> (\<forall>d. damt r d = damt [dcoin ''atom'' 5, dcoin ''stake'' 2] d
       + damt [dcoin ''btc'' 1, dcoin ''stake'' 3] d)"
proof -
  let ?a = "[dcoin ''atom'' 5, dcoin ''stake'' 2]" and ?b = "[dcoin ''btc'' 1, dcoin ''stake'' 3]"
  have "valid_dec ?a" "valid_dec ?b"
    by (simp_all add: valid_dec_def reDnm_MatchString_def is_letter_def is_denom_char_def)
  from DecCoins_Add_exact[OF this] show ?thesis by (simp add: wf_Dec_def maxDecBitLen_val)
qed

section \<open>Truncation\<close>

lemma DecCoin_TruncateDecimal_eq:
  assumes "0 < DecAmount c" and "wf_Dec (DecAmount c)" and "reDnm_MatchString (DecDenom c)"
  shows "DecCoin_TruncateDecimal c =
      Inr (coin (DecDenom c) (DecAmount c div precisionReuse), dcoin (DecDenom c) (DecAmount c mod precisionReuse))"
    and "wf_Int (DecAmount c div precisionReuse)"
proof -
  let ?q = "DecAmount c div precisionReuse"
  have q: "chopPrecisionAndTruncate (DecAmount c) = ?q" using assms(1) by (simp add: chop_truncate_nonneg)
  have nn: "0 \<le> ?q" using assms(1) by (simp add: pos_imp_zdiv_nonneg_iff)
  have "?q \<le> 2 ^ 315 div precisionReuse"
    using assms(1,2) by (intro zdiv_mono1) (simp_all add: wf_Dec_def maxDecBitLen_val)
  also have "\<dots> < 2 ^ MaxBitLen" by (simp add: precisionReuse_val MaxBitLen_def)
  finally show wf: "wf_Int ?q" using nn by (simp add: wf_Int_def)
  have "?q * precisionReuse \<le> DecAmount c" using div_bounds(1)[of precisionReuse "DecAmount c"]
    by (simp add: mult.commute)
  then have "wf_Dec (DecAmount c - ?q * precisionReuse)"
    using assms(1,2) mult_nonneg_nonneg[OF nn precisionReuse_pos(3)] by (simp add: wf_Dec_def)
  then have "Dec_Sub (DecAmount c) (?q * precisionReuse) = Inr (DecAmount c mod precisionReuse)"
    by (simp add: Dec_Sub_def Dec_check_cases minus_div_mult_eq_mod)
  then show "DecCoin_TruncateDecimal c =
      Inr (coin (DecDenom c) ?q, dcoin (DecDenom c) (DecAmount c mod precisionReuse))"
    using nn wf assms(3) by (simp add: DecCoin_TruncateDecimal_def NewDecCoinFromDec_def q res_simps
        iffD2[OF Dec_TruncateInt_Inr] iffD2[OF NewCoin_Inr] Dec_IsNegative_def sgn_if not_less
        mustValidateDenom_def ValidateDenom_def)
qed

lemma Coins_Add_fresh:
  assumes "valid_coins t" and "wf_coins t" and "amt t d = 0" and "0 \<le> q" and "wf_Int q" and "reDnm_MatchString d"
  shows "\<exists>t'. (if q \<noteq> 0 then Coins_Add t [coin d q] else Inr t) = Inr t' \<and> valid_coins t' \<and> wf_coins t'
    \<and> (\<forall>x. amt t' x = amt t x + (if d = x then q else 0))"
proof (cases "q = 0")
  case True
  with assms show ?thesis by auto
next
  case False
  have v: "valid_coins [coin d q]" "wf_coins [coin d q]"
    using assms False by (simp_all add: valid_coins_def wf_coins_def)
  have "\<forall>x. wf_Int (amt t x + amt [coin d q] x)"
    using assms wf_coins_amt[of t] by (auto simp: valid_wf_strict)
  then show ?thesis using Coins_Add_valid[OF assms(1) v(1) assms(2) v(2)] False by auto
qed

lemma DecCoins_Add_fresh:
  assumes "valid_dec t" and "damt t d = 0" and "0 \<le> q" and "wf_Dec q" and "reDnm_MatchString d"
  shows "\<exists>t'. (if q \<noteq> 0 then DecCoins_Add t [dcoin d q] else Inr t) = Inr t' \<and> valid_dec t'
    \<and> (\<forall>x. damt t' x = damt t x + (if d = x then q else 0))"
proof (cases "q = 0")
  case True
  with assms show ?thesis by auto
next
  case False
  have v: "valid_dec [dcoin d q]" using assms False by (simp add: valid_dec_def)
  have "dec_fits t [dcoin d q]" using assms by (simp add: dec_fits_def)
  then show ?thesis using DecCoins_Add_valid[OF assms(1) v] False by auto
qed

lemma damt_Cons_div_mod:
  assumes "\<forall>c'\<in>set cs. DecDenom c < DecDenom c'"
  shows "damt (c # cs) x div P = (if DecDenom c = x then DecAmount c div P else 0) + damt cs x div P"
    and "damt (c # cs) x mod P = (if DecDenom c = x then DecAmount c mod P else 0) + damt cs x mod P"
  using assms by (auto simp: dec_total_above)

lemma DecCoins_TruncateDecimal_fold:
  assumes "valid_dec cs" and "\<forall>c\<in>set cs. wf_Dec (DecAmount c)"
    and "valid_coins t" and "wf_coins t" and "valid_dec ch"
    and "\<forall>c\<in>set cs. amt t (DecDenom c) = 0 \<and> damt ch (DecDenom c) = 0"
  shows "\<exists>t' ch'. fold_r (\<lambda>(truncatedCoins, changeCoins) c.
       bind_r (DecCoin_TruncateDecimal c) (\<lambda>(truncated, change).
       bind_r (if \<not> Coin_IsZero truncated then Coins_Add truncatedCoins [truncated] else Inr truncatedCoins) (\<lambda>t.
       bind_r (if \<not> DecCoin_IsZero change then DecCoins_Add changeCoins [change] else Inr changeCoins) (\<lambda>ch.
       Inr (t, ch))))) (t, ch) cs = Inr (t', ch') \<and> valid_coins t' \<and> valid_dec ch'
     \<and> (\<forall>d. amt t' d = amt t d + damt cs d div precisionReuse)
     \<and> (\<forall>d. damt ch' d = damt ch d + damt cs d mod precisionReuse)"
  using assms
proof (induction cs arbitrary: t ch)
  case Nil
  then show ?case by simp
next
  case (Cons c cs)
  let ?q = "DecAmount c div precisionReuse" and ?r = "DecAmount c mod precisionReuse"
  have c: "0 < DecAmount c" "wf_Dec (DecAmount c)" "reDnm_MatchString (DecDenom c)" "valid_dec cs"
    and below: "\<forall>c'\<in>set cs. DecDenom c < DecDenom c'"
    using Cons.prems by (auto simp: valid_dec_def)
  note tr = DecCoin_TruncateDecimal_eq[OF c(1-3)]
  have "?r < precisionReuse" "0 \<le> ?r" by simp_all
  then have r: "0 \<le> ?r" "wf_Dec ?r" by (simp_all add: wf_Dec_def maxDecBitLen_val precisionReuse_val)
  have q: "0 \<le> ?q" using c(1) by (simp add: pos_imp_zdiv_nonneg_iff)
  obtain t1 where t1: "(if ?q \<noteq> 0 then Coins_Add t [coin (DecDenom c) ?q] else Inr t) = Inr t1"
    "valid_coins t1" "wf_coins t1" "\<And>x. amt t1 x = amt t x + (if DecDenom c = x then ?q else 0)"
    using Coins_Add_fresh[OF Cons.prems(3,4) _ q tr(2) c(3)] Cons.prems(6) by auto
  obtain c1 where c1: "(if ?r \<noteq> 0 then DecCoins_Add ch [dcoin (DecDenom c) ?r] else Inr ch) = Inr c1"
    "valid_dec c1" "\<And>x. damt c1 x = damt ch x + (if DecDenom c = x then ?r else 0)"
    using DecCoins_Add_fresh[OF Cons.prems(5) _ r c(3)] Cons.prems(6) by auto
  have "\<forall>c'\<in>set cs. amt t1 (DecDenom c') = 0 \<and> damt c1 (DecDenom c') = 0"
    using Cons.prems(6) below by (auto simp: t1(4) c1(3))
  from Cons.IH[OF c(4) _ t1(2,3) c1(2) this] Cons.prems(2) show ?case
    by (auto simp: tr(1) t1(1) c1(1) t1(4) c1(3) damt_Cons_div_mod[OF below] simp del: total_of_simps(2)
        simp flip: not_not split del: if_split)
qed

text \<open>C28: splitting a valid set of decimal coins into whole coins and change never fails
  and conserves value: the whole part of every denomination is the integer part of its
  amount, the change is what is left, and the change is below one coin. Both sets are
  valid.\<close>

theorem DecCoins_TruncateDecimal_conserves:
  assumes "valid_dec cs" and "\<forall>c\<in>set cs. wf_Dec (DecAmount c)"
  shows "\<exists>t ch. DecCoins_TruncateDecimal cs = Inr (t, ch) \<and> valid_coins t \<and> valid_dec ch
     \<and> (\<forall>d. damt cs d = amt t d * precisionReuse + damt ch d \<and> 0 \<le> damt ch d \<and> damt ch d < precisionReuse)"
proof -
  have e: "valid_coins []" "wf_coins []" "valid_dec []"
    by (simp_all add: valid_coins_def wf_coins_def valid_dec_def)
  show ?thesis
    using DecCoins_TruncateDecimal_fold[OF assms e] unfolding DecCoins_TruncateDecimal_def by auto
qed

lemma DecCoins_TruncateDecimal_conserves_witness:
  "\<exists>t ch. DecCoins_TruncateDecimal [dcoin ''atom'' 2500000000000000000] = Inr (t, ch)
     \<and> valid_coins t \<and> valid_dec ch
     \<and> (\<forall>d. damt [dcoin ''atom'' 2500000000000000000] d = amt t d * precisionReuse + damt ch d
        \<and> 0 \<le> damt ch d \<and> damt ch d < precisionReuse)"
  by (rule DecCoins_TruncateDecimal_conserves)
     (simp_all add: valid_dec_def wf_Dec_def maxDecBitLen_val reDnm_MatchString_def is_letter_def is_denom_char_def)

end
