(* ===== verification/GasKV.thy ===== *)
theory GasKV
  imports CacheRefine
begin

text \<open>
  Gas meters (\<^verbatim>\<open>src/store/types/gas.go\<close>) and the gas-metered store
  (\<^verbatim>\<open>src/store/gaskv/store.go\<close>). Gas is a 64-bit word. A meter that panics keeps the
  consumption the code leaves in it, so an operation returns its meter in both cases. The
  metered store is a function of the store it wraps: \<open>par\<close> runs a call of the parent.
\<close>

unbundle bit_operations_syntax

section \<open>Gas meters\<close>

type_synonym Gas = "64 word"

record basicGasMeter =
  limit :: Gas
  consumed :: Gas

record infiniteGasMeter =
  iconsumed :: Gas

datatype GasMeter = BasicMeter basicGasMeter | InfiniteMeter infiniteGasMeter

definition MaxUint64 :: Gas where
  "MaxUint64 = - 1"

definition ErrorOutOfGas :: "string \<Rightarrow> error" where
  "ErrorOutOfGas descriptor = Panic (''out of gas: '' @ descriptor)"

definition ErrorGasOverflow :: "string \<Rightarrow> error" where
  "ErrorGasOverflow descriptor = Panic (''gas overflow: '' @ descriptor)"

definition ErrorNegativeGasConsumed :: "string \<Rightarrow> error" where
  "ErrorNegativeGasConsumed descriptor = Panic (''negative gas consumed: '' @ descriptor)"

definition NewGasMeter :: "Gas \<Rightarrow> GasMeter" where
  "NewGasMeter l = BasicMeter \<lparr>limit = l, consumed = 0\<rparr>"

definition NewInfiniteGasMeter :: GasMeter where
  "NewInfiniteGasMeter = InfiniteMeter \<lparr>iconsumed = 0\<rparr>"

definition addUint64Overflow :: "64 word \<Rightarrow> 64 word \<Rightarrow> 64 word \<times> bool" where
  "addUint64Overflow a b = (if MaxUint64 - a < b then (0, True) else (a + b, False))"

definition basic_IsPastLimit :: "basicGasMeter \<Rightarrow> bool" where
  "basic_IsPastLimit g = (consumed g > limit g)"

definition basic_IsOutOfGas :: "basicGasMeter \<Rightarrow> bool" where
  "basic_IsOutOfGas g = (consumed g \<ge> limit g)"

definition basic_GasRemaining :: "basicGasMeter \<Rightarrow> Gas" where
  "basic_GasRemaining g = (if basic_IsPastLimit g then 0 else limit g - consumed g)"

definition basic_GasConsumedToLimit :: "basicGasMeter \<Rightarrow> Gas" where
  "basic_GasConsumedToLimit g = (if basic_IsPastLimit g then limit g else consumed g)"

definition basic_ConsumeGas :: "Gas \<Rightarrow> string \<Rightarrow> (basicGasMeter, unit) op" where
  "basic_ConsumeGas amount descriptor g =
     (let (c, overflow) = addUint64Overflow (consumed g) amount; g' = g\<lparr>consumed := c\<rparr> in
      if overflow then (Inl (ErrorGasOverflow descriptor), g'\<lparr>consumed := MaxUint64\<rparr>)
      else if consumed g' > limit g' then (Inl (ErrorOutOfGas descriptor), g')
      else (Inr (), g'))"

definition basic_RefundGas :: "Gas \<Rightarrow> string \<Rightarrow> (basicGasMeter, unit) op" where
  "basic_RefundGas amount descriptor g =
     (if consumed g < amount then (Inl (ErrorNegativeGasConsumed descriptor), g)
      else (Inr (), g\<lparr>consumed := consumed g - amount\<rparr>))"

definition infinite_ConsumeGas :: "Gas \<Rightarrow> string \<Rightarrow> (infiniteGasMeter, unit) op" where
  "infinite_ConsumeGas amount descriptor g =
     (let (c, overflow) = addUint64Overflow (iconsumed g) amount; g' = g\<lparr>iconsumed := c\<rparr> in
      if overflow then (Inl (ErrorGasOverflow descriptor), g') else (Inr (), g'))"

definition infinite_RefundGas :: "Gas \<Rightarrow> string \<Rightarrow> (infiniteGasMeter, unit) op" where
  "infinite_RefundGas amount descriptor g =
     (if iconsumed g < amount then (Inl (ErrorNegativeGasConsumed descriptor), g)
      else (Inr (), g\<lparr>iconsumed := iconsumed g - amount\<rparr>))"

text \<open>The methods of the interface \<open>GasMeter\<close>, dispatched on the implementation.\<close>

fun GasConsumed :: "GasMeter \<Rightarrow> Gas" where
  "GasConsumed (BasicMeter g) = consumed g"
| "GasConsumed (InfiniteMeter g) = iconsumed g"

fun Limit :: "GasMeter \<Rightarrow> Gas" where
  "Limit (BasicMeter g) = limit g"
| "Limit (InfiniteMeter g) = MaxUint64"

fun GasRemaining :: "GasMeter \<Rightarrow> Gas" where
  "GasRemaining (BasicMeter g) = basic_GasRemaining g"
| "GasRemaining (InfiniteMeter g) = MaxUint64"

fun GasConsumedToLimit :: "GasMeter \<Rightarrow> Gas" where
  "GasConsumedToLimit (BasicMeter g) = basic_GasConsumedToLimit g"
| "GasConsumedToLimit (InfiniteMeter g) = iconsumed g"

fun IsPastLimit :: "GasMeter \<Rightarrow> bool" where
  "IsPastLimit (BasicMeter g) = basic_IsPastLimit g"
| "IsPastLimit (InfiniteMeter g) = False"

fun IsOutOfGas :: "GasMeter \<Rightarrow> bool" where
  "IsOutOfGas (BasicMeter g) = basic_IsOutOfGas g"
| "IsOutOfGas (InfiniteMeter g) = False"

fun ConsumeGas :: "Gas \<Rightarrow> string \<Rightarrow> (GasMeter, unit) op" where
  "ConsumeGas amount d (BasicMeter g) = (let (r, g') = basic_ConsumeGas amount d g in (r, BasicMeter g'))"
| "ConsumeGas amount d (InfiniteMeter g) = (let (r, g') = infinite_ConsumeGas amount d g in (r, InfiniteMeter g'))"

fun RefundGas :: "Gas \<Rightarrow> string \<Rightarrow> (GasMeter, unit) op" where
  "RefundGas amount d (BasicMeter g) = (let (r, g') = basic_RefundGas amount d g in (r, BasicMeter g'))"
| "RefundGas amount d (InfiniteMeter g) = (let (r, g') = infinite_RefundGas amount d g in (r, InfiniteMeter g'))"

record GasConfig =
  HasCost :: Gas
  DeleteCost :: Gas
  ReadCostFlat :: Gas
  ReadCostPerByte :: Gas
  WriteCostFlat :: Gas
  WriteCostPerByte :: Gas
  IterNextCostFlat :: Gas

definition KVGasConfig :: GasConfig where
  "KVGasConfig = \<lparr>HasCost = 1000, DeleteCost = 1000, ReadCostFlat = 1000, ReadCostPerByte = 3,
     WriteCostFlat = 2000, WriteCostPerByte = 30, IterNextCostFlat = 30\<rparr>"

definition TransientGasConfig :: GasConfig where
  "TransientGasConfig = \<lparr>HasCost = 100, DeleteCost = 100, ReadCostFlat = 100, ReadCostPerByte = 0,
     WriteCostFlat = 200, WriteCostPerByte = 3, IterNextCostFlat = 3\<rparr>"

section \<open>The metered store\<close>

record 'p gstore =
  gasMeter :: GasMeter
  gasConfig :: GasConfig
  gparent :: 'p

definition on_meter :: "(GasMeter, 'a) op \<Rightarrow> ('p gstore, 'a) op" where
  "on_meter m g = (let (r, g') = m (gasMeter g) in (r, g\<lparr>gasMeter := g'\<rparr>))"

definition on_parent :: "('p, 'a) op \<Rightarrow> ('p gstore, 'a) op" where
  "on_parent m g = (let (r, p') = m (gparent g) in (r, g\<lparr>gparent := p'\<rparr>))"

text \<open>\<^verbatim>\<open>gs.gasMeter.ConsumeGas(cost(gs.gasConfig), descriptor)\<close>.\<close>

definition gas_charge :: "(GasConfig \<Rightarrow> Gas) \<Rightarrow> string \<Rightarrow> ('p gstore, unit) op" where
  "gas_charge cost d g = on_meter (ConsumeGas (cost (gasConfig g)) d) g"

definition len :: "bytes option \<Rightarrow> Gas" where
  "len v = (case v of None \<Rightarrow> 0 | Some b \<Rightarrow> of_nat (length b))"

fun reply_value :: "reply \<Rightarrow> bytes option" where
  "reply_value (RValue v) = v"
| "reply_value _ = None"

fun reply_entries :: "reply \<Rightarrow> (bytes \<times> bytes option) list" where
  "reply_entries (REntries es) = es"
| "reply_entries _ = []"

definition Gas_Get :: "(store_call \<Rightarrow> ('p, reply) op) \<Rightarrow> bytes \<Rightarrow> ('p gstore, reply) op" where
  "Gas_Get par key =
     seq_op (gas_charge ReadCostFlat ''ReadFlat'')
     (bind_op (on_parent (par (CGet key))) (\<lambda>r.
      seq_op (gas_charge (\<lambda>c. ReadCostPerByte c * len (Some key)) ''ReadPerByte'')
      (seq_op (gas_charge (\<lambda>c. ReadCostPerByte c * len (reply_value r)) ''ReadPerByte'')
      (ret_op r))))"

definition Gas_Set :: "(store_call \<Rightarrow> ('p, reply) op) \<Rightarrow> bytes \<Rightarrow> bytes option \<Rightarrow> ('p gstore, reply) op" where
  "Gas_Set par key v =
     seq_op (lift_op (AssertValidKey key))
     (seq_op (lift_op (AssertValidValue v))
     (seq_op (gas_charge WriteCostFlat ''WriteFlat'')
     (seq_op (gas_charge (\<lambda>c. WriteCostPerByte c * len (Some key)) ''WritePerByte'')
     (seq_op (gas_charge (\<lambda>c. WriteCostPerByte c * len v) ''WritePerByte'')
     (on_parent (par (CSet key v)))))))"

definition Gas_Has :: "(store_call \<Rightarrow> ('p, reply) op) \<Rightarrow> bytes \<Rightarrow> ('p gstore, reply) op" where
  "Gas_Has par key = seq_op (gas_charge HasCost ''Has'') (on_parent (par (CHas key)))"

definition Gas_Delete :: "(store_call \<Rightarrow> ('p, reply) op) \<Rightarrow> bytes \<Rightarrow> ('p gstore, reply) op" where
  "Gas_Delete par key = seq_op (gas_charge DeleteCost ''Delete'') (on_parent (par (CDelete key)))"

text \<open>A gas iterator is the list of the entries its parent still has to visit.\<close>

definition consumeSeekGas :: "(bytes \<times> bytes option) list \<Rightarrow> ('p gstore, unit) op" where
  "consumeSeekGas es =
     seq_op (case es of
               [] \<Rightarrow> ret_op ()
             | e # _ \<Rightarrow> seq_op (gas_charge (\<lambda>c. ReadCostPerByte c * len (Some (fst e))) ''ValuePerByte'')
                              (gas_charge (\<lambda>c. ReadCostPerByte c * len (snd e)) ''ValuePerByte''))
       (gas_charge IterNextCostFlat ''IterNextFlat'')"

definition gasIterator_Next :: "(bytes \<times> bytes option) list \<Rightarrow> ('p gstore, (bytes \<times> bytes option) list) op" where
  "gasIterator_Next es = seq_op (consumeSeekGas es) (ret_op (tl es))"

text \<open>The caller's loop \<^verbatim>\<open>for ; it.Valid(); it.Next()\<close> to the end of the iterator.\<close>

fun gas_drain :: "(bytes \<times> bytes option) list \<Rightarrow> ('p gstore, unit) op" where
  "gas_drain [] = ret_op ()"
| "gas_drain (e # es) = seq_op (gasIterator_Next (e # es)) (gas_drain es)"

definition Gas_iterator :: "(store_call \<Rightarrow> ('p, reply) op) \<Rightarrow> bytes option \<Rightarrow> bytes option \<Rightarrow> bool \<Rightarrow> ('p gstore, reply) op" where
  "Gas_iterator par start endk ascending =
     bind_op (on_parent (par (CIterate start endk ascending))) (\<lambda>r.
       seq_op (consumeSeekGas (reply_entries r)) (ret_op r))"

fun gas_call :: "(store_call \<Rightarrow> ('p, reply) op) \<Rightarrow> store_call \<Rightarrow> ('p gstore, reply) op" where
  "gas_call par (CGet k) = Gas_Get par k"
| "gas_call par (CHas k) = Gas_Has par k"
| "gas_call par (CSet k v) = Gas_Set par k v"
| "gas_call par (CDelete k) = Gas_Delete par k"
| "gas_call par (CIterate start endk asc) =
     bind_op (Gas_iterator par start endk asc) (\<lambda>r. seq_op (gas_drain (reply_entries r)) (ret_op r))"

section \<open>The contract of a meter\<close>

text \<open>What a metered component relies on: consuming succeeds exactly when the sum stays
  within the capacity, and then adds exactly the amount.\<close>

locale gas_meter =
  fixes consume :: "Gas \<Rightarrow> string \<Rightarrow> ('m, unit) op"
    and used :: "'m \<Rightarrow> Gas"
    and cap :: "'m \<Rightarrow> Gas"
    and spend :: "'m \<Rightarrow> Gas \<Rightarrow> 'm"
  assumes consume_Inr: "consume a d m = (Inr u, m') \<longleftrightarrow> unat (used m) + unat a \<le> unat (cap m) \<and> m' = spend m a"
    and used_spend: "unat (used m) + unat a \<le> unat (cap m) \<Longrightarrow> unat (used (spend m a)) = unat (used m) + unat a"
    and cap_spend: "cap (spend m a) = cap m"
begin

definition cost :: "Gas list \<Rightarrow> nat" where
  "cost xs = sum_list (map unat xs)"

definition within :: "'m \<Rightarrow> Gas list \<Rightarrow> bool" where
  "within m xs \<longleftrightarrow> unat (used m) + cost xs \<le> unat (cap m)"

definition spend_all :: "'m \<Rightarrow> Gas list \<Rightarrow> 'm" where
  "spend_all = foldl spend"

lemma spend_all_simps: "spend_all m [] = m" "spend_all m (x # xs) = spend_all (spend m x) xs"
  by (simp_all add: spend_all_def)

lemma within_Cons: "within m (x # xs) \<longleftrightarrow> unat (used m) + unat x \<le> unat (cap m) \<and> within (spend m x) xs"
  using used_spend[of m x] by (auto simp: within_def cost_def cap_spend)

lemma spend_all_spec:
  "within m xs \<Longrightarrow> unat (used (spend_all m xs)) = unat (used m) + cost xs" "cap (spend_all m xs) = cap m"
proof (induction xs arbitrary: m)
  case Nil
  { case 1 show ?case by (simp add: spend_all_def cost_def) }
  { case 2 show ?case by (simp add: spend_all_def) }
next
  case (Cons x xs)
  { case 1 then show ?case using Cons.IH(1) used_spend by (simp add: within_Cons spend_all_def cost_def) }
  { case 2 show ?case using Cons.IH(2)[of "spend m x"] by (simp add: spend_all_def cap_spend) }
qed

lemma within_append: "within m (xs @ ys) \<Longrightarrow> within m xs \<and> within (spend_all m xs) ys"
  using spend_all_spec[of m xs] by (auto simp: within_def cost_def)

lemma spend_all_append: "spend_all m (xs @ ys) = spend_all (spend_all m xs) ys"
  by (simp add: spend_all_def)

lemma within_appendI: "within m xs \<Longrightarrow> within (spend_all m xs) ys \<Longrightarrow> within m (xs @ ys)"
  using spend_all_spec[of m xs] by (simp add: within_def cost_def)

lemma within_append_iff: "within m (xs @ ys) \<longleftrightarrow> within m xs \<and> within (spend_all m xs) ys"
  using within_append within_appendI by blast

end

lemma unat_MaxUint64: "unat MaxUint64 = 2 ^ 64 - 1"
  by (simp add: MaxUint64_def unsigned_minus_1_eq_mask mask_eq_exp_minus_1)

lemma addUint64Overflow_iff:
  "addUint64Overflow a b = (if 2 ^ 64 \<le> unat a + unat b then (0, True) else (a + b, False))"
proof -
  have "unat (MaxUint64 - a) = 2 ^ 64 - 1 - unat a"
    by (subst unat_sub) (simp_all add: unat_MaxUint64, simp add: MaxUint64_def)
  then have "MaxUint64 - a < b \<longleftrightarrow> 2 ^ 64 \<le> unat a + unat b"
    using unat_less_pow[of a] by (auto simp: word_less_nat_alt)
  then show ?thesis by (simp add: addUint64Overflow_def)
qed

lemma unat_add_le:
  fixes a b c :: "64 word"
  assumes "unat a + unat b \<le> unat c"
  shows "unat (a + b) = unat a + unat b"
  using assms unat_less_pow[of c] by (intro unat_add_lem[THEN iffD1]) simp

interpretation basic: gas_meter basic_ConsumeGas consumed limit "\<lambda>m a. m\<lparr>consumed := consumed m + a\<rparr>"
proof unfold_locales
  fix a d m u m'
  show "basic_ConsumeGas a d m = (Inr u, m') \<longleftrightarrow>
      unat (consumed m) + unat a \<le> unat (limit m) \<and> m' = m\<lparr>consumed := consumed m + a\<rparr>"
  proof (cases "2 ^ 64 \<le> unat (consumed m) + unat a")
    case True
    then show ?thesis using unat_less_pow[of "limit m"]
      by (simp add: basic_ConsumeGas_def addUint64Overflow_iff)
  next
    case False
    then have "unat (consumed m + a) = unat (consumed m) + unat a" by (intro unat_add_lem[THEN iffD1]) simp
    with False show ?thesis
      by (auto simp: basic_ConsumeGas_def addUint64Overflow_iff word_less_nat_alt Let_def)
  qed
qed (simp_all add: unat_add_le)

lemma infinite_consume_Inr:
  "infinite_ConsumeGas a d m = (Inr u, m') \<longleftrightarrow>
     unat (iconsumed m) + unat a \<le> unat MaxUint64 \<and> m' = m\<lparr>iconsumed := iconsumed m + a\<rparr>"
  by (auto simp: infinite_ConsumeGas_def addUint64Overflow_iff unat_MaxUint64)

interpretation infinite: gas_meter infinite_ConsumeGas iconsumed "\<lambda>_. MaxUint64" "\<lambda>m a. m\<lparr>iconsumed := iconsumed m + a\<rparr>"
  by unfold_locales (simp_all add: infinite_consume_Inr unat_add_le)

fun spend_gas :: "GasMeter \<Rightarrow> Gas \<Rightarrow> GasMeter" where
  "spend_gas (BasicMeter m) a = BasicMeter (m\<lparr>consumed := consumed m + a\<rparr>)"
| "spend_gas (InfiniteMeter m) a = InfiniteMeter (m\<lparr>iconsumed := iconsumed m + a\<rparr>)"

interpretation meter: gas_meter ConsumeGas GasConsumed Limit spend_gas
proof unfold_locales
  fix a d m u m'
  show "ConsumeGas a d m = (Inr u, m') \<longleftrightarrow>
      unat (GasConsumed m) + unat a \<le> unat (Limit m) \<and> m' = spend_gas m a"
  proof (cases m)
    case (BasicMeter b)
    obtain r b' where c: "basic_ConsumeGas a d b = (r, b')" by fastforce
    then have "r = Inr u \<longleftrightarrow> unat (consumed b) + unat a \<le> unat (limit b)"
      "r = Inr u \<Longrightarrow> b' = b\<lparr>consumed := consumed b + a\<rparr>"
      using basic.consume_Inr[of a d b u b'] basic.consume_Inr[of a d b u] by auto
    with BasicMeter c show ?thesis by auto
  next
    case (InfiniteMeter i)
    obtain r i' where c: "infinite_ConsumeGas a d i = (r, i')" by fastforce
    then have "r = Inr u \<longleftrightarrow> unat (iconsumed i) + unat a \<le> unat MaxUint64"
      "r = Inr u \<Longrightarrow> i' = i\<lparr>iconsumed := iconsumed i + a\<rparr>"
      using infinite.consume_Inr[of a d i u i'] infinite.consume_Inr[of a d i u] by auto
    with InfiniteMeter c show ?thesis by auto
  qed
  show "unat (GasConsumed m) + unat a \<le> unat (Limit m) \<Longrightarrow>
      unat (GasConsumed (spend_gas m a)) = unat (GasConsumed m) + unat a"
    by (cases m) (simp_all add: unat_add_le)
  show "Limit (spend_gas m a) = Limit m" by (cases m) simp_all
qed

text \<open>The meter inside a metered store is a meter.\<close>

definition spend_store :: "'p gstore \<Rightarrow> Gas \<Rightarrow> 'p gstore" where
  "spend_store g a = g\<lparr>gasMeter := spend_gas (gasMeter g) a\<rparr>"

interpretation metered: gas_meter "\<lambda>a d. on_meter (ConsumeGas a d)" "\<lambda>g. GasConsumed (gasMeter g)"
  "\<lambda>g. Limit (gasMeter g)" spend_store
proof unfold_locales
  fix a d and g :: "'p gstore" and u g'
  obtain r m where c: "ConsumeGas a d (gasMeter g) = (r, m)" by fastforce
  have "r = Inr u \<longleftrightarrow> unat (GasConsumed (gasMeter g)) + unat a \<le> unat (Limit (gasMeter g))"
    "r = Inr u \<Longrightarrow> m = spend_gas (gasMeter g) a"
    using meter.consume_Inr[of a d "gasMeter g" u] c by auto
  then show "on_meter (ConsumeGas a d) g = (Inr u, g') \<longleftrightarrow>
      unat (GasConsumed (gasMeter g)) + unat a \<le> unat (Limit (gasMeter g)) \<and> g' = spend_store g a"
    using c by (auto simp: on_meter_def spend_store_def)
qed (simp_all add: spend_store_def meter.used_spend meter.cap_spend)

section \<open>Exact accounting\<close>

fun seek_charges :: "GasConfig \<Rightarrow> (bytes \<times> bytes option) list \<Rightarrow> Gas list" where
  "seek_charges c [] = [IterNextCostFlat c]"
| "seek_charges c (e # es) =
     [ReadCostPerByte c * len (Some (fst e)), ReadCostPerByte c * len (snd e), IterNextCostFlat c]"

fun drain_charges :: "GasConfig \<Rightarrow> (bytes \<times> bytes option) list \<Rightarrow> Gas list" where
  "drain_charges c [] = []"
| "drain_charges c (e # es) = seek_charges c (e # es) @ drain_charges c es"

fun charges :: "GasConfig \<Rightarrow> store_call \<Rightarrow> reply \<Rightarrow> Gas list" where
  "charges c (CGet k) r = [ReadCostFlat c, ReadCostPerByte c * len (Some k), ReadCostPerByte c * len (reply_value r)]"
| "charges c (CHas k) r = [HasCost c]"
| "charges c (CSet k v) r = [WriteCostFlat c, WriteCostPerByte c * len (Some k), WriteCostPerByte c * len v]"
| "charges c (CDelete k) r = [DeleteCost c]"
| "charges c (CIterate _ _ _) r = seek_charges c (reply_entries r) @ drain_charges c (reply_entries r)"

definition checks_set :: "(store_call \<Rightarrow> ('p, reply) op) \<Rightarrow> bool" where
  "checks_set par \<longleftrightarrow> (\<forall>k v p r p'. par (CSet k v) p = (Inr r, p') \<longrightarrow>
     AssertValidKey k = Inr () \<and> AssertValidValue v = Inr ())"

lemma spend_store_sel [simp]:
  "gasConfig (spend_store g a) = gasConfig g" "gparent (spend_store g a) = gparent g"
  "spend_store (g\<lparr>gparent := p\<rparr>) a = (spend_store g a)\<lparr>gparent := p\<rparr>"
  by (simp_all add: spend_store_def)

lemma spend_all_store [simp]:
  "gasConfig (metered.spend_all g as) = gasConfig g" "gparent (metered.spend_all g as) = gparent g"
  "metered.spend_all (g\<lparr>gparent := p\<rparr>) as = (metered.spend_all g as)\<lparr>gparent := p\<rparr>"
  by (induction as arbitrary: g) (simp_all add: metered.spend_all_simps)

lemma within_parent [simp]: "metered.within (g\<lparr>gparent := p\<rparr>) as = metered.within g as"
  by (simp add: metered.within_def)

lemma gas_charge_Inr [res_simps]:
  "gas_charge f d g = (Inr u, g') \<longleftrightarrow>
     metered.within g [f (gasConfig g)] \<and> g' = spend_store g (f (gasConfig g))"
  unfolding gas_charge_def metered.consume_Inr by (simp add: metered.within_def metered.cost_def)

lemma on_parent_Inr [res_simps]:
  "on_parent m g = (Inr x, g') \<longleftrightarrow> (\<exists>p'. m (gparent g) = (Inr x, p') \<and> g' = g\<lparr>gparent := p'\<rparr>)"
  by (cases "m (gparent g)") (auto simp: on_parent_def)

lemma within_Cons_store:
  "metered.within g (a # as) \<longleftrightarrow> metered.within g [a] \<and> metered.within (spend_store g a) as"
proof -
  have "metered.within g [a] \<longleftrightarrow> unat (GasConsumed (gasMeter g)) + unat a \<le> unat (Limit (gasMeter g))"
    by (simp add: metered.within_def metered.cost_def)
  then show ?thesis by (simp only: metered.within_Cons[of g a as])
qed

lemma within_Cons2:
  "metered.within g (a # b # bs) \<longleftrightarrow> metered.within g [a] \<and> metered.within (spend_store g a) (b # bs)"
  by (rule within_Cons_store)

lemma within_Nil:
  "metered.within g as \<Longrightarrow> metered.within g []" "metered.within g as \<Longrightarrow> metered.within (metered.spend_all g as) []"
  using metered.within_append[of g as "[]"] by (simp_all add: metered.within_def metered.cost_def)

lemma consumeSeekGas_Inr [res_simps]:
  "consumeSeekGas es g = (Inr u, g') \<longleftrightarrow>
     metered.within g (seek_charges (gasConfig g) es) \<and> g' = metered.spend_all g (seek_charges (gasConfig g) es)"
  by (cases es) (auto simp: consumeSeekGas_def res_simps within_Cons2 metered.spend_all_simps)

lemma gasIterator_Next_Inr [res_simps]:
  "gasIterator_Next es g = (Inr r, g') \<longleftrightarrow> r = tl es \<and>
     metered.within g (seek_charges (gasConfig g) es) \<and> g' = metered.spend_all g (seek_charges (gasConfig g) es)"
  by (auto simp: gasIterator_Next_def res_simps)

lemma gas_drain_Inr:
  "metered.within g [] \<Longrightarrow> gas_drain es g = (Inr u, g') \<longleftrightarrow>
     metered.within g (drain_charges (gasConfig g) es) \<and> g' = metered.spend_all g (drain_charges (gasConfig g) es)"
proof (induction es arbitrary: g)
  case Nil
  then show ?case by (simp add: res_simps metered.spend_all_simps)
next
  case (Cons e es)
  let ?s = "seek_charges (gasConfig g) (e # es)"
  have "gas_drain (e # es) g = (Inr u, g') \<longleftrightarrow>
      metered.within g ?s \<and> gas_drain es (metered.spend_all g ?s) = (Inr u, g')"
    by (auto simp: res_simps simp del: seek_charges.simps)
  also have "\<dots> \<longleftrightarrow> metered.within g ?s \<and> metered.within (metered.spend_all g ?s) (drain_charges (gasConfig g) es)
      \<and> g' = metered.spend_all (metered.spend_all g ?s) (drain_charges (gasConfig g) es)"
    using Cons.IH[of "metered.spend_all g ?s"] within_Nil(2)[of g ?s] by (auto simp del: seek_charges.simps)
  finally show ?case
    by (simp add: metered.within_append_iff metered.spend_all_append del: seek_charges.simps)
qed

lemma gas_call_Inr:
  assumes "checks_set par"
  shows "gas_call par c g = (Inr r, g') \<longleftrightarrow>
    (\<exists>p'. par c (gparent g) = (Inr r, p') \<and> metered.within g (charges (gasConfig g) c r)
       \<and> g' = (metered.spend_all g (charges (gasConfig g) c r))\<lparr>gparent := p'\<rparr>)"
proof (cases c)
  case (CGet k)
  then show ?thesis
    by (auto simp: Gas_Get_def res_simps within_Cons2 metered.spend_all_simps)
next
  case (CHas k)
  then show ?thesis by (auto simp: Gas_Has_def res_simps metered.spend_all_simps)
next
  case (CSet k v)
  have ok: "AssertValidKey k = Inr () \<and> AssertValidValue v = Inr ()" if "par (CSet k v) (gparent g) = (Inr r, p')" for p'
    using assms that unfolding checks_set_def by blast
  from CSet show ?thesis
    by (auto simp: Gas_Set_def res_simps within_Cons2 metered.spend_all_simps dest: ok)
next
  case (CDelete k)
  then show ?thesis by (auto simp: Gas_Delete_def res_simps metered.spend_all_simps)
next
  case (CIterate start endk asc)
  let ?c = "gasConfig g" and ?es = "reply_entries r"
  have drain: "gas_drain ?es ((metered.spend_all g (seek_charges ?c ?es))\<lparr>gparent := p'\<rparr>) = (Inr u, h) \<longleftrightarrow>
      metered.within (metered.spend_all g (seek_charges ?c ?es)) (drain_charges ?c ?es)
      \<and> h = (metered.spend_all g (seek_charges ?c ?es @ drain_charges ?c ?es))\<lparr>gparent := p'\<rparr>"
    if "metered.within g (seek_charges ?c ?es)" for p' u h
    using gas_drain_Inr[of "(metered.spend_all g (seek_charges ?c ?es))\<lparr>gparent := p'\<rparr>" ?es u h]
      within_Nil(2)[OF that] by (simp add: metered.spend_all_append)
  show ?thesis unfolding CIterate gas_call.simps charges.simps Gas_iterator_def metered.within_append_iff
    by (auto simp: res_simps drain)
qed

text \<open>The gas of a run: the charges of its calls, which depend on the replies.\<close>

fun run_charges :: "GasConfig \<Rightarrow> store_call list \<Rightarrow> reply list \<Rightarrow> Gas list" where
  "run_charges c (x # cs) (r # rs) = charges c x r @ run_charges c cs rs"
| "run_charges c [] rs = []"
| "run_charges c cs [] = []"

lemma gas_run_Inr:
  assumes "checks_set par" and "metered.within g []"
  shows "run_calls (gas_call par) cs g = (Inr rs, g') \<longleftrightarrow>
    (\<exists>p'. run_calls par cs (gparent g) = (Inr rs, p') \<and> metered.within g (run_charges (gasConfig g) cs rs)
       \<and> g' = (metered.spend_all g (run_charges (gasConfig g) cs rs))\<lparr>gparent := p'\<rparr>)"
  using assms(2)
proof (induction cs arbitrary: g rs g')
  case Nil
  then show ?case by (auto simp: res_simps metered.spend_all_simps)
next
  case (Cons x cs)
  let ?c = "gasConfig g"
  have IH: "run_calls (gas_call par) cs ((metered.spend_all g (charges ?c x r))\<lparr>gparent := p'\<rparr>) = (Inr qs, h) \<longleftrightarrow>
      (\<exists>p''. run_calls par cs p' = (Inr qs, p'')
        \<and> metered.within (metered.spend_all g (charges ?c x r)) (run_charges ?c cs qs)
        \<and> h = (metered.spend_all g (charges ?c x r @ run_charges ?c cs qs))\<lparr>gparent := p''\<rparr>)"
    if "metered.within g (charges ?c x r)" for r p' qs h
    using Cons.IH[of "(metered.spend_all g (charges ?c x r))\<lparr>gparent := p'\<rparr>" qs h] within_Nil(2)[OF that]
    by (simp add: metered.spend_all_append)
  show ?case
    by (cases rs) (auto simp: res_simps gas_call_Inr[OF assms(1)] IH metered.within_append_iff)
qed

lemma cache_checks_set: "checks_set cache_call"
  by (auto simp: checks_set_def reply_op_def Cache_Set_def res_simps)

section \<open>Metered transactions\<close>

text \<open>The stack of stores of a transaction: gas metering over a fresh cache over a store.\<close>

definition metered_tx ::
  "GasConfig \<Rightarrow> GasMeter \<Rightarrow> (bytes, bytes) kvmap \<Rightarrow> store_call list \<Rightarrow> reply list res \<times> cstore gstore" where
  "metered_tx c m p cs =
     run_calls (gas_call cache_call) cs \<lparr>gasMeter = m, gasConfig = c, gparent = NewStore p\<rparr>"

lemma metered_tx_Inr:
  assumes "kv_wf p" and "GasConsumed m \<le> Limit m"
  shows "metered_tx c m p cs = (Inr rs, g') \<Longrightarrow> fst (run_calls direct_call cs p) = Inr rs
      \<and> unat (GasConsumed m) + sum_list (map unat (run_charges c cs rs)) \<le> unat (Limit m)
      \<and> unat (GasConsumed (gasMeter g')) = unat (GasConsumed m) + sum_list (map unat (run_charges c cs rs))"
    and "fst (run_calls direct_call cs p) = Inr rs \<Longrightarrow>
      unat (GasConsumed m) + sum_list (map unat (run_charges c cs rs)) \<le> unat (Limit m) \<Longrightarrow>
      fst (metered_tx c m p cs) = Inr rs"
proof -
  let ?g = "\<lparr>gasMeter = m, gasConfig = c, gparent = NewStore p\<rparr>"
  have wi: "metered.within ?g xs \<longleftrightarrow> unat (GasConsumed m) + sum_list (map unat xs) \<le> unat (Limit m)" for xs
    by (simp add: metered.within_def metered.cost_def)
  have "metered.within ?g []" using assms(2) by (simp add: wi word_le_nat_alt)
  note r = gas_run_Inr[OF cache_checks_set this, of cs rs]
  note s = run_simulates[OF simulates_NewStore[OF assms(1)], of cs]
  {
    assume "metered_tx c m p cs = (Inr rs, g')"
    then obtain p' where p': "run_calls cache_call cs (NewStore p) = (Inr rs, p')"
      "metered.within ?g (run_charges c cs rs)" "g' = (metered.spend_all ?g (run_charges c cs rs))\<lparr>gparent := p'\<rparr>"
      using r unfolding metered_tx_def by auto
    then show "fst (run_calls direct_call cs p) = Inr rs
      \<and> unat (GasConsumed m) + sum_list (map unat (run_charges c cs rs)) \<le> unat (Limit m)
      \<and> unat (GasConsumed (gasMeter g')) = unat (GasConsumed m) + sum_list (map unat (run_charges c cs rs))"
      using s metered.spend_all_spec(1)[OF p'(2)] by (simp add: wi metered.cost_def)
  }
  assume "fst (run_calls direct_call cs p) = Inr rs"
    and "unat (GasConsumed m) + sum_list (map unat (run_charges c cs rs)) \<le> unat (Limit m)"
  moreover then obtain p' where "run_calls cache_call cs (NewStore p) = (Inr rs, p')" using s by (metis prod.collapse)
  ultimately show "fst (metered_tx c m p cs) = Inr rs"
    using r[of "(metered.spend_all ?g (run_charges c cs rs))\<lparr>gparent := p'\<rparr>"] unfolding metered_tx_def wi by simp
qed

text \<open>C13: a transaction that runs on a gas-metered, cache-wrapped store completes exactly when
  the same calls succeed on the store itself and the gas they cost fits into what the
  meter has left. It then gives the same replies and the meter shows the exact sum of the
  charges, without wrap-around; otherwise it fails. This holds for the limited and for
  the infinite meter, whose limit is the largest 64-bit number.\<close>

theorem gas_run_exact:
  assumes "kv_wf p" and "GasConsumed m \<le> Limit m"
  shows "(fst (metered_tx c m p cs) = Inr rs \<longleftrightarrow> fst (run_calls direct_call cs p) = Inr rs
      \<and> unat (GasConsumed m) + sum_list (map unat (run_charges c cs rs)) \<le> unat (Limit m))
    \<and> (fst (metered_tx c m p cs) = Inr rs \<longrightarrow> unat (GasConsumed (gasMeter (snd (metered_tx c m p cs)))) =
        unat (GasConsumed m) + sum_list (map unat (run_charges c cs rs)))"
  using metered_tx_Inr(1)[OF assms, of c cs rs "snd (metered_tx c m p cs)"] metered_tx_Inr(2)[OF assms, of cs rs c]
  by (cases "metered_tx c m p cs") auto

lemma gas_run_exact_witness:
  "fst (metered_tx KVGasConfig (NewGasMeter 4000) [([1], [7, 7])] [CGet [1], CSet [2] (Some [])]) = Inr [RValue (Some [7, 7]), RUnit]"
  using gas_run_exact[of "[([1], [7, 7])]" "NewGasMeter 4000" KVGasConfig "[CGet [1], CSet [2] (Some [])]"
      "[RValue (Some [7, 7]), RUnit]"]
  by (simp add: NewGasMeter_def KVGasConfig_def bind_op_def op_run AssertValidKey_def AssertValidValue_def
      MaxKeyLength_def MaxValueLength_def len_def)

section \<open>Meters that panic\<close>

fun spent_le :: "GasMeter \<Rightarrow> GasMeter \<Rightarrow> bool" where
  "spent_le (BasicMeter b) (BasicMeter b') \<longleftrightarrow> limit b' = limit b \<and> consumed b \<le> consumed b'"
| "spent_le (BasicMeter b) (InfiniteMeter i) \<longleftrightarrow> False"
| "spent_le (InfiniteMeter i) m \<longleftrightarrow> True"

definition store_spent_le :: "'p gstore \<Rightarrow> 'p gstore \<Rightarrow> bool" where
  "store_spent_le g g' = spent_le (gasMeter g) (gasMeter g')"

lemma store_spent_le_order: "reflp store_spent_le" "transp store_spent_le"
proof -
  have "spent_le m m" for m by (cases m) simp_all
  then show "reflp store_spent_le" by (auto intro: reflpI simp: store_spent_le_def)
  have "spent_le m m' \<Longrightarrow> spent_le m' m'' \<Longrightarrow> spent_le m m''" for m m' m''
    by (cases m; cases m'; cases m'') auto
  then show "transp store_spent_le" by (auto intro!: transpI simp: store_spent_le_def)
qed

lemma ConsumeGas_spent: "spent_le m (snd (ConsumeGas a d m))"
proof (cases m)
  case (BasicMeter b)
  show ?thesis
  proof (cases "2 ^ 64 \<le> unat (consumed b) + unat a")
    case True
    then show ?thesis using unat_less_pow[of "consumed b"]
      by (simp add: BasicMeter basic_ConsumeGas_def addUint64Overflow_iff word_le_nat_alt unat_MaxUint64)
  next
    case False
    then have "unat (consumed b + a) = unat (consumed b) + unat a" by (intro unat_add_lem[THEN iffD1]) simp
    with False show ?thesis
      by (simp add: BasicMeter basic_ConsumeGas_def addUint64Overflow_iff word_le_nat_alt Let_def)
  qed
qed simp

lemma gas_call_spent: "keeps store_spent_le (gas_call par c)"
proof -
  note ord = store_spent_le_order
  have ch: "keeps store_spent_le (gas_charge f d)" for f d
    using ConsumeGas_spent
    by (auto simp: keeps_def gas_charge_def on_meter_def store_spent_le_def Let_def split: prod.splits) (metis snd_conv)
  have pa: "keeps store_spent_le (on_parent m)" for m
    using ord(1) by (auto simp: keeps_def on_parent_def store_spent_le_def reflp_def split: prod.splits)
  have se: "keeps store_spent_le (consumeSeekGas es)" for es
    by (cases es) (simp_all add: consumeSeekGas_def keeps_intros ord ch)
  have dr: "keeps store_spent_le (gas_drain es)" for es
    by (induction es) (simp_all add: gasIterator_Next_def keeps_intros ord se)
  show ?thesis
    by (cases c) (simp_all add: Gas_Get_def Gas_Set_def Gas_Has_def Gas_Delete_def Gas_iterator_def
        keeps_intros ord ch pa se dr)
qed



text \<open>The infinite meter loses its count on overflow: it panics like the limited one, but the
  field has been assigned before the check, so afterwards the meter shows that no gas was
  consumed. The limited meter shows the largest number instead.\<close>

theorem infinite_overflow_resets:
  "2 ^ 64 \<le> unat c + unat a \<Longrightarrow>
     ConsumeGas a d (InfiniteMeter \<lparr>iconsumed = c\<rparr>) = (Inl (ErrorGasOverflow d), InfiniteMeter \<lparr>iconsumed = 0\<rparr>)
     \<and> ConsumeGas a d (BasicMeter \<lparr>limit = l, consumed = c\<rparr>) =
        (Inl (ErrorGasOverflow d), BasicMeter \<lparr>limit = l, consumed = MaxUint64\<rparr>)"
  by (simp add: infinite_ConsumeGas_def basic_ConsumeGas_def addUint64Overflow_iff)

lemma infinite_overflow_resets_witness:
  "ConsumeGas 1 ''a'' (InfiniteMeter \<lparr>iconsumed = 0xFFFFFFFFFFFFFFFF\<rparr>)
     = (Inl (ErrorGasOverflow ''a''), InfiniteMeter \<lparr>iconsumed = 0\<rparr>)"
  using infinite_overflow_resets[of "0xFFFFFFFFFFFFFFFF" 1 "''a''"] by simp

text \<open>The prices of the code do not wrap around. For keys and values of valid size the
  charges of a read and of a write under the default prices are exactly 1000 + 3 per byte
  and 2000 + 30 per byte.\<close>

theorem KV_charges_exact:
  assumes "AssertValidKey k = Inr ()" and "AssertValidValue (Some v) = Inr ()"
  shows "sum_list (map unat (charges KVGasConfig (CGet k) (RValue (Some v)))) = 1000 + 3 * (length k + length v)
    \<and> sum_list (map unat (charges KVGasConfig (CSet k (Some v)) r)) = 2000 + 30 * (length k + length v)"
proof -
  have "length k \<le> 2 ^ 17" "length v \<le> 2 ^ 31"
    using assms by (auto simp: AssertValidKey_def AssertValidValue_def MaxKeyLength_def MaxValueLength_def split: if_splits)
  then have "unat (3 * of_nat (length x) :: Gas) = 3 * length x \<and> unat (30 * of_nat (length x) :: Gas) = 30 * length x"
    if "x \<in> {k, v}" for x
    using that by (auto simp: unat_word_ariths unat_of_nat)
  then show ?thesis by (simp add: KVGasConfig_def len_def)
qed

lemma KV_charges_exact_witness:
  "sum_list (map unat (charges KVGasConfig (CGet [1]) (RValue (Some [2, 3])))) = 1000 + 3 * (length [1 :: byte] + length [2 :: byte, 3])
    \<and> sum_list (map unat (charges KVGasConfig (CSet [1] (Some [2, 3])) RUnit)) = 2000 + 30 * (length [1 :: byte] + length [2 :: byte, 3])"
  by (rule KV_charges_exact) (simp_all add: AssertValidKey_def AssertValidValue_def MaxKeyLength_def MaxValueLength_def)

end
