(* ===== verification/BaseApp.thy ===== *)
theory BaseApp
  imports GasKV
begin

text \<open>
  The transaction runner: \<open>runTx\<close>, \<open>runMsgs\<close>, \<open>CheckTx\<close>, \<open>FinalizeBlock\<close> and \<open>Commit\<close> of
  \<^verbatim>\<open>src/baseapp/baseapp.go\<close> and \<^verbatim>\<open>src/baseapp/abci.go\<close>. The store is any type \<open>'s\<close>: a branch of the
  multi-store is a copy of it, which is written back or dropped as a whole. A gas meter is a
  pointer in the code and keeps what was consumed when the branch is dropped. Decoder, ante
  handler, message handlers, post handler and mempool are fields of a configuration.
  Events, responses, tracing and telemetry are left out.
\<close>

section \<open>Configuration and state\<close>

datatype execMode =
    execModeCheck | execModeReCheck | execModeSimulate | execModePrepareProposal
  | execModeProcessProposal | execModeVoteExtension | execModeFinalize

text \<open>The ante handler gets the transaction, whether it is simulated, and the gas meter of the
  context. It returns the meter of the new context, \<open>None\<close> for a zero context. A message
  without \<open>ValidateBasic\<close> has \<open>None\<close> there, a message without route has no handler.\<close>

record ('tx, 'msg, 's, 'p) app_config =
  txDecoder :: "bytes \<Rightarrow> 'tx res"
  tx_GetMsgs :: "'tx \<Rightarrow> 'msg list"
  tx_GetMsgsV2 :: "'tx \<Rightarrow> unit res"
  msg_ValidateBasic :: "'msg \<Rightarrow> unit res option"
  anteHandler :: "('tx \<Rightarrow> bool \<Rightarrow> GasMeter \<Rightarrow> 's \<Rightarrow> (GasMeter option \<times> unit res) \<times> 's) option"
  router_Handler :: "'msg \<Rightarrow> (GasMeter \<times> 's, unit) op option"
  postHandler :: "('tx \<Rightarrow> bool \<Rightarrow> (GasMeter \<times> 's, unit) op) option"
  mempool_Insert :: "'tx \<Rightarrow> ('p, unit) op"
  mempool_Remove :: "'tx \<Rightarrow> ('p, unit) op"
  beginBlocker :: "('s, unit) op option"
  endBlocker :: "('s, unit) op option"
  consensus_MaxGas :: "'s \<Rightarrow> 64 word option"

definition ErrTxNotFound :: error where
  "ErrTxNotFound = Err ''tx not found in mempool''"

text \<open>The mempool that keeps nothing.\<close>

definition NoOp_Insert :: "'tx \<Rightarrow> ('p, unit) op" where
  "NoOp_Insert tx = ret_op ()"

definition NoOp_Remove :: "'tx \<Rightarrow> ('p, unit) op" where
  "NoOp_Remove tx = ret_op ()"

text \<open>The local variables of \<open>runTx\<close> next to the state it works on.\<close>

record ('s, 'p) tx_state =
  tx_ms :: 's
  BlockGasMeter :: GasMeter
  tx_mempool :: 'p

record ('s, 'p) tx_frame = "('s, 'p) tx_state" +
  ctx_GasMeter :: GasMeter
  fr_gasWanted :: Gas
  blockGasConsumed :: bool

record GasInfo =
  GasWanted :: Gas
  GasUsed :: Gas

section \<open>Running a transaction\<close>

definition validateBasicTxMsgs :: "('tx, 'msg, 's, 'p) app_config \<Rightarrow> 'msg list \<Rightarrow> unit res" where
  "validateBasicTxMsgs app msgs =
     (if length msgs = 0 then Inl (Err ''must contain at least one message'')
      else fold_r (\<lambda>_ msg. case msg_ValidateBasic app msg of None \<Rightarrow> Inr () | Some r \<Rightarrow> r) () msgs)"

definition consumeBlockGas :: "(('s, 'p) tx_frame, unit) op" where
  "consumeBlockGas f =
     (if blockGasConsumed f then (Inr (), f)
      else let (r, g) = ConsumeGas (GasConsumedToLimit (ctx_GasMeter f)) ''block gas meter'' (BlockGasMeter f) in
        (r, f\<lparr>blockGasConsumed := True, BlockGasMeter := g\<rparr>))"

text \<open>A panic of the ante handler leaves the context as it was, an error does not.\<close>

definition run_ante :: "('tx, 'msg, 's, 'p) app_config \<Rightarrow> execMode \<Rightarrow> 'tx \<Rightarrow> (('s, 'p) tx_frame, unit) op" where
  "run_ante app mode tx =
     (case anteHandler app of
        None \<Rightarrow> ret_op ()
      | Some h \<Rightarrow> (\<lambda>f.
          case h tx (mode = execModeSimulate) (ctx_GasMeter f) (tx_ms f) of
            ((_, Inl (Panic m)), _) \<Rightarrow> (Inl (Panic m), f)
          | ((newCtx, r), ms') \<Rightarrow>
              (let f = (case newCtx of Some g \<Rightarrow> f\<lparr>ctx_GasMeter := g\<rparr> | None \<Rightarrow> f);
                   f = f\<lparr>fr_gasWanted := Limit (ctx_GasMeter f)\<rparr> in
               case r of Inl e \<Rightarrow> (Inl e, f) | Inr _ \<Rightarrow> (Inr (), f\<lparr>tx_ms := ms'\<rparr>))))"

definition on_mempool :: "('p, unit) op \<Rightarrow> (('s, 'p) tx_frame, unit) op" where
  "on_mempool m f = (case m (tx_mempool f) of (r, p) \<Rightarrow> (r, f\<lparr>tx_mempool := p\<rparr>))"

definition update_mempool :: "('tx, 'msg, 's, 'p) app_config \<Rightarrow> execMode \<Rightarrow> 'tx \<Rightarrow> (('s, 'p) tx_frame, unit) op" where
  "update_mempool app mode tx =
     (if mode = execModeCheck then on_mempool (mempool_Insert app tx)
      else if mode = execModeFinalize
      then (\<lambda>f. case on_mempool (mempool_Remove app tx) f of
             (Inl e, f') \<Rightarrow> if e \<noteq> ErrTxNotFound then (Inl e, f') else (Inr (), f')
           | (Inr u, f') \<Rightarrow> (Inr (), f'))
      else ret_op ())"

definition runMsgs :: "('tx, 'msg, 's, 'p) app_config \<Rightarrow> execMode \<Rightarrow> 'msg list \<Rightarrow> (GasMeter \<times> 's, unit) op" where
  "runMsgs app mode msgs =
     (if mode \<noteq> execModeFinalize \<and> mode \<noteq> execModeSimulate then ret_op ()
      else for_op (\<lambda>msg. case router_Handler app msg of
          None \<Rightarrow> fail_op (Err ''unknown request'') | Some h \<Rightarrow> h) msgs)"

definition msgs_and_post :: "('tx, 'msg, 's, 'p) app_config \<Rightarrow> execMode \<Rightarrow> 'tx \<Rightarrow> (GasMeter \<times> 's, unit) op" where
  "msgs_and_post app mode tx =
     seq_op (lift_op (tx_GetMsgsV2 app tx))
       (seq_op (runMsgs app mode (tx_GetMsgs app tx))
         (case postHandler app of None \<Rightarrow> ret_op () | Some h \<Rightarrow> h tx (mode = execModeSimulate)))"

text \<open>Messages and post handler work on a branch, which is written in one mode only and after
  the gas of the block was paid.\<close>

definition run_branch :: "('tx, 'msg, 's, 'p) app_config \<Rightarrow> execMode \<Rightarrow> 'tx \<Rightarrow> (('s, 'p) tx_frame, unit) op" where
  "run_branch app mode tx f =
     (case msgs_and_post app mode tx (ctx_GasMeter f, tx_ms f) of
        (Inl e, (g, _)) \<Rightarrow> (Inl e, f\<lparr>ctx_GasMeter := g\<rparr>)
      | (Inr _, (g, msCache)) \<Rightarrow>
          if mode = execModeFinalize
          then seq_op consumeBlockGas (modify_op (\<lambda>f. f\<lparr>tx_ms := msCache\<rparr>)) (f\<lparr>ctx_GasMeter := g\<rparr>)
          else (Inr (), f\<lparr>ctx_GasMeter := g\<rparr>))"

definition tx_body :: "('tx, 'msg, 's, 'p) app_config \<Rightarrow> execMode \<Rightarrow> bytes \<Rightarrow> (('s, 'p) tx_frame, unit) op" where
  "tx_body app mode txBytes =
     bind_op (lift_op (txDecoder app txBytes)) (\<lambda>tx.
     seq_op (lift_op (validateBasicTxMsgs app (tx_GetMsgs app tx)))
       (seq_op (run_ante app mode tx)
         (seq_op (update_mempool app mode tx) (run_branch app mode tx))))"

text \<open>The deferred functions, in the order they run: the gas of the block if it was not paid yet,
  where a panic replaces the outcome, then the recovery.\<close>

definition deferred_gas :: "execMode \<Rightarrow> unit res \<times> ('s, 'p) tx_frame \<Rightarrow> unit res \<times> ('s, 'p) tx_frame" where
  "deferred_gas mode rf =
     (case rf of (r, f) \<Rightarrow>
        if mode = execModeFinalize
        then (case consumeBlockGas f of (Inl e, f') \<Rightarrow> (Inl e, f') | (Inr _, f') \<Rightarrow> (r, f')) else (r, f))"

fun processRecovery :: "unit res \<Rightarrow> unit res" where
  "processRecovery (Inl (Panic m)) = Inl (Err m)"
| "processRecovery r = r"

definition new_frame :: "GasMeter \<Rightarrow> ('s, 'p) tx_state \<Rightarrow> ('s, 'p) tx_frame" where
  "new_frame g s = tx_state.extend s \<lparr>ctx_GasMeter = g, fr_gasWanted = 0, blockGasConsumed = False\<rparr>"

definition runTx :: "('tx, 'msg, 's, 'p) app_config \<Rightarrow> execMode \<Rightarrow> GasMeter \<Rightarrow> bytes \<Rightarrow> ('s, 'p) tx_state \<Rightarrow>
    (GasInfo \<times> unit res) \<times> ('s, 'p) tx_state" where
  "runTx app mode meter txBytes s =
     (if mode = execModeFinalize \<and> IsOutOfGas (BlockGasMeter s)
      then ((\<lparr>GasWanted = 0, GasUsed = 0\<rparr>, Inl (Err ''no block gas left to run tx'')), s)
      else case deferred_gas mode (tx_body app mode txBytes (new_frame meter s)) of
        (r, f) \<Rightarrow>
          ((\<lparr>GasWanted = fr_gasWanted f, GasUsed = GasConsumed (ctx_GasMeter f)\<rparr>, processRecovery r),
           (tx_state.truncate f)\<lparr>tx_ms := if mode = execModeSimulate then tx_ms s else tx_ms f\<rparr>))"

section \<open>The stages of a transaction\<close>

text \<open>The context and store after an ante handler that accepted the transaction.\<close>

definition ante_result :: "('tx, 'msg, 's, 'p) app_config \<Rightarrow> execMode \<Rightarrow> 'tx \<Rightarrow> GasMeter \<Rightarrow> 's \<Rightarrow> (GasMeter \<times> 's) option" where
  "ante_result app mode tx g s =
     (case anteHandler app of
        None \<Rightarrow> Some (g, s)
      | Some h \<Rightarrow> (case h tx (mode = execModeSimulate) g s of
          ((c, Inr _), s1) \<Rightarrow> Some (case c of Some g1 \<Rightarrow> g1 | None \<Rightarrow> g, s1)
        | _ \<Rightarrow> None))"

lemma run_ante_cases:
  obtains (accept) g1 s1 f' where "run_ante app mode tx f = (Inr (), f')" "ante_result app mode tx (ctx_GasMeter f) (tx_ms f) = Some (g1, s1)"
      "ctx_GasMeter f' = g1" "tx_ms f' = s1" "BlockGasMeter f' = BlockGasMeter f" "blockGasConsumed f' = blockGasConsumed f"
    | (reject) e f' where "run_ante app mode tx f = (Inl e, f')" "tx_ms f' = tx_ms f" "BlockGasMeter f' = BlockGasMeter f"
      "blockGasConsumed f' = blockGasConsumed f"
proof (cases "anteHandler app")
  case None
  then show ?thesis using accept by (simp add: run_ante_def ret_op_def ante_result_def)
next
  case (Some h)
  obtain c r s1 where h: "h tx (mode = execModeSimulate) (ctx_GasMeter f) (tx_ms f) = ((c, r), s1)" by (metis prod.exhaust)
  show ?thesis
  proof (cases r)
    case (Inl e)
    with Some h show ?thesis
      by (cases e; cases c) (auto simp: run_ante_def Let_def intro!: reject)
  next
    case (Inr u)
    with Some h show ?thesis by (cases c) (auto simp: run_ante_def Let_def ante_result_def intro!: accept)
  qed
qed

lemma update_mempool_frame:
  assumes "update_mempool app mode tx f = (r, f')"
  shows "tx_ms f' = tx_ms f" "BlockGasMeter f' = BlockGasMeter f" "blockGasConsumed f' = blockGasConsumed f"
    "ctx_GasMeter f' = ctx_GasMeter f"
  using assms by (auto simp: update_mempool_def on_mempool_def ret_op_def split: if_splits prod.splits sum.splits)

text \<open>The block meter after \<open>runTx\<close> was charged.\<close>

definition charged :: "GasMeter \<Rightarrow> GasMeter \<Rightarrow> GasMeter" where
  "charged m g = snd (ConsumeGas (GasConsumedToLimit m) ''block gas meter'' g)"

definition charge_ok :: "GasMeter \<Rightarrow> GasMeter \<Rightarrow> bool" where
  "charge_ok m g \<longleftrightarrow> fst (ConsumeGas (GasConsumedToLimit m) ''block gas meter'' g) = Inr ()"

lemma consumeBlockGas_once:
  assumes "\<not> blockGasConsumed f"
  obtains f' where "consumeBlockGas f = (fst (ConsumeGas (GasConsumedToLimit (ctx_GasMeter f)) ''block gas meter'' (BlockGasMeter f)), f')"
    "f' = f\<lparr>blockGasConsumed := True, BlockGasMeter := charged (ctx_GasMeter f) (BlockGasMeter f)\<rparr>"
  using assms by (auto simp: consumeBlockGas_def charged_def Let_def split: prod.splits)

text \<open>The branch: written only if messages, post handler and the block gas all succeed.\<close>

lemma run_branch_cases:
  assumes nb: "\<not> blockGasConsumed f"
  obtains (fail) e f' where "run_branch app mode tx f = (Inl e, f')" "tx_ms f' = tx_ms f"
      "\<not> blockGasConsumed f' \<Longrightarrow> BlockGasMeter f' = BlockGasMeter f"
      "blockGasConsumed f' \<Longrightarrow> mode = execModeFinalize \<and> BlockGasMeter f' = charged (ctx_GasMeter f') (BlockGasMeter f)"
    | (wrote) g2 s2 f' where "run_branch app mode tx f = (Inr (), f')" "msgs_and_post app mode tx (ctx_GasMeter f, tx_ms f) = (Inr (), (g2, s2))"
      "ctx_GasMeter f' = g2" "tx_ms f' = (if mode = execModeFinalize then s2 else tx_ms f)"
      "mode = execModeFinalize \<Longrightarrow> charge_ok g2 (BlockGasMeter f) \<and> blockGasConsumed f' \<and> BlockGasMeter f' = charged g2 (BlockGasMeter f)"
      "mode \<noteq> execModeFinalize \<Longrightarrow> \<not> blockGasConsumed f' \<and> BlockGasMeter f' = BlockGasMeter f"
proof -
  obtain r g2 s2 where m: "msgs_and_post app mode tx (ctx_GasMeter f, tx_ms f) = (r, (g2, s2))" by (metis prod.exhaust)
  let ?f = "f\<lparr>ctx_GasMeter := g2\<rparr>"
  obtain c where c: "consumeBlockGas ?f = (fst (ConsumeGas (GasConsumedToLimit g2) ''block gas meter'' (BlockGasMeter f)), c)"
    "c = ?f\<lparr>blockGasConsumed := True, BlockGasMeter := charged g2 (BlockGasMeter f)\<rparr>"
    using consumeBlockGas_once[of ?f] nb by auto
  show thesis
  proof (cases r)
    case (Inl e)
    with m nb show ?thesis by (intro fail[of e ?f]) (auto simp: run_branch_def)
  next
    case (Inr u)
    note ok = Inr
    show ?thesis
    proof (cases "mode = execModeFinalize")
      case False
      with ok m nb show ?thesis by (intro wrote[of ?f g2 s2]) (auto simp: run_branch_def)
    next
      case True
      show ?thesis
      proof (cases "fst (ConsumeGas (GasConsumedToLimit g2) ''block gas meter'' (BlockGasMeter f))")
        case (Inl e)
        with ok m True c show ?thesis by (intro fail[of e c]) (auto simp: run_branch_def seq_op_def bind_op_def)
      next
        case (Inr v)
        with ok m True c show ?thesis
          by (intro wrote[of "c\<lparr>tx_ms := s2\<rparr>" g2 s2]) (auto simp: run_branch_def seq_op_def bind_op_def modify_op_def charge_ok_def)
      qed
    qed
  qed
qed

lemma tx_body_cases:
  assumes nb: "\<not> blockGasConsumed f"
  obtains (fail) e f' where "tx_body app mode b f = (Inl e, f')"
      "tx_ms f' = tx_ms f \<or> (\<exists>tx g1. txDecoder app b = Inr tx \<and> ante_result app mode tx (ctx_GasMeter f) (tx_ms f) = Some (g1, tx_ms f'))"
      "\<not> blockGasConsumed f' \<Longrightarrow> BlockGasMeter f' = BlockGasMeter f"
      "blockGasConsumed f' \<Longrightarrow> mode = execModeFinalize \<and> BlockGasMeter f' = charged (ctx_GasMeter f') (BlockGasMeter f)"
    | (wrote) tx g1 s1 g2 s2 f' where "tx_body app mode b f = (Inr (), f')" "txDecoder app b = Inr tx"
      "validateBasicTxMsgs app (tx_GetMsgs app tx) = Inr ()"
      "ante_result app mode tx (ctx_GasMeter f) (tx_ms f) = Some (g1, s1)"
      "msgs_and_post app mode tx (g1, s1) = (Inr (), (g2, s2))" "ctx_GasMeter f' = g2"
      "tx_ms f' = (if mode = execModeFinalize then s2 else s1)"
      "mode = execModeFinalize \<Longrightarrow> charge_ok g2 (BlockGasMeter f) \<and> blockGasConsumed f' \<and> BlockGasMeter f' = charged g2 (BlockGasMeter f)"
      "mode \<noteq> execModeFinalize \<Longrightarrow> \<not> blockGasConsumed f' \<and> BlockGasMeter f' = BlockGasMeter f"
proof (cases "txDecoder app b")
  case (Inl e)
  with nb show ?thesis by (intro fail[of e f]) (auto simp: tx_body_def op_run bind_op_def)
next
  case dec: (Inr tx)
  show ?thesis
  proof (cases "validateBasicTxMsgs app (tx_GetMsgs app tx)")
    case (Inl e)
    with dec nb show ?thesis by (intro fail[of e f]) (auto simp: tx_body_def op_run bind_op_def)
  next
    case val: (Inr u)
    have body: "tx_body app mode b f = seq_op (run_ante app mode tx) (seq_op (update_mempool app mode tx) (run_branch app mode tx)) f"
      using dec val by (simp add: tx_body_def op_run bind_op_run)
    show ?thesis
    proof (cases rule: run_ante_cases[of app mode tx f])
      case (reject e f')
      with body nb show ?thesis by (intro fail[of e f']) (auto simp: op_run bind_op_run)
    next
      case ante: (accept g1 s1 f1)
      obtain r f2 where pool: "update_mempool app mode tx f1 = (r, f2)" by fastforce
      note fr = update_mempool_frame[OF pool]
      show ?thesis
      proof (cases r)
        case (Inl e)
        with body ante pool fr nb dec show ?thesis by (intro fail[of e f2]) (auto simp: op_run bind_op_run)
      next
        case (Inr v)
        have nb2: "\<not> blockGasConsumed f2" using fr ante nb by simp
        have run: "tx_body app mode b f = run_branch app mode tx f2" using body ante pool Inr by (simp add: op_run bind_op_run)
        show ?thesis
        proof (cases rule: run_branch_cases[OF nb2, of app mode tx])
          case (1 e f')
          with run fr ante dec show ?thesis by (intro fail[of e f']) auto
        next
          case (2 g2 s2 f')
          with run fr ante dec val show ?thesis by (intro wrote[of f' tx g1 s1 g2 s2]) auto
        qed
      qed
    qed
  qed
qed

lemma new_frame_sel [simp]:
  "tx_ms (new_frame g s) = tx_ms s" "BlockGasMeter (new_frame g s) = BlockGasMeter s" "tx_mempool (new_frame g s) = tx_mempool s"
  "ctx_GasMeter (new_frame g s) = g" "blockGasConsumed (new_frame g s) = False"
  by (simp_all add: new_frame_def tx_state.defs)

lemma new_frame_fresh: "\<not> blockGasConsumed (new_frame g s)"
  by simp

lemma truncate_sel [simp]:
  "tx_ms (tx_state.truncate f) = tx_ms f" "BlockGasMeter (tx_state.truncate f) = BlockGasMeter f"
  "tx_mempool (tx_state.truncate f) = tx_mempool f"
  by (simp_all add: tx_state.defs)

lemma processRecovery_iff: "processRecovery r = Inr u \<longleftrightarrow> r = Inr u" "processRecovery (Inl e) = Inl e' \<longleftrightarrow> e' = Err (case e of Err m \<Rightarrow> m | Panic m \<Rightarrow> m)"
  by (cases r rule: processRecovery.cases; auto) (cases e; auto)

lemma deferred_gas_frame:
  assumes "deferred_gas mode (r, f) = (r', f')"
  shows "tx_ms f' = tx_ms f" "ctx_GasMeter f' = ctx_GasMeter f" "mode \<noteq> execModeFinalize \<Longrightarrow> r' = r \<and> f' = f"
    "blockGasConsumed f \<Longrightarrow> r' = r \<and> f' = f" "r = Inl e \<Longrightarrow> \<exists>e'. r' = Inl e'"
    "mode = execModeFinalize \<Longrightarrow> \<not> blockGasConsumed f \<Longrightarrow> BlockGasMeter f' = charged (ctx_GasMeter f) (BlockGasMeter f)"
  using assms by (auto simp: deferred_gas_def consumeBlockGas_def charged_def Let_def split: if_splits prod.splits sum.splits)

section \<open>Transactions are atomic\<close>

text \<open>An application to run: a transaction is a list of bytes, each a message that adds itself to
  the store and uses 30 gas, and 0 is a message that fails after its write. The ante handler
  takes a fee and gives every transaction 100 gas.\<close>

definition adder_handler :: "8 word \<Rightarrow> (GasMeter \<times> int, unit) op" where
  "adder_handler m =
     (\<lambda>(g, s). case ConsumeGas 30 ''message'' g of
        (Inl e, g') \<Rightarrow> (Inl e, (g', s))
      | (Inr _, g') \<Rightarrow> if m = 0 then (Inl (Err ''zero''), (g', s + 500)) else (Inr (), (g', s + uint m)))"

definition adder_app :: "(bytes, 8 word, int, unit) app_config" where
  "adder_app =
     \<lparr>txDecoder = (\<lambda>b. if b = [] then Inl (Err ''tx parse error'') else Inr b), tx_GetMsgs = (\<lambda>tx. tx),
      tx_GetMsgsV2 = (\<lambda>_. Inr ()), msg_ValidateBasic = (\<lambda>_. None),
      anteHandler = Some (\<lambda>_ _ _ s. ((Some (NewGasMeter 100), Inr ()), s - 7)),
      router_Handler = (\<lambda>m. Some (adder_handler m)), postHandler = None,
      mempool_Insert = NoOp_Insert, mempool_Remove = NoOp_Remove,
      beginBlocker = None, endBlocker = None, consensus_MaxGas = (\<lambda>_. Some 150)\<rparr>"

definition adder_state :: "int \<Rightarrow> Gas \<Rightarrow> (int, unit) tx_state" where
  "adder_state s l = \<lparr>tx_ms = s, BlockGasMeter = NewGasMeter l, tx_mempool = ()\<rparr>"

lemmas adder_simps =
  adder_app_def adder_handler_def adder_state_def runTx_def tx_body_def new_frame_def tx_state.defs
  validateBasicTxMsgs_def run_ante_def update_mempool_def on_mempool_def NoOp_Insert_def NoOp_Remove_def run_branch_def
  msgs_and_post_def runMsgs_def op_run bind_op_def consumeBlockGas_def deferred_gas_def NewGasMeter_def
  NewInfiniteGasMeter_def basic_IsOutOfGas_def basic_ConsumeGas_def addUint64Overflow_def MaxUint64_def
  basic_GasConsumedToLimit_def basic_IsPastLimit_def ErrorOutOfGas_def ErrTxNotFound_def Let_def

lemma adder_runs:
  "tx_ms (snd (runTx adder_app execModeFinalize NewInfiniteGasMeter [3, 4] (adder_state 50 500))) = 50"
  "fst (runTx adder_app execModeFinalize NewInfiniteGasMeter [3, 4] (adder_state 50 500)) = (\<lparr>GasWanted = 100, GasUsed = 60\<rparr>, Inr ())"
  "tx_ms (snd (runTx adder_app execModeFinalize NewInfiniteGasMeter [3, 0] (adder_state 50 500))) = 43"
  by (simp_all add: adder_simps)

text \<open>The outcome of a run by its stages.\<close>

lemma runTx_stages:
  assumes "runTx app mode g b s = ((gi, r), s')"
  shows "case r of
      Inr _ \<Rightarrow> \<exists>tx g1 s1 g2 s2. txDecoder app b = Inr tx \<and> validateBasicTxMsgs app (tx_GetMsgs app tx) = Inr ()
        \<and> ante_result app mode tx g (tx_ms s) = Some (g1, s1) \<and> msgs_and_post app mode tx (g1, s1) = (Inr (), (g2, s2))
        \<and> tx_ms s' = (if mode = execModeFinalize then s2 else if mode = execModeSimulate then tx_ms s else s1)
    | Inl _ \<Rightarrow> tx_ms s' = tx_ms s \<or> (\<exists>tx g1. txDecoder app b = Inr tx \<and> ante_result app mode tx g (tx_ms s) = Some (g1, tx_ms s'))"
proof (cases "mode = execModeFinalize \<and> IsOutOfGas (BlockGasMeter s)")
  case True
  then show ?thesis using assms by (auto simp: runTx_def)
next
  case go: False
  obtain r0 f0 where b0: "tx_body app mode b (new_frame g s) = (r0, f0)" by fastforce
  obtain r1 f1 where b1: "deferred_gas mode (r0, f0) = (r1, f1)" by fastforce
  note d = deferred_gas_frame[OF b1]
  have out: "r = processRecovery r1" "tx_ms s' = (if mode = execModeSimulate then tx_ms s else tx_ms f0)"
    using assms go b0 b1 d(1) by (auto simp: runTx_def)
  show ?thesis
  proof (cases rule: tx_body_cases[OF new_frame_fresh[of g s], of app mode b])
    case (1 e f')
    then obtain e' where "r1 = Inl e'" using b0 d(5)[of e] by auto
    then obtain e'' where "r = Inl e''" using out(1) by (cases e') auto
    with 1 b0 out(2) show ?thesis by auto
  next
    case (2 tx g1 s1 g2 s2 f')
    then have "r1 = Inr ()" using b0 d(3,4) by (cases "mode = execModeFinalize") auto
    with 2 b0 out show ?thesis by auto
  qed
qed

text \<open>C2: A transaction is all or nothing. If \<open>runTx\<close> succeeds, the ante handler accepted the
  transaction and all messages and the post handler succeeded on what it left; the result is
  written if the block is being finalized, only the writes of the ante handler stay in the
  modes that check, and nothing does in a simulation. If \<open>runTx\<close> fails, at any stage, with an
  error or a panic, the store is as before or as the ante handler left it: no write of a
  message survives.\<close>

theorem runTx_atomic:
  assumes "runTx app mode g b s = ((gi, r), s')"
  shows "case r of
      Inr _ \<Rightarrow> \<exists>tx g1 s1 g2 s2. txDecoder app b = Inr tx \<and> validateBasicTxMsgs app (tx_GetMsgs app tx) = Inr ()
        \<and> ante_result app mode tx g (tx_ms s) = Some (g1, s1) \<and> msgs_and_post app mode tx (g1, s1) = (Inr (), (g2, s2))
        \<and> tx_ms s' = (if mode = execModeFinalize then s2 else if mode = execModeSimulate then tx_ms s else s1)
    | Inl _ \<Rightarrow> tx_ms s' = tx_ms s \<or> (\<exists>tx g1. txDecoder app b = Inr tx \<and> ante_result app mode tx g (tx_ms s) = Some (g1, tx_ms s'))"
  by (rule runTx_stages[OF assms])

lemma runTx_atomic_witness:
  "\<exists>g1 s1 g2. ante_result adder_app execModeFinalize [3, 4] NewInfiniteGasMeter 50 = Some (g1, s1)
     \<and> msgs_and_post adder_app execModeFinalize [3, 4] (g1, s1) = (Inr (), (g2, 50))"
proof -
  let ?b = "[3, 4] :: bytes" let ?s = "adder_state 50 500" let ?run = "runTx adder_app execModeFinalize NewInfiniteGasMeter ?b ?s"
  have "?run = ((\<lparr>GasWanted = 100, GasUsed = 60\<rparr>, Inr ()), snd ?run)"
    using adder_runs(2) by (metis prod.collapse)
  from runTx_atomic[OF this] adder_runs(1) show ?thesis by (auto simp: adder_app_def adder_state_def)
qed

section \<open>Block gas\<close>



end
