(* ===== verification/Abci.thy ===== *)
theory Abci
  imports BaseApp
begin

text \<open>
  The ABCI calls of \<^verbatim>\<open>src/baseapp/abci.go\<close> that change the state of the application: \<open>InitChain\<close>,
  \<open>CheckTx\<close>, \<open>FinalizeBlock\<close> and \<open>Commit\<close>, and the simulation of a transaction. The multi-store
  \<open>cms\<close>, the branch that is checked and the branch that is finalized are values of one type; a
  new branch is a copy. The configuration depends on the header \<open>'h\<close> of the block (its time).
  A transaction starts with the infinite meter of a new context, which the ante handler
  replaces. Between \<open>FinalizeBlock\<close> and \<open>Commit\<close> the checked branch of the code reads keys it has
  not cached from the store just written; the copy of the model keeps the old ones.
\<close>

section \<open>State and calls\<close>

record ('s, 'p) app_state =
  cms :: 's
  checkState :: "'s option"
  finalizeBlockState :: "'s option"
  app_mempool :: 'p
  LastBlockHeight :: "64 word"
  initialHeight :: "64 word"

record 'h RequestFinalizeBlock =
  req_Height :: "64 word"
  req_Header :: 'h
  req_Txs :: "bytes list"

definition validateFinalizeBlockHeight :: "('s, 'p) app_state \<Rightarrow> 64 word \<Rightarrow> unit res" where
  "validateFinalizeBlockHeight app height =
     (if sint height < 1 then Inl (Err ''invalid height'')
      else let expectedHeight = (if LastBlockHeight app = 0 \<and> sint (initialHeight app) > 1 then initialHeight app
                                 else LastBlockHeight app + 1) in
        if height \<noteq> expectedHeight then Inl (Err ''invalid height'') else Inr ())"

definition GetMaximumBlockGas :: "('tx, 'msg, 's, 'p) app_config \<Rightarrow> 's \<Rightarrow> Gas res" where
  "GetMaximumBlockGas cfg s =
     (case consensus_MaxGas cfg s of
        None \<Rightarrow> Inr 0
      | Some maxGas \<Rightarrow>
          if sint maxGas < - 1 then Inl (Panic ''invalid maximum block gas'')
          else if maxGas = - 1 then Inr 0 else Inr maxGas)"

definition getBlockGasMeter :: "('tx, 'msg, 's, 'p) app_config \<Rightarrow> 's \<Rightarrow> GasMeter res" where
  "getBlockGasMeter cfg s =
     bind_r (GetMaximumBlockGas cfg s) (\<lambda>maxGas. Inr (if maxGas > 0 then NewGasMeter maxGas else NewInfiniteGasMeter))"

definition on_ms :: "('s, unit) op \<Rightarrow> (('s, 'p) tx_state, unit) op" where
  "on_ms m s = (case m (tx_ms s) of (r, ms) \<Rightarrow> (r, s\<lparr>tx_ms := ms\<rparr>))"

definition beginBlock :: "('tx, 'msg, 's, 'p) app_config \<Rightarrow> (('s, 'p) tx_state, unit) op" where
  "beginBlock cfg = (case beginBlocker cfg of None \<Rightarrow> ret_op () | Some h \<Rightarrow> must_op (on_ms h))"

definition endBlock :: "('tx, 'msg, 's, 'p) app_config \<Rightarrow> (('s, 'p) tx_state, unit) op" where
  "endBlock cfg = (case endBlocker cfg of None \<Rightarrow> ret_op () | Some h \<Rightarrow> must_op (on_ms h))"

definition deliverTx :: "('tx, 'msg, 's, 'p) app_config \<Rightarrow> bytes \<Rightarrow> ('s, 'p) tx_state \<Rightarrow> ('s, 'p) tx_state" where
  "deliverTx cfg rawTx s = snd (runTx cfg execModeFinalize NewInfiniteGasMeter rawTx s)"

definition deliver_txs :: "('tx, 'msg, 's, 'p) app_config \<Rightarrow> bytes list \<Rightarrow> ('s, 'p) tx_state \<Rightarrow> ('s, 'p) tx_state" where
  "deliver_txs cfg txs s =
     foldl (\<lambda>s rawTx. case txDecoder cfg rawTx of Inl _ \<Rightarrow> s | Inr _ \<Rightarrow> deliverTx cfg rawTx s) s txs"

definition block_body :: "('tx, 'msg, 's, 'p) app_config \<Rightarrow> bytes list \<Rightarrow> (('s, 'p) tx_state, unit) op" where
  "block_body cfg txs =
     seq_op (beginBlock cfg) (seq_op (modify_op (deliver_txs cfg txs)) (endBlock cfg))"

text \<open>The branch a block starts from: the one \<open>InitChain\<close> left, or a new one.\<close>

definition finalize_ms :: "('s, 'p) app_state \<Rightarrow> 's" where
  "finalize_ms app = (case finalizeBlockState app of None \<Rightarrow> cms app | Some ms \<Rightarrow> ms)"

text \<open>The hash of the working state writes the finalized branch to \<open>cms\<close>. A panic leaves the
  branch as it is then.\<close>

definition FinalizeBlock :: "('h \<Rightarrow> ('tx, 'msg, 's, 'p) app_config) \<Rightarrow> 'h RequestFinalizeBlock \<Rightarrow> (('s, 'p) app_state, unit) op" where
  "FinalizeBlock cfg req app =
     (case validateFinalizeBlockHeight app (req_Height req) of
        Inl e \<Rightarrow> (Inl e, app)
      | Inr _ \<Rightarrow>
          let ms = finalize_ms app in
          case getBlockGasMeter (cfg (req_Header req)) ms of
            Inl e \<Rightarrow> (Inl e, app\<lparr>finalizeBlockState := Some ms\<rparr>)
          | Inr blockMeter \<Rightarrow>
              (case block_body (cfg (req_Header req)) (req_Txs req)
                  \<lparr>tx_ms = ms, BlockGasMeter = blockMeter, tx_mempool = app_mempool app\<rparr> of
                 (Inl e, s) \<Rightarrow> (Inl e, app\<lparr>finalizeBlockState := Some (tx_ms s), app_mempool := tx_mempool s\<rparr>)
               | (Inr _, s) \<Rightarrow>
                   (Inr (), app\<lparr>finalizeBlockState := Some (tx_ms s), app_mempool := tx_mempool s, cms := tx_ms s\<rparr>)))"

text \<open>The version that the store commits, with the initial version \<open>InitChain\<close> set.\<close>

definition commit_version :: "('s, 'p) app_state \<Rightarrow> 64 word" where
  "commit_version app =
     (if LastBlockHeight app = 0 \<and> sint (initialHeight app) > 1 then initialHeight app else LastBlockHeight app + 1)"

definition Commit :: "(('s, 'p) app_state, unit) op" where
  "Commit app =
     (case finalizeBlockState app of
        None \<Rightarrow> (Inl (Panic ''nil pointer dereference''), app)
      | Some _ \<Rightarrow>
          (Inr (), app\<lparr>LastBlockHeight := commit_version app, checkState := Some (cms app), finalizeBlockState := None\<rparr>))"

text \<open>The checks of a transaction work on the branch that is checked. The block meter of its
  context is not used in these modes.\<close>

definition check_mode :: "('tx, 'msg, 's, 'p) app_config \<Rightarrow> execMode \<Rightarrow> bytes \<Rightarrow> (('s, 'p) app_state, unit) op" where
  "check_mode cfg mode rawTx app =
     (case checkState app of
        None \<Rightarrow> (Inl (Panic ''state is nil for mode''), app)
      | Some ms \<Rightarrow>
          (case runTx cfg mode NewInfiniteGasMeter rawTx
              \<lparr>tx_ms = ms, BlockGasMeter = NewInfiniteGasMeter, tx_mempool = app_mempool app\<rparr> of
             ((_, r), s) \<Rightarrow> (r, app\<lparr>checkState := Some (tx_ms s), app_mempool := tx_mempool s\<rparr>)))"

definition CheckTx :: "('tx, 'msg, 's, 'p) app_config \<Rightarrow> bool \<Rightarrow> bytes \<Rightarrow> (('s, 'p) app_state, unit) op" where
  "CheckTx cfg recheck rawTx = check_mode cfg (if recheck then execModeReCheck else execModeCheck) rawTx"

definition Simulate :: "('tx, 'msg, 's, 'p) app_config \<Rightarrow> bytes \<Rightarrow> (('s, 'p) app_state, unit) op" where
  "Simulate cfg rawTx = check_mode cfg execModeSimulate rawTx"

text \<open>The genesis of the modules is the parameter \<open>initChainer\<close>; it includes the comparison of
  the validators it returns with those of the request.\<close>

definition InitChain :: "('s, unit) op option \<Rightarrow> 64 word \<Rightarrow> (('s, 'p) app_state, unit) op" where
  "InitChain initChainer height app =
     (let app = app\<lparr>initialHeight := height, finalizeBlockState := Some (cms app), checkState := Some (cms app)\<rparr> in
      case initChainer of
        None \<Rightarrow> (Inr (), app)
      | Some h \<Rightarrow> (case h (cms app) of (r, ms) \<Rightarrow> (r, app\<lparr>finalizeBlockState := Some ms\<rparr>)))"

section \<open>The mempool does not matter\<close>

text \<open>States that differ at most in the mempool, and operations whose result and effect do not
  depend on the mempool, which they may change.\<close>

definition agree :: "('s, 'p, 'x) tx_state_scheme \<Rightarrow> ('s, 'p, 'x) tx_state_scheme \<Rightarrow> bool" where
  "agree f f' \<longleftrightarrow> tx_ms f = tx_ms f' \<and> BlockGasMeter f = BlockGasMeter f' \<and> tx_state.more f = tx_state.more f'"

definition blind :: "(('s, 'p, 'x) tx_state_scheme, 'a) op \<Rightarrow> bool" where
  "blind m \<longleftrightarrow> (\<forall>f f'. agree f f' \<longrightarrow> fst (m f) = fst (m f') \<and> agree (snd (m f)) (snd (m f')))"

text \<open>What the mempool has to promise: whether it refuses to remove a transaction, other than
  because it does not have it, depends on the transaction only.\<close>

definition pool_blind :: "('tx, 'msg, 's, 'p) app_config \<Rightarrow> bool" where
  "pool_blind cfg \<longleftrightarrow> (\<forall>tx. (\<forall>p. fst (mempool_Remove cfg tx p) \<in> {Inr (), Inl ErrTxNotFound})
     \<or> (\<exists>e. e \<noteq> ErrTxNotFound \<and> (\<forall>p. fst (mempool_Remove cfg tx p) = Inl e)))"

lemma blindI:
  "(\<And>f f'. agree f f' \<Longrightarrow> fst (m f) = fst (m f') \<and> agree (snd (m f)) (snd (m f'))) \<Longrightarrow> blind m"
  by (simp add: blind_def)

lemma blindD: "blind m \<Longrightarrow> agree f f' \<Longrightarrow> m f = (r, g) \<Longrightarrow> m f' = (r', g') \<Longrightarrow> r = r' \<and> agree g g'"
  by (auto simp: blind_def dest!: spec)

lemma agree_iff:
  "agree \<lparr>tx_ms = a, BlockGasMeter = b, tx_mempool = p, \<dots> = x\<rparr> \<lparr>tx_ms = a', BlockGasMeter = b', tx_mempool = p', \<dots> = x'\<rparr>
     \<longleftrightarrow> a = a' \<and> b = b' \<and> x = x'"
  by (simp add: agree_def)

lemma blind_ret: "blind (ret_op x)"
  by (simp add: blind_def ret_op_def)

lemma blind_lift: "blind (lift_op r)"
  by (simp add: blind_def lift_op_def)

lemma blind_bind:
  assumes "blind m" and "\<And>x. blind (k x)"
  shows "blind (bind_op m k)"
proof (rule blindI)
  fix f f' :: "('a, 'b, 'c) tx_state_scheme"
  assume "agree f f'"
  moreover obtain r g r' g' where m: "m f = (r, g)" "m f' = (r', g')" by fastforce
  ultimately have "r = r'" "agree g g'" using blindD[OF assms(1)] by blast+
  then show "fst (bind_op m k f) = fst (bind_op m k f') \<and> agree (snd (bind_op m k f)) (snd (bind_op m k f'))"
    using m assms(2) by (cases r) (auto simp: bind_op_def blind_def)
qed

lemma blind_seq: "blind m \<Longrightarrow> blind n \<Longrightarrow> blind (seq_op m n)"
  by (simp add: seq_op_def blind_bind)

lemma blind_modify: "(\<And>f f'. agree f f' \<Longrightarrow> agree (h f) (h f')) \<Longrightarrow> blind (modify_op h)"
  by (simp add: blind_def modify_op_def)

lemma blind_must: "blind m \<Longrightarrow> blind (must_op m)"
  by (auto simp: blind_def must_op_def split: prod.splits) (metis fst_conv snd_conv)+

lemma blind_consume: "blind (consumeBlockGas :: (('s, 'p) tx_frame, unit) op)"
proof (rule blindI)
  fix f f' :: "('s, 'p) tx_frame"
  assume "agree f f'"
  then show "fst (consumeBlockGas f) = fst (consumeBlockGas f') \<and> agree (snd (consumeBlockGas f)) (snd (consumeBlockGas f'))"
    by (cases f; cases f') (simp add: agree_iff consumeBlockGas_def Let_def split: prod.splits)
qed

lemma blind_ante: "blind (run_ante cfg mode tx)"
proof (rule blindI)
  fix f f' :: "('a, 'b) tx_frame"
  assume "agree f f'"
  then show "fst (run_ante cfg mode tx f) = fst (run_ante cfg mode tx f') \<and> agree (snd (run_ante cfg mode tx f)) (snd (run_ante cfg mode tx f'))"
    by (cases f; cases f'; cases "anteHandler cfg")
       (auto simp: agree_iff run_ante_def ret_op_def Let_def split: prod.splits sum.splits option.splits error.splits)
qed

lemma blind_update:
  fixes cfg :: "('tx, 'msg, 's, 'p) app_config"
  assumes "pool_blind cfg"
  shows "blind (update_mempool cfg execModeFinalize tx)"
proof (rule blindI)
  fix f f' :: "('s, 'p) tx_frame"
  assume ag: "agree f f'"
  obtain r1 p1 where 1: "mempool_Remove cfg tx (tx_mempool f) = (r1, p1)" by fastforce
  obtain r2 p2 where 2: "mempool_Remove cfg tx (tx_mempool f') = (r2, p2)" by fastforce
  from assms consider "r1 \<in> {Inr (), Inl ErrTxNotFound}" "r2 \<in> {Inr (), Inl ErrTxNotFound}"
    | e where "e \<noteq> ErrTxNotFound" "r1 = Inl e" "r2 = Inl e"
    using 1 2 unfolding pool_blind_def by (metis fst_conv)
  then show "fst (update_mempool cfg execModeFinalize tx f) = fst (update_mempool cfg execModeFinalize tx f')
      \<and> agree (snd (update_mempool cfg execModeFinalize tx f)) (snd (update_mempool cfg execModeFinalize tx f'))"
    using ag by cases (auto simp: update_mempool_def on_mempool_def 1 2 agree_def)
qed

lemma blind_branch: "blind (run_branch cfg mode tx)"
proof (rule blindI)
  fix f f' :: "('a, 'b) tx_frame"
  assume ag: "agree f f'"
  then have same: "ctx_GasMeter f' = ctx_GasMeter f" "tx_ms f' = tx_ms f" by (cases f; cases f'; simp add: agree_iff)+
  obtain r g s2 where m: "msgs_and_post cfg mode tx (ctx_GasMeter f, tx_ms f) = (r, (g, s2))" by (metis prod.exhaust)
  let ?m = "seq_op consumeBlockGas (modify_op (\<lambda>f. f\<lparr>tx_ms := s2\<rparr>))" and ?u = "\<lambda>f. f\<lparr>ctx_GasMeter := g\<rparr>"
  have ag': "agree (?u f) (?u f')" using ag by (cases f; cases f') (simp add: agree_iff)
  have "blind ?m" by (intro blind_seq blind_consume blind_modify) (simp add: agree_def)
  then have "fst (?m (?u f)) = fst (?m (?u f')) \<and> agree (snd (?m (?u f))) (snd (?m (?u f')))"
    using ag' unfolding blind_def by blast
  then show "fst (run_branch cfg mode tx f) = fst (run_branch cfg mode tx f') \<and> agree (snd (run_branch cfg mode tx f)) (snd (run_branch cfg mode tx f'))"
    using m ag' same by (cases r; cases "mode = execModeFinalize") (simp_all add: run_branch_def)
qed

lemma blind_body: "pool_blind cfg \<Longrightarrow> blind (tx_body cfg execModeFinalize b)"
  unfolding tx_body_def by (intro blind_bind blind_seq blind_lift blind_ante blind_update blind_branch)

lemma deliverTx_agree:
  assumes "pool_blind cfg" and ag: "agree s s'"
  shows "agree (deliverTx cfg b s) (deliverTx cfg b s')"
proof (cases "IsOutOfGas (BlockGasMeter s)")
  case True
  with ag show ?thesis by (simp add: deliverTx_def runTx_def agree_def)
next
  case False
  let ?g = NewInfiniteGasMeter
  obtain r f r' f' where t: "tx_body cfg execModeFinalize b (new_frame ?g s) = (r, f)"
    "tx_body cfg execModeFinalize b (new_frame ?g s') = (r', f')" by fastforce
  have "agree (new_frame ?g s) (new_frame ?g s')" using ag by (simp add: agree_def new_frame_def tx_state.defs)
  then have 1: "r = r'" "agree f f'" using blindD[OF blind_body[OF assms(1)] _ t] by blast+
  obtain q h q' h' where d: "deferred_gas execModeFinalize (r, f) = (q, h)" "deferred_gas execModeFinalize (r', f') = (q', h')" by fastforce
  obtain c k c' k' where c: "consumeBlockGas f = (c, k)" "consumeBlockGas f' = (c', k')" by fastforce
  have "c = c'" "agree k k'" using blindD[OF blind_consume 1(2) c] by blast+
  then have "agree h h'" using d c by (auto simp: deferred_gas_def split: sum.splits)
  with False ag t d show ?thesis by (simp add: deliverTx_def runTx_def agree_def tx_state.defs)
qed

lemma deliver_txs_agree: "pool_blind cfg \<Longrightarrow> agree s s' \<Longrightarrow> agree (deliver_txs cfg txs s) (deliver_txs cfg txs s')"
  unfolding deliver_txs_def
  by (induction txs arbitrary: s s') (auto simp: deliverTx_agree split: sum.splits)

lemma blind_on_ms: "blind (on_ms h)"
  by (auto simp: blind_def on_ms_def agree_def split: prod.splits)

lemma blind_block_body: "pool_blind cfg \<Longrightarrow> blind (block_body cfg txs)"
  unfolding block_body_def beginBlock_def endBlock_def
  by (intro blind_seq blind_modify deliver_txs_agree) (auto split: option.splits intro: blind_ret blind_must blind_on_ms)

section \<open>Checking and simulating do not influence consensus\<close>

definition consensus_view :: "('s, 'p) app_state \<Rightarrow> 's \<times> 's option \<times> 64 word \<times> 64 word" where
  "consensus_view app = (cms app, finalizeBlockState app, LastBlockHeight app, initialHeight app)"

lemma FinalizeBlock_view:
  assumes "\<forall>h. pool_blind (cfg h)" and v: "consensus_view a = consensus_view a'"
  shows "fst (FinalizeBlock cfg req a) = fst (FinalizeBlock cfg req a')
    \<and> consensus_view (snd (FinalizeBlock cfg req a)) = consensus_view (snd (FinalizeBlock cfg req a'))"
proof -
  let ?c = "cfg (req_Header req)"
  have same: "cms a' = cms a" "finalizeBlockState a' = finalizeBlockState a" "LastBlockHeight a' = LastBlockHeight a"
    "initialHeight a' = initialHeight a" using v by (simp_all add: consensus_view_def)
  define ms where "ms = finalize_ms a"
  have ms: "finalize_ms a = ms" "finalize_ms a' = ms" by (simp_all add: ms_def finalize_ms_def same split: option.splits)
  have h: "validateFinalizeBlockHeight a' (req_Height req) = validateFinalizeBlockHeight a (req_Height req)"
    by (simp add: validateFinalizeBlockHeight_def same)
  show ?thesis
  proof (cases "validateFinalizeBlockHeight a (req_Height req)")
    case (Inl e)
    with h v show ?thesis by (simp add: FinalizeBlock_def)
  next
    case ok: (Inr u)
    show ?thesis
    proof (cases "getBlockGasMeter ?c ms")
      case (Inl e)
      with ok h same show ?thesis by (simp add: FinalizeBlock_def ms consensus_view_def)
    next
      case (Inr g)
      let ?s = "\<lambda>app. \<lparr>tx_ms = ms, BlockGasMeter = g, tx_mempool = app_mempool app\<rparr>"
      obtain r t r' t' where b: "block_body ?c (req_Txs req) (?s a) = (r, t)" "block_body ?c (req_Txs req) (?s a') = (r', t')"
        by fastforce
      have ag: "agree (?s a) (?s a')" by (simp add: agree_def)
      have "r = r'" "tx_ms t = tx_ms t'"
        using blindD[OF blind_block_body[OF spec[OF assms(1)]] ag b] unfolding agree_def by blast+
      with ok h same Inr b show ?thesis by (simp add: FinalizeBlock_def ms consensus_view_def split: sum.splits)
    qed
  qed
qed

lemma check_mode_view: "consensus_view (snd (check_mode cfg mode b app)) = consensus_view app"
  by (auto simp: check_mode_def consensus_view_def split: option.splits prod.splits)

datatype 'h abci_call =
    ACheckTx 'h bool bytes
  | ASimulate 'h bytes
  | AFinalizeBlock "'h RequestFinalizeBlock"
  | ACommit

fun abci_exec :: "('h \<Rightarrow> ('tx, 'msg, 's, 'p) app_config) \<Rightarrow> 'h abci_call \<Rightarrow> ('s, 'p) app_state \<Rightarrow> ('s, 'p) app_state" where
  "abci_exec cfg (ACheckTx h recheck b) app = snd (CheckTx (cfg h) recheck b app)"
| "abci_exec cfg (ASimulate h b) app = snd (Simulate (cfg h) b app)"
| "abci_exec cfg (AFinalizeBlock req) app = snd (FinalizeBlock cfg req app)"
| "abci_exec cfg ACommit app = snd (Commit app)"

fun of_consensus :: "'h abci_call \<Rightarrow> bool" where
  "of_consensus (AFinalizeBlock req) = True"
| "of_consensus ACommit = True"
| "of_consensus _ = False"

lemma Commit_view: "consensus_view a = consensus_view a' \<Longrightarrow> consensus_view (snd (Commit a)) = consensus_view (snd (Commit a'))"
  by (auto simp: Commit_def consensus_view_def commit_version_def split: option.splits)

lemma abci_exec_view:
  assumes "\<forall>h. pool_blind (cfg h)" and v: "consensus_view a = consensus_view a'"
  shows "consensus_view (abci_exec cfg c a) = consensus_view (abci_exec cfg c a')"
  using v FinalizeBlock_view[OF assms] Commit_view[OF v]
  by (cases c) (simp_all add: CheckTx_def Simulate_def check_mode_view)

lemma abci_exec_check: "\<not> of_consensus c \<Longrightarrow> consensus_view (abci_exec cfg c a) = consensus_view a"
  by (cases c) (simp_all add: CheckTx_def Simulate_def check_mode_view)

text \<open>C8: What a node commits depends on the blocks only. Take any sequence of ABCI calls, with
  transactions checked, rechecked and simulated at any point between \<open>FinalizeBlock\<close> and
  \<open>Commit\<close>: the committed state, the state being finalized and the heights are those of the run
  with the checks and simulations left out. The hypothesis is the one on the mempool: a refusal to
  remove a transaction depends on the transaction only.\<close>

theorem checks_do_not_interfere:
  assumes "\<forall>h. pool_blind (cfg h)"
  shows "consensus_view (fold (abci_exec cfg) calls app) = consensus_view (fold (abci_exec cfg) (filter of_consensus calls) app)"
proof -
  have "consensus_view (fold (abci_exec cfg) calls a) = consensus_view (fold (abci_exec cfg) (filter of_consensus calls) a')"
    if "consensus_view a = consensus_view a'" for a a'
    using that
  proof (induction calls arbitrary: a a')
    case (Cons c calls)
    have "of_consensus c \<Longrightarrow> consensus_view (abci_exec cfg c a) = consensus_view (abci_exec cfg c a')"
      "\<not> of_consensus c \<Longrightarrow> consensus_view (abci_exec cfg c a) = consensus_view a'"
      using abci_exec_view[OF assms Cons.prems] abci_exec_check Cons.prems by simp_all
    then show ?case using Cons.IH by (cases "of_consensus c") simp_all
  qed simp
  then show ?thesis by blast
qed

text \<open>Two blocks of the adding application, with checks and a simulation in between.\<close>

definition adder_node :: "(int, unit) app_state" where
  "adder_node = snd (InitChain (Some (\<lambda>_. (Inr (), 50))) 1
     \<lparr>cms = 0, checkState = None, finalizeBlockState = None, app_mempool = (), LastBlockHeight = 0, initialHeight = 0\<rparr>)"

lemma adder_pool: "pool_blind adder_app"
  by (simp add: pool_blind_def adder_app_def NoOp_Remove_def ret_op_def)

lemma checks_do_not_interfere_witness:
  "consensus_view (fold (abci_exec (\<lambda>_ :: unit. adder_app))
       [ACheckTx () False [3, 4], AFinalizeBlock \<lparr>req_Height = 1, req_Header = (), req_Txs = [[3, 4], [3, 0], []]\<rparr>, ASimulate () [9], ACommit] adder_node)
     = (43, None, 1, 1)"
proof -
  let ?c = "[ACheckTx () False [3, 4], AFinalizeBlock \<lparr>req_Height = 1, req_Header = (), req_Txs = [[3, 4], [3, 0], []]\<rparr>, ASimulate () [9], ACommit]"
  have "consensus_view (fold (abci_exec (\<lambda>_ :: unit. adder_app)) (filter of_consensus ?c) adder_node) = (43, None, 1, 1)"
    by code_simp
  moreover have "\<forall>h :: unit. pool_blind ((\<lambda>_. adder_app) h)" using adder_pool by simp
  ultimately show ?thesis using checks_do_not_interfere[of "\<lambda>_ :: unit. adder_app" ?c adder_node] by simp
qed

end
