(* ===== verification/Ante.thy ===== *)
theory Ante
  imports AccountFrame DecCoins Abci
begin

text \<open>
  The ante handler of \<^verbatim>\<open>src/x/auth/ante/\<close>: the decorators that check a transaction, take its fee,
  verify its signatures and raise the sequences of its signers, in the order of
  \<open>NewAnteHandler\<close>. A decorator calls the next one last, so the chain is a sequence of operations;
  only \<open>SetUpContextDecorator\<close> wraps the rest. Decoded transactions are records. Signature
  verification, the address and the type of a key, the encodings of signatures and the fee grants
  are parameters. The gas that the stores charge is left out; the charges of the decorators are
  there.
\<close>

section \<open>Keys, signatures and transactions\<close>

datatype CryptoKey =
    Ed25519 bytes
  | Secp256k1 bytes
  | Secp256r1 bytes
  | LegacyAminoPubKey "CryptoKey list"
  | OtherKey bytes

datatype SignatureData =
    NilData
  | SingleSignatureData bool bytes
  | MultiSignatureData "bool list" "SignatureData list"

record SignatureV2 =
  sig_PubKey :: "bytes option"
  sig_Data :: SignatureData
  sig_Sequence :: uint64

record auth_Params =
  MaxMemoCharacters :: uint64
  TxSigLimit :: uint64
  TxSizeCostPerByte :: uint64
  SigVerifyCostED25519 :: uint64
  SigVerifyCostSecp256k1 :: uint64

record 'msg sdk_Tx =
  GetMsgs :: "'msg list"
  GetGas :: Gas
  GetFee :: Coins
  FeePayer :: AccAddress
  FeeGranter :: string
  GetMemo :: string
  GetTimeoutHeight :: uint64
  GetSigners :: "AccAddress list res"
  GetPubKeys :: "bytes option list res"
  GetSignaturesV2 :: "SignatureV2 list res"
  GetExtensionOptions :: "string list"
  Tx_ValidateBasic :: "unit res"
  TxBytes_len :: nat

record SignerData =
  sd_Address :: AccAddress
  sd_ChainID :: string
  sd_AccountNumber :: uint64
  sd_Sequence :: uint64
  sd_PubKey :: bytes

text \<open>The state with the parameters of the auth module, and the environment: options of the
  handler, third-party functions, and what the context of the block provides.\<close>

record ante_state = bank_state +
  AuthParams :: "auth_Params option"

record ('msg, 's) ante_env = bank_env +
  key_of :: "bytes \<Rightarrow> CryptoKey"
  key_address :: "bytes \<Rightarrow> AccAddress"
  simSecp256k1Pubkey :: bytes
  StdSignature_len :: "bytes \<Rightarrow> nat"
  MultiSignature_Marshal :: "bytes list \<Rightarrow> bytes"
  BytesToString :: "AccAddress \<Rightarrow> string res"
  VerifySignature :: "bytes \<Rightarrow> SignerData \<Rightarrow> SignatureData \<Rightarrow> 'msg sdk_Tx \<Rightarrow> unit res"
  UseGrantedFees :: "(AccAddress \<Rightarrow> AccAddress \<Rightarrow> Coins \<Rightarrow> 'msg list \<Rightarrow> ('s, unit) op) option"
  ExtensionOptionChecker :: "string \<Rightarrow> bool"
  FeeCollectorName :: string
  ctx_BlockHeight :: int64
  ctx_ChainID :: string
  IsCheckTx :: bool
  IsReCheckTx :: bool
  MinGasPrices :: DecCoins

text \<open>The context a decorator works on: its gas meter, whether it returned a zero context, and the
  store.\<close>

record 's ante_ctx =
  ac_meter :: GasMeter
  ac_zero :: bool
  ac_state :: 's

definition on_state :: "('s, 'a) op \<Rightarrow> ('s ante_ctx, 'a) op" where
  "on_state m c = (case m (ac_state c) of (r, s) \<Rightarrow> (r, c\<lparr>ac_state := s\<rparr>))"

definition on_gas :: "(GasMeter, 'a) op \<Rightarrow> ('s ante_ctx, 'a) op" where
  "on_gas m c = (case m (ac_meter c) of (r, g) \<Rightarrow> (r, c\<lparr>ac_meter := g\<rparr>))"

text \<open>An error that is returned with the zero context.\<close>

definition zero_ctx :: "'a res \<Rightarrow> ('s ante_ctx, 'a) op" where
  "zero_ctx r c = (case r of Inl (Err m) \<Rightarrow> (Inl (Err m), c\<lparr>ac_zero := True\<rparr>) | _ \<Rightarrow> (r, c))"

definition auth_GetParams :: "('x ante_state_scheme) \<Rightarrow> auth_Params" where
  "auth_GetParams s = (case AuthParams s of Some p \<Rightarrow> p
     | None \<Rightarrow> \<lparr>MaxMemoCharacters = 0, TxSigLimit = 0, TxSizeCostPerByte = 0, SigVerifyCostED25519 = 0, SigVerifyCostSecp256k1 = 0\<rparr>)"

definition SigVerifyCostSecp256r1 :: "auth_Params \<Rightarrow> uint64" where
  "SigVerifyCostSecp256r1 p = SigVerifyCostSecp256k1 p div 2"

definition get_params :: "('x ante_state_scheme ante_ctx, auth_Params) op" where
  "get_params = gets_op (\<lambda>c. auth_GetParams (ac_state c))"

definition Account_SetPubKey :: "bytes \<Rightarrow> AccountI \<Rightarrow> AccountI res" where
  "Account_SetPubKey pk acc =
     (case acc of ModuleAcc _ \<Rightarrow> Inl (Err ''not supported for module accounts'')
      | _ \<Rightarrow> Inr (map_base (\<lambda>b. b\<lparr>PubKey := Some pk\<rparr>) acc))"

definition Account_PubKey :: "AccountI \<Rightarrow> bytes option" where
  "Account_PubKey acc = PubKey (base_of acc)"

definition GetSignerAcc :: "AccAddress \<Rightarrow> ('x ante_state_scheme ante_ctx, AccountI) op" where
  "GetSignerAcc addr c =
     (case GetAccount (ac_state c) addr of Some acc \<Rightarrow> (Inr acc, c) | None \<Rightarrow> (Inl (Err ''account does not exist''), c))"

section \<open>Checks of the transaction\<close>

definition checkExtOpts :: "('msg, 's) ante_env \<Rightarrow> 'msg sdk_Tx \<Rightarrow> unit res" where
  "checkExtOpts e tx =
     (if list_ex (\<lambda>opt. \<not> ExtensionOptionChecker e opt) (GetExtensionOptions tx) then Inl (Err ''unknown extension options'') else Inr ())"

definition ValidateBasic_decorator :: "('msg, 's) ante_env \<Rightarrow> 'msg sdk_Tx \<Rightarrow> ('x ante_ctx, unit) op" where
  "ValidateBasic_decorator e tx = (if IsReCheckTx e then ret_op () else lift_op (Tx_ValidateBasic tx))"

definition TxTimeoutHeight_decorator :: "('msg, 's) ante_env \<Rightarrow> 'msg sdk_Tx \<Rightarrow> ('x ante_ctx, unit) op" where
  "TxTimeoutHeight_decorator e tx =
     (if GetTimeoutHeight tx > 0 \<and> ctx_BlockHeight e > GetTimeoutHeight tx then fail_op (Err ''tx timeout height'') else ret_op ())"

definition ValidateMemo_decorator :: "'msg sdk_Tx \<Rightarrow> ('x ante_state_scheme ante_ctx, unit) op" where
  "ValidateMemo_decorator tx =
     (if length (GetMemo tx) > 0
      then bind_op get_params (\<lambda>params.
        if of_nat (length (GetMemo tx)) > MaxMemoCharacters params then fail_op (Err ''memo too large'') else ret_op ())
      else ret_op ())"

fun isIncompleteSignature :: "SignatureData \<Rightarrow> bool" where
  "isIncompleteSignature NilData = True"
| "isIncompleteSignature (SingleSignatureData _ sig) = (length sig = 0)"
| "isIncompleteSignature (MultiSignatureData _ sigs) = (length sigs = 0 \<or> list_ex isIncompleteSignature sigs)"

fun is_multisig :: "CryptoKey \<Rightarrow> bool" where
  "is_multisig (LegacyAminoPubKey ks) = True"
| "is_multisig _ = False"

text \<open>The gas for the signatures that a simulated transaction does not have yet; \<open>sigs\<close> are the
  ones it has, in the order of the signers.\<close>

fun simulate_sig_gas ::
    "('msg, 's) ante_env \<Rightarrow> auth_Params \<Rightarrow> SignatureV2 list \<Rightarrow> AccAddress list \<Rightarrow> ('x ante_state_scheme ante_ctx, unit) op" where
  "simulate_sig_gas e params sigs [] = ret_op ()"
| "simulate_sig_gas e params sigs (signer # signers) =
     (if sigs \<noteq> [] \<and> \<not> isIncompleteSignature (sig_Data (hd sigs)) then simulate_sig_gas e params (tl sigs) signers
      else bind_op (gets_op (\<lambda>c. case GetAccount (ac_state c) signer of
               None \<Rightarrow> simSecp256k1Pubkey e
             | Some acc \<Rightarrow> (case Account_PubKey acc of None \<Rightarrow> simSecp256k1Pubkey e | Some pk \<Rightarrow> pk))) (\<lambda>pubkey.
        let cost = of_nat (StdSignature_len e pubkey + 6);
            cost = (if is_multisig (key_of e pubkey) then cost * TxSigLimit params else cost) in
        seq_op (on_gas (ConsumeGas (TxSizeCostPerByte params * cost) ''txSize''))
          (simulate_sig_gas e params (tl sigs) signers)))"

definition ConsumeTxSizeGas_decorator ::
    "('msg, 's) ante_env \<Rightarrow> bool \<Rightarrow> 'msg sdk_Tx \<Rightarrow> ('x ante_state_scheme ante_ctx, unit) op" where
  "ConsumeTxSizeGas_decorator e simulate tx =
     bind_op get_params (\<lambda>params.
     seq_op (on_gas (ConsumeGas (TxSizeCostPerByte params * of_nat (TxBytes_len tx)) ''txSize''))
       (if simulate
        then bind_op (lift_op (GetSignaturesV2 tx)) (\<lambda>sigs.
             bind_op (zero_ctx (GetSigners tx)) (\<lambda>signers. simulate_sig_gas e params sigs signers))
        else ret_op ()))"

section \<open>Fees\<close>

definition required_fee :: "LegacyDec \<Rightarrow> DecCoin \<Rightarrow> Coin res" where
  "required_fee glDec gp =
     bind_r (Dec_Mul (DecAmount gp) glDec) (\<lambda>fee.
     bind_r (Dec_Ceil fee) (\<lambda>c. bind_r (Dec_RoundInt c) (\<lambda>i. NewCoin (DecDenom gp) i)))"

text \<open>A price of the fee per unit of gas that does not fit counts as the greatest one.\<close>

definition gas_price :: "int64 \<Rightarrow> Coin \<Rightarrow> int64 res" where
  "gas_price gas c =
     bind_r (Int_QuoRaw (Amount c) gas) (\<lambda>gasPrice. Inr (if IsInt64 gasPrice then word_of_int gasPrice else 2 ^ 63 - 1))"

definition getTxPriority :: "Coins \<Rightarrow> int64 \<Rightarrow> int64 res" where
  "getTxPriority fee gas =
     fold_r (\<lambda>priority c. bind_r (gas_price gas c) (\<lambda>p. Inr (if priority = 0 \<or> sint p < sint priority then p else priority))) 0 fee"

definition checkTxFeeWithValidatorMinGasPrices :: "('msg, 's) ante_env \<Rightarrow> 'msg sdk_Tx \<Rightarrow> (Coins \<times> int64) res" where
  "checkTxFeeWithValidatorMinGasPrices e tx =
     bind_r
       (if IsCheckTx e \<and> \<not> DecCoins_IsZero (MinGasPrices e)
        then bind_r (LegacyNewDec (GetGas tx)) (\<lambda>glDec.
             bind_r (map_r (required_fee glDec) (MinGasPrices e)) (\<lambda>requiredFees.
             bind_r (IsAnyGTE (GetFee tx) requiredFees) (\<lambda>gte.
               if \<not> gte then Inl (Err ''insufficient fees'') else Inr ())))
        else Inr ())
       (\<lambda>_. bind_r (getTxPriority (GetFee tx) (GetGas tx)) (\<lambda>priority. Inr (GetFee tx, priority)))"

definition DeductFees :: "('msg, 's) ante_env \<Rightarrow> AccountI \<Rightarrow> Coins \<Rightarrow> ('x bank_state_scheme, unit) op" where
  "DeductFees e acc fees =
     (if \<not> Coins_IsValid fees then fail_op (Err ''insufficient fee'')
      else SendCoinsFromAccountToModule e (GetAddress acc) (FeeCollectorName e) fees)"

definition deduct_from ::
    "('msg, 'x ante_state_scheme) ante_env \<Rightarrow> 'msg sdk_Tx \<Rightarrow> Coins \<Rightarrow> ('x ante_state_scheme, AccAddress) op" where
  "deduct_from e tx fee =
     (if FeeGranter tx \<noteq> []
      then bind_op (lift_op (AccAddressFromBech32 e (FeeGranter tx))) (\<lambda>feeGranterAddr.
        case UseGrantedFees e of
          None \<Rightarrow> fail_op (Err ''fee grants are not enabled'')
        | Some use \<Rightarrow>
            if feeGranterAddr \<noteq> FeePayer tx
            then seq_op (use feeGranterAddr (FeePayer tx) fee (GetMsgs tx)) (ret_op feeGranterAddr)
            else ret_op feeGranterAddr)
      else ret_op (FeePayer tx))"

definition checkDeductFee ::
    "('msg, 'x ante_state_scheme) ante_env \<Rightarrow> 'msg sdk_Tx \<Rightarrow> Coins \<Rightarrow> ('x ante_state_scheme, unit) op" where
  "checkDeductFee e tx fee =
     (if GetModuleAddress e (FeeCollectorName e) = None then fail_op (Err ''fee collector module account has not been set'')
      else bind_op (deduct_from e tx fee) (\<lambda>deductFeesFrom s.
        case GetAccount s deductFeesFrom of
          None \<Rightarrow> (Inl (Err ''fee payer address does not exist''), s)
        | Some acc \<Rightarrow> if \<not> Coins_IsZero fee then DeductFees e acc fee s else (Inr (), s)))"

definition DeductFee_decorator ::
    "('msg, 'x ante_state_scheme) ante_env \<Rightarrow> bool \<Rightarrow> 'msg sdk_Tx \<Rightarrow> ('x ante_state_scheme ante_ctx, unit) op" where
  "DeductFee_decorator e simulate tx =
     (if \<not> simulate \<and> sint (ctx_BlockHeight e) > 0 \<and> GetGas tx = 0 then fail_op (Err ''must provide positive gas'')
      else bind_op (if \<not> simulate then lift_op (bind_r (checkTxFeeWithValidatorMinGasPrices e tx) (\<lambda>(fee, _). Inr fee))
                    else ret_op (GetFee tx))
        (\<lambda>fee. on_state (checkDeductFee e tx fee)))"

section \<open>Public keys and signatures\<close>

definition index_out_of_range :: error where
  "index_out_of_range = Panic ''index out of range''"

definition set_signer_key ::
    "('msg, 's) ante_env \<Rightarrow> bool \<Rightarrow> bytes option \<Rightarrow> AccAddress \<Rightarrow> ('x ante_state_scheme ante_ctx, unit) op" where
  "set_signer_key e simulate pk signer =
     bind_op (zero_ctx (BytesToString e signer)) (\<lambda>_.
       if pk = None \<and> \<not> simulate then ret_op ()
       else let pk = (case pk of Some k \<Rightarrow> k | None \<Rightarrow> simSecp256k1Pubkey e) in
         if \<not> simulate \<and> key_address e pk \<noteq> signer then fail_op (Err ''pubKey does not match signer address'')
         else bind_op (GetSignerAcc signer) (\<lambda>acc.
           if Account_PubKey acc \<noteq> None then ret_op ()
           else bind_op (lift_op (Account_SetPubKey pk acc)) (\<lambda>acc. on_state (SetAccount acc))))"

fun set_signer_keys ::
    "('msg, 's) ante_env \<Rightarrow> bool \<Rightarrow> bytes option list \<Rightarrow> AccAddress list \<Rightarrow> ('x ante_state_scheme ante_ctx, unit) op" where
  "set_signer_keys e simulate [] signers = ret_op ()"
| "set_signer_keys e simulate (pk # pks) [] = fail_op index_out_of_range"
| "set_signer_keys e simulate (pk # pks) (signer # signers) =
     seq_op (set_signer_key e simulate pk signer) (set_signer_keys e simulate pks signers)"

fun signatureDataToBz :: "(bytes list \<Rightarrow> bytes) \<Rightarrow> SignatureData \<Rightarrow> bytes list res" where
  "signatureDataToBz marshal NilData = Inl (Err ''got empty SignatureData'')"
| "signatureDataToBz marshal (SingleSignatureData _ sig) = Inr [sig]"
| "signatureDataToBz marshal (MultiSignatureData _ ds) =
     bind_r (fold_r (\<lambda>sigs d. bind_r (signatureDataToBz marshal d) (\<lambda>nested. Inr (sigs @ nested))) [] ds)
       (\<lambda>sigs. Inr (sigs @ [marshal sigs]))"

text \<open>The loop that emits the events of the signatures can fail as well.\<close>

fun signature_events :: "('msg, 's) ante_env \<Rightarrow> SignatureV2 list \<Rightarrow> AccAddress list \<Rightarrow> unit res" where
  "signature_events e [] signers = Inr ()"
| "signature_events e (sig # sigs) [] = Inl index_out_of_range"
| "signature_events e (sig # sigs) (signer # signers) =
     bind_r (signatureDataToBz (MultiSignature_Marshal e) (sig_Data sig)) (\<lambda>_. signature_events e sigs signers)"

definition SetPubKey_decorator ::
    "('msg, 's) ante_env \<Rightarrow> bool \<Rightarrow> 'msg sdk_Tx \<Rightarrow> ('x ante_state_scheme ante_ctx, unit) op" where
  "SetPubKey_decorator e simulate tx =
     bind_op (lift_op (GetPubKeys tx)) (\<lambda>pubkeys.
     bind_op (zero_ctx (GetSigners tx)) (\<lambda>signers.
     seq_op (set_signer_keys e simulate pubkeys signers)
       (bind_op (lift_op (GetSignaturesV2 tx)) (\<lambda>sigs. lift_op (signature_events e sigs signers)))))"

fun CountSubKeys :: "CryptoKey \<Rightarrow> nat" where
  "CountSubKeys (LegacyAminoPubKey ks) = sum_list (map CountSubKeys ks)"
| "CountSubKeys _ = 1"

fun count_sigs :: "('msg, 's) ante_env \<Rightarrow> auth_Params \<Rightarrow> nat \<Rightarrow> bytes option list \<Rightarrow> unit res" where
  "count_sigs e params sigCount [] = Inr ()"
| "count_sigs e params sigCount (pk # pks) =
     (let sigCount = sigCount + (case pk of None \<Rightarrow> 0 | Some k \<Rightarrow> CountSubKeys (key_of e k)) in
      if of_nat sigCount > TxSigLimit params then Inl (Err ''too many signatures'') else count_sigs e params sigCount pks)"

definition ValidateSigCount_decorator ::
    "('msg, 's) ante_env \<Rightarrow> 'msg sdk_Tx \<Rightarrow> ('x ante_state_scheme ante_ctx, unit) op" where
  "ValidateSigCount_decorator e tx =
     bind_op get_params (\<lambda>params. bind_op (lift_op (GetPubKeys tx)) (\<lambda>pubKeys. lift_op (count_sigs e params 0 pubKeys)))"

lemma size_list_tl: "size_list f (tl xs) \<le> size_list f xs"
  by (cases xs) simp_all

text \<open>A multi-signature is charged per signature that its bit array names.\<close>

function (sequential) DefaultSigVerificationGasConsumer :: "auth_Params \<Rightarrow> CryptoKey \<Rightarrow> SignatureData \<Rightarrow> (GasMeter, unit) op"
  and ConsumeMultisignatureVerificationGas :: "auth_Params \<Rightarrow> CryptoKey list \<Rightarrow> bool list \<Rightarrow> SignatureData list \<Rightarrow> (GasMeter, unit) op" where
  "DefaultSigVerificationGasConsumer params (Ed25519 k) data =
     seq_op (ConsumeGas (SigVerifyCostED25519 params) ''ante verify: ed25519'') (fail_op (Err ''ED25519 public keys are unsupported''))"
| "DefaultSigVerificationGasConsumer params (Secp256k1 k) data = ConsumeGas (SigVerifyCostSecp256k1 params) ''ante verify: secp256k1''"
| "DefaultSigVerificationGasConsumer params (Secp256r1 k) data = ConsumeGas (SigVerifyCostSecp256r1 params) ''ante verify: secp256r1''"
| "DefaultSigVerificationGasConsumer params (LegacyAminoPubKey keys) (MultiSignatureData bits sigs) =
     ConsumeMultisignatureVerificationGas params keys bits sigs"
| "DefaultSigVerificationGasConsumer params (LegacyAminoPubKey keys) data = fail_op (Err ''expected multisignature data'')"
| "DefaultSigVerificationGasConsumer params (OtherKey k) data = fail_op (Err ''unrecognized public key type'')"
| "ConsumeMultisignatureVerificationGas params keys [] sigs = ret_op ()"
| "ConsumeMultisignatureVerificationGas params keys (False # bits) sigs = ConsumeMultisignatureVerificationGas params (tl keys) bits sigs"
| "ConsumeMultisignatureVerificationGas params [] (True # bits) sigs = fail_op index_out_of_range"
| "ConsumeMultisignatureVerificationGas params (k # keys) (True # bits) [] = fail_op index_out_of_range"
| "ConsumeMultisignatureVerificationGas params (k # keys) (True # bits) (sig # sigs) =
     seq_op (DefaultSigVerificationGasConsumer params k sig) (ConsumeMultisignatureVerificationGas params keys bits sigs)"
  by pat_completeness auto

termination
  by (relation "measures [\<lambda>x. case x of Inl (_, k, _) \<Rightarrow> 2 * size k | Inr (_, ks, _, _) \<Rightarrow> 2 * size_list size ks + 1,
      \<lambda>x. case x of Inl _ \<Rightarrow> 0 | Inr (_, _, bits, _) \<Rightarrow> length bits]")
     (auto simp: le_less[symmetric] size_list_tl)

fun sig_gas ::
    "('msg, 's) ante_env \<Rightarrow> auth_Params \<Rightarrow> bool \<Rightarrow> SignatureV2 list \<Rightarrow> AccAddress list \<Rightarrow> ('x ante_state_scheme ante_ctx, unit) op" where
  "sig_gas e params simulate [] signers = ret_op ()"
| "sig_gas e params simulate (sig # sigs) [] = fail_op index_out_of_range"
| "sig_gas e params simulate (sig # sigs) (signer # signers) =
     bind_op (GetSignerAcc signer) (\<lambda>acc.
       seq_op
         (case if simulate \<and> Account_PubKey acc = None then Some (simSecp256k1Pubkey e) else Account_PubKey acc of
            None \<Rightarrow> fail_op (Err ''unrecognized public key type'')
          | Some pk \<Rightarrow> on_gas (DefaultSigVerificationGasConsumer params (key_of e pk) (sig_Data sig)))
         (sig_gas e params simulate sigs signers))"

definition SigGasConsume_decorator ::
    "('msg, 's) ante_env \<Rightarrow> bool \<Rightarrow> 'msg sdk_Tx \<Rightarrow> ('x ante_state_scheme ante_ctx, unit) op" where
  "SigGasConsume_decorator e simulate tx =
     bind_op get_params (\<lambda>params.
     bind_op (lift_op (GetSignaturesV2 tx)) (\<lambda>sigs.
     bind_op (lift_op (GetSigners tx)) (\<lambda>signers. sig_gas e params simulate sigs signers)))"

definition verify_signer ::
    "('msg, 's) ante_env \<Rightarrow> bool \<Rightarrow> 'msg sdk_Tx \<Rightarrow> SignatureV2 \<Rightarrow> AccAddress \<Rightarrow> ('x ante_state_scheme ante_ctx, unit) op" where
  "verify_signer e simulate tx sig signer =
     bind_op (GetSignerAcc signer) (\<lambda>acc.
       if \<not> simulate \<and> Account_PubKey acc = None then fail_op (Err ''pubkey on account is not set'')
       else if sig_Sequence sig \<noteq> GetSequence acc then fail_op (Err ''account sequence mismatch'')
       else if \<not> simulate \<and> \<not> IsReCheckTx e
       then (case Account_PubKey acc of
           None \<Rightarrow> fail_op (Err ''pubkey on account is not set'')
         | Some pk \<Rightarrow>
             lift_op (VerifySignature e pk \<lparr>sd_Address = GetAddress acc, sd_ChainID = ctx_ChainID e,
               sd_AccountNumber = if ctx_BlockHeight e = 0 then 0 else GetAccountNumber acc,
               sd_Sequence = GetSequence acc, sd_PubKey = pk\<rparr> (sig_Data sig) tx))
       else ret_op ())"

definition SigVerification_decorator ::
    "('msg, 's) ante_env \<Rightarrow> bool \<Rightarrow> 'msg sdk_Tx \<Rightarrow> ('x ante_state_scheme ante_ctx, unit) op" where
  "SigVerification_decorator e simulate tx =
     bind_op (lift_op (GetSignaturesV2 tx)) (\<lambda>sigs.
     bind_op (lift_op (GetSigners tx)) (\<lambda>signers.
       if length sigs \<noteq> length signers then fail_op (Err ''invalid number of signer'')
       else for_op (\<lambda>(sig, signer). verify_signer e simulate tx sig signer) (zip sigs signers)))"

section \<open>Sequences and the chain of decorators\<close>

definition increment_sequence :: "AccAddress \<Rightarrow> ('x auth_state_scheme, unit) op" where
  "increment_sequence signer s =
     (case GetAccount s signer of
        None \<Rightarrow> (Inl (Panic ''nil pointer dereference''), s)
      | Some acc \<Rightarrow> SetAccount (SetSequence (GetSequence acc + 1) acc) s)"

definition IncrementSequence_decorator :: "'msg sdk_Tx \<Rightarrow> ('x ante_state_scheme ante_ctx, unit) op" where
  "IncrementSequence_decorator tx =
     bind_op (zero_ctx (GetSigners tx)) (\<lambda>signers. for_op (\<lambda>signer. on_state (increment_sequence signer)) signers)"

definition SetGasMeter :: "('msg, 's) ante_env \<Rightarrow> bool \<Rightarrow> Gas \<Rightarrow> GasMeter" where
  "SetGasMeter e simulate gasLimit =
     (if simulate \<or> ctx_BlockHeight e = 0 then NewInfiniteGasMeter else NewGasMeter gasLimit)"

text \<open>The decorators after the first, in the order of \<open>NewAnteHandler\<close>.\<close>

definition decorators ::
    "('msg, 'x ante_state_scheme) ante_env \<Rightarrow> bool \<Rightarrow> 'msg sdk_Tx \<Rightarrow> ('x ante_state_scheme ante_ctx, unit) op list" where
  "decorators e simulate tx =
     [lift_op (checkExtOpts e tx), ValidateBasic_decorator e tx, TxTimeoutHeight_decorator e tx, ValidateMemo_decorator tx,
      ConsumeTxSizeGas_decorator e simulate tx, DeductFee_decorator e simulate tx, SetPubKey_decorator e simulate tx,
      ValidateSigCount_decorator e tx, SigGasConsume_decorator e simulate tx, SigVerification_decorator e simulate tx,
      IncrementSequence_decorator tx]"

definition ChainAnteDecorators :: "('s, unit) op list \<Rightarrow> ('s, unit) op" where
  "ChainAnteDecorators ds = for_op (\<lambda>d. d) ds"

fun is_ErrorOutOfGas :: "error \<Rightarrow> bool" where
  "is_ErrorOutOfGas (Panic m) = (take 12 m = ''out of gas: '')"
| "is_ErrorOutOfGas (Err m) = False"

text \<open>The outermost decorator sets the meter and turns running out of gas into an error.\<close>

definition NewAnteHandler ::
    "('msg, 'x ante_state_scheme) ante_env \<Rightarrow> 'msg sdk_Tx \<Rightarrow> bool \<Rightarrow> GasMeter \<Rightarrow> 'x ante_state_scheme \<Rightarrow>
     (GasMeter option \<times> unit res) \<times> 'x ante_state_scheme" where
  "NewAnteHandler e tx simulate meter s =
     (case ChainAnteDecorators (decorators e simulate tx)
         \<lparr>ac_meter = SetGasMeter e simulate (GetGas tx), ac_zero = False, ac_state = s\<rparr> of
        (Inl (Panic m), c) \<Rightarrow>
          if is_ErrorOutOfGas (Panic m) then ((Some (ac_meter c), Inl (Err m)), ac_state c)
          else ((None, Inl (Panic m)), ac_state c)
      | (r, c) \<Rightarrow> ((if ac_zero c then None else Some (ac_meter c), r), ac_state c))"

end
