(* ===== verification/BankSystem.thy ===== *)
theory BankSystem
  imports AccountFrame BankSample
begin

text \<open>
  The bank as a system: the messages of the bank and of the vesting module and the calls other
  modules make to the bank keeper, as one type of calls. Every call that succeeds keeps the
  invariant of the ledger, keeps locked coins covered, and changes the supply by what it mints
  or burns.
\<close>

section \<open>Calls\<close>

datatype bank_call =
    CallSend MsgSend
  | CallMultiSend MsgMultiSend
  | CallUpdateParams MsgUpdateParams
  | CallSetSendEnabled MsgSetSendEnabled
  | CallCreateVesting MsgCreateVestingAccount
  | CallCreatePermanent MsgCreatePermanentLockedAccount
  | CallCreatePeriodic MsgCreatePeriodicVestingAccount
  | CallMint string Coins
  | CallBurn string Coins
  | CallModuleToAccount string AccAddress Coins
  | CallModuleToModule string string Coins
  | CallAccountToModule AccAddress string Coins
  | CallDelegate AccAddress string Coins
  | CallUndelegate string AccAddress Coins

fun bank_exec :: "'e bank_env_scheme \<Rightarrow> bank_call \<Rightarrow> ('x bank_state_scheme, unit) op" where
  "bank_exec e (CallSend m) = Send e m"
| "bank_exec e (CallMultiSend m) = MultiSend e m"
| "bank_exec e (CallUpdateParams m) = UpdateParams e m"
| "bank_exec e (CallSetSendEnabled m) = SetSendEnabled_msg e m"
| "bank_exec e (CallCreateVesting m) = CreateVestingAccount e m"
| "bank_exec e (CallCreatePermanent m) = CreatePermanentLockedAccount e m"
| "bank_exec e (CallCreatePeriodic m) = CreatePeriodicVestingAccount e m"
| "bank_exec e (CallMint name a) = MintCoins e name a"
| "bank_exec e (CallBurn name a) = BurnCoins e name a"
| "bank_exec e (CallModuleToAccount name addr a) = SendCoinsFromModuleToAccount e name addr a"
| "bank_exec e (CallModuleToModule name name' a) = SendCoinsFromModuleToModule e name name' a"
| "bank_exec e (CallAccountToModule addr name a) = SendCoinsFromAccountToModule e addr name a"
| "bank_exec e (CallDelegate addr name a) = DelegateCoinsFromAccountToModule e addr name a"
| "bank_exec e (CallUndelegate name addr a) = UndelegateCoinsFromModuleToAccount e name addr a"

text \<open>Amounts come in through decoders that check the 256-bit range. The amounts of periods
  have to be valid on top of that, since the handler does not check them.\<close>

fun call_ok :: "bank_call \<Rightarrow> bool" where
  "call_ok (CallSend m) = wf_coins (send_Amount m)"
| "call_ok (CallMultiSend m) = (list_all (\<lambda>i. wf_coins (in_Coins i)) (Inputs m) \<and> list_all (\<lambda>out. wf_coins (out_Coins out)) (Outputs m))"
| "call_ok (CallCreateVesting m) = (wf_coins (cv_Amount m) \<and> moderate (cv_Amount m))"
| "call_ok (CallCreatePermanent m) = wf_coins (pl_Amount m)"
| "call_ok (CallCreatePeriodic m) = (list_all (\<lambda>p. good (period_Amount p)) (pv_VestingPeriods m)
     \<and> sint (pv_StartTime m) + sum_list (map (sint \<circ> Length) (pv_VestingPeriods m)) < 2 ^ 63)"
| "call_ok (CallMint name a) = wf_coins a"
| "call_ok (CallBurn name a) = wf_coins a"
| "call_ok (CallModuleToAccount name addr a) = wf_coins a"
| "call_ok (CallModuleToModule name name' a) = wf_coins a"
| "call_ok (CallAccountToModule addr name a) = wf_coins a"
| "call_ok (CallDelegate addr name a) = wf_coins a"
| "call_ok (CallUndelegate name addr a) = wf_coins a"
| "call_ok _ = True"

text \<open>The change of the supply a call makes.\<close>

fun minted :: "bank_call \<Rightarrow> string \<Rightarrow> int" where
  "minted (CallMint name a) = (\<lambda>d. amt a d)"
| "minted (CallBurn name a) = (\<lambda>d. - amt a d)"
| "minted _ = (\<lambda>d. 0)"

section \<open>Every call keeps the invariants\<close>

definition call_keeps :: "'e bank_env_scheme \<Rightarrow> (string \<Rightarrow> int) \<Rightarrow> 'x bank_state_scheme \<Rightarrow> 'x bank_state_scheme \<Rightarrow> bool" where
  "call_keeps e g s s' \<longleftrightarrow> moves_ok e s s' \<and> (\<forall>d. sup s' d = sup s d + g d)"

lemma call_keeps_send:
  assumes "bank_inv s" and "wf_coins a" and "SendCoins e from to a s = (Inr u, s')"
  shows "call_keeps e (\<lambda>_. 0) s s'"
proof -
  have ok: "ledger_ok s" using assms(1) by (simp add: bank_inv_def)
  show ?thesis using SendCoins_keeps[OF assms(2,3)] SendCoins_effect(3)[OF ok assms(2,3)] assms(1) ok
    by (auto simp: call_keeps_def moves_ok_def transferred_def)
qed

lemma bank_inv_grown: "grown s s' \<Longrightarrow> bank_inv s \<Longrightarrow> bank_inv s'"
  using grown_ledger[of s s'] grown_frame(2,3)[of s s'] by (simp add: bank_inv_def)

lemma covered_grown: "grown s s' \<Longrightarrow> covered e s \<Longrightarrow> covered e s'"
  by (simp add: covered_def grown_frame)

lemma call_keeps_grown:
  assumes "grown s t" and "call_keeps e g t s'"
  shows "call_keeps e g s s'"
  using assms covered_grown[OF assms(1), of e] grown_frame(3)[OF assms(1)]
  by (auto simp: call_keeps_def moves_ok_def)

lemma call_keeps_module:
  assumes inv: "bank_inv s" and mod: "authorized_module e name p s = (Inr addr, t)"
  shows "bank_inv t" "call_keeps e g t s' \<Longrightarrow> call_keeps e g s s'"
proof -
  have g: "grown s t" using authorized_module_Inr[OF _ mod] inv by (simp add: bank_inv_def ledger_ok_def)
  show "bank_inv t" by (rule bank_inv_grown[OF g inv])
  show "call_keeps e g t s' \<Longrightarrow> call_keeps e g s s'" by (rule call_keeps_grown[OF g])
qed

lemma call_keeps_flags:
  assumes "bank_inv s" and "s' = s\<lparr>SendEnabledMap := m, BankParams := p\<rparr>"
  shows "call_keeps e (\<lambda>_. 0) s s'"
proof -
  have fr: "GetAccount s' = GetAccount s" "bal s' = bal s" "held s' = held s" "sup s' = sup s" "bal_ok s' = bal_ok s"
    "sup_ok s' = sup_ok s" "Accounts s' = Accounts s"
    by (simp_all add: assms(2) GetAccount_def bal_def held_def sup_def bal_ok_def sup_ok_def Balances_Get_def fun_eq_iff)
  have "locked_amt e s' = locked_amt e s" by (simp add: fun_eq_iff locked_amt_def LockedCoins_def fr)
  with assms(1) show ?thesis
    by (simp add: call_keeps_def moves_ok_def bank_inv_def ledger_ok_def covered_def auth_wf_def accounts_ok_def fr)
qed

lemma SetSendEnabled_msg_keeps:
  assumes "bank_inv s" and "SetSendEnabled_msg e m s = (Inr u, s')"
  shows "call_keeps e (\<lambda>_. 0) s s'"
proof -
  have "s' = DeleteSendEnabled (UseDefaultFor m) (SetAllSendEnabled (sse_SendEnabled m) s)"
    using assms(2) by (auto simp: SetSendEnabled_msg_def res_simps split: if_splits)
  moreover obtain f where f: "SetAllSendEnabled (sse_SendEnabled m) s = s\<lparr>SendEnabledMap := f\<rparr>"
    using SetAllSendEnabled_flags by blast
  moreover obtain f' where "DeleteSendEnabled (UseDefaultFor m) (s\<lparr>SendEnabledMap := f\<rparr>) = s\<lparr>SendEnabledMap := f\<rparr>\<lparr>SendEnabledMap := f'\<rparr>"
    using DeleteSendEnabled_flags by blast
  ultimately have "s' = s\<lparr>SendEnabledMap := f', BankParams := BankParams s\<rparr>" by simp
  then show ?thesis by (rule call_keeps_flags[OF assms(1)])
qed

lemma UpdateParams_keeps:
  assumes "bank_inv s" and "UpdateParams e m s = (Inr u, s')"
  shows "call_keeps e (\<lambda>_. 0) s s'"
proof -
  have "SetParams (up_Params m) s = (Inr u, s')" using assms(2) by (auto simp: UpdateParams_def res_simps split: if_splits)
  moreover obtain f where "SetAllSendEnabled (params_SendEnabled (up_Params m)) s = s\<lparr>SendEnabledMap := f\<rparr>"
    using SetAllSendEnabled_flags by blast
  ultimately have "\<exists>f p. s' = s\<lparr>SendEnabledMap := f, BankParams := p\<rparr>"
    by (auto simp: SetParams_def split: if_splits) (metis bank_state.surjective bank_state.update_convs(2))+
  then show ?thesis using call_keeps_flags[OF assms(1)] by blast
qed

lemma moves_ok_zero: "moves_ok e s s' \<and> sup s' = sup s \<Longrightarrow> call_keeps e (\<lambda>_. 0) s s'"
  by (simp add: call_keeps_def)

lemma call_keeps_covered:
  assumes "bank_inv s'" and "\<And>d. sup s' d = sup s d + g d" and "covered e s \<Longrightarrow> covered e s'"
  shows "call_keeps e g s s'"
  using assms by (simp add: call_keeps_def moves_ok_def)

lemma MultiSend_keeps:
  assumes inv: "bank_inv s" and wf: "\<forall>i\<in>set (Inputs m). wf_coins (in_Coins i)" "\<forall>x\<in>set (Outputs m). wf_coins (out_Coins x)"
    and run: "MultiSend e m s = (Inr u, s')"
  shows "call_keeps e (\<lambda>_. 0) s s'"
proof -
  from run obtain i where i: "Inputs m = [i]" by (auto simp: MultiSend_def res_simps split: list.splits)
  have "check_recipient e x t = (Inr (), t') \<Longrightarrow> t' = t" for x t t'
    by (auto simp: check_recipient_def res_simps split: if_splits)
  then have "for_op (check_recipient e) xs t = (Inr (), t') \<Longrightarrow> t' = t" for xs t t'
    by (induction xs arbitrary: t) (auto simp: res_simps)
  then have io: "InputOutputCoins e i (Outputs m) s = (Inr u, s')"
    using run i by (auto simp: MultiSend_def res_simps pure_op_def split: if_splits)
  have "wf_coins (in_Coins i)" using wf(1) i by simp
  from InputOutputCoins_keeps[OF this wf(2) io] inv show ?thesis
    by (intro call_keeps_covered) (auto simp: bank_inv_def)
qed

lemma MintCoins_keeps:
  assumes "bank_inv s" and "wf_coins a" and "MintCoins e name a s = (Inr u, s')"
  shows "call_keeps e (amt a) s s'"
proof (rule call_keeps_covered)
  note m = MintCoins_effect[OF assms]
  show "bank_inv s'" "sup s' d = sup s d + amt a d" for d using m(1,2) by blast+
  show "covered e s'" if "covered e s"
    unfolding covered_def m(3)
  proof (intro allI)
    fix addr d
    have "locked_amt e s addr d \<le> bal s addr d" using that by (simp add: covered_def)
    then show "locked_amt e s addr d \<le> bal s' addr d" using m(5)[of addr d] good_amt[OF m(4), of d] by (auto split: if_splits)
  qed
qed

lemma BurnCoins_keeps:
  assumes "bank_inv s" and "wf_coins a" and "BurnCoins e name a s = (Inr u, s')"
  shows "call_keeps e (\<lambda>d. - amt a d) s s'"
proof (rule call_keeps_covered)
  note m = BurnCoins_effect[OF assms]
  show "bank_inv s'" "sup s' d = sup s d + - amt a d" for d using m(1,2) by auto
  show "covered e s'" if "covered e s"
    unfolding covered_def m(3)
  proof (intro allI)
    fix addr d
    have "locked_amt e s addr d \<le> bal s addr d" using that by (simp add: covered_def)
    moreover have "amt a d = 0 \<or> amt a d \<le> bal s (mod_address e name) d - locked_amt e s (mod_address e name) d"
      using m(5) good_amt[OF m(4), of d] by (auto simp: spendable_def le_less)
    ultimately show "locked_amt e s addr d \<le> bal s' addr d" using m(6)[of addr d] by (auto split: if_splits)
  qed
qed

lemma DelegateCoins_keeps:
  assumes "bank_inv s" and "wf_coins a" and "DelegateCoins e from to a s = (Inr u, s')"
  shows "call_keeps e (\<lambda>_. 0) s s'"
proof -
  have ok: "ledger_ok s" using assms(1) by (simp add: bank_inv_def)
  note d = DelegateCoins_effect[OF ok assms(2,3)]
  show ?thesis using d(1-3) assms(1) DelegateCoins_covered[OF ok assms(2,3)]
    by (intro call_keeps_covered) (auto simp: bank_inv_def transferred_def)
qed

lemma UndelegateCoins_keeps:
  assumes "bank_inv s" and "wf_coins a" and "UndelegateCoins e from to a s = (Inr u, s')"
  shows "call_keeps e (\<lambda>_. 0) s s'"
proof -
  have ok: "ledger_ok s" using assms(1) by (simp add: bank_inv_def)
  note d = UndelegateCoins_effect[OF ok assms(2,3)]
  show ?thesis using d(1-3) assms(1) UndelegateCoins_covered[OF ok assms(2,3)]
    by (intro call_keeps_covered) (auto simp: bank_inv_def transferred_def)
qed

text \<open>A transfer to a module, whose account is created if it does not exist.\<close>

lemma call_keeps_to_module:
  assumes inv: "bank_inv s" and m: "authorized_module e name p s = (Inr r, t)"
    and k: "\<And>u s'. bank_inv t \<Longrightarrow> f t = (Inr u, s') \<Longrightarrow> call_keeps e g t s'" and run: "f t = (Inr u, s')"
  shows "call_keeps e g s s'"
  using call_keeps_module(2)[OF inv m k[OF call_keeps_module(1)[OF inv m] run]] .

lemma module_call_keeps:
  assumes inv: "bank_inv s" and wf: "wf_coins a"
  shows "SendCoinsFromModuleToAccount e name addr a s = (Inr u, s') \<Longrightarrow> call_keeps e (\<lambda>_. 0) s s'"
    "SendCoinsFromModuleToModule e name name' a s = (Inr u, s') \<Longrightarrow> call_keeps e (\<lambda>_. 0) s s'"
    "SendCoinsFromAccountToModule e addr name a s = (Inr u, s') \<Longrightarrow> call_keeps e (\<lambda>_. 0) s s'"
    "DelegateCoinsFromAccountToModule e addr name a s = (Inr u, s') \<Longrightarrow> call_keeps e (\<lambda>_. 0) s s'"
    "UndelegateCoinsFromModuleToAccount e name addr a s = (Inr u, s') \<Longrightarrow> call_keeps e (\<lambda>_. 0) s s'"
proof -
  show "call_keeps e (\<lambda>_. 0) s s'" if "SendCoinsFromModuleToAccount e name addr a s = (Inr u, s')"
    using that call_keeps_send[OF inv wf] by (auto simp: SendCoinsFromModuleToAccount_def res_simps split: if_splits option.splits)
  show "call_keeps e (\<lambda>_. 0) s s'" if "SendCoinsFromModuleToModule e name name' a s = (Inr u, s')"
    using that call_keeps_to_module[OF inv] call_keeps_send[OF _ wf]
    by (fastforce simp: SendCoinsFromModuleToModule_def res_simps split: option.splits)
  show "call_keeps e (\<lambda>_. 0) s s'" if "SendCoinsFromAccountToModule e addr name a s = (Inr u, s')"
    using that call_keeps_to_module[OF inv] call_keeps_send[OF _ wf] by (fastforce simp: SendCoinsFromAccountToModule_def res_simps)
  show "call_keeps e (\<lambda>_. 0) s s'" if "DelegateCoinsFromAccountToModule e addr name a s = (Inr u, s')"
    using that call_keeps_to_module[OF inv] DelegateCoins_keeps[OF _ wf] by (fastforce simp: DelegateCoinsFromAccountToModule_def res_simps)
  show "call_keeps e (\<lambda>_. 0) s s'" if "UndelegateCoinsFromModuleToAccount e name addr a s = (Inr u, s')"
    using that call_keeps_to_module[OF inv] UndelegateCoins_keeps[OF _ wf] by (fastforce simp: UndelegateCoinsFromModuleToAccount_def res_simps)
qed

lemma Send_keeps:
  assumes "bank_inv s" and "wf_coins (send_Amount m)" and "Send e m s = (Inr u, s')"
  shows "call_keeps e (\<lambda>_. 0) s s'"
  using assms(3) call_keeps_send[OF assms(1,2)] by (auto simp: Send_def res_simps pure_op_def split: if_splits)

text \<open>Every call, by its handler.\<close>

lemma bank_exec_keeps:
  assumes inv: "bank_inv s" and ok: "call_ok c" and t: "0 \<le> sint (BlockTime e)" and run: "bank_exec e c s = (Inr u, s')"
  shows "call_keeps e (minted c) s s'"
proof (cases c)
  case (CallMultiSend m)
  then show ?thesis using MultiSend_keeps[OF inv _ _, of m e u s'] ok run by (simp add: list_all_iff)
next
  case (CallUpdateParams m)
  then show ?thesis using UpdateParams_keeps[OF inv, of e m u s'] run by simp
next
  case (CallSetSendEnabled m)
  then show ?thesis using SetSendEnabled_msg_keeps[OF inv, of e m u s'] run by simp
next
  case (CallCreateVesting m)
  then show ?thesis using moves_ok_zero[OF CreateVestingAccount_keeps[OF inv _ _ t, of m u s']] ok run by simp
next
  case (CallCreatePermanent m)
  then show ?thesis using moves_ok_zero[OF CreatePermanentLockedAccount_keeps[OF inv, of m e u s']] ok run by simp
next
  case (CallCreatePeriodic m)
  then show ?thesis using moves_ok_zero[OF CreatePeriodicVestingAccount_keeps[OF inv, of m e u s']] ok run by (simp add: list_all_iff)
qed (use run ok inv in \<open>auto intro: Send_keeps MintCoins_keeps BurnCoins_keeps module_call_keeps\<close>)

lemma acct_bank_exec: "acct_op (bank_exec e c)"
  by (cases c) (simp_all add: evolve_intros)



end
