(* ===== verification/AnteFrame.thy ===== *)
theory AnteFrame
  imports Ante BankSystem
begin

text \<open>
  What the decorators of the ante handler do to the ledger and to the accounts. Before the last
  one they keep the invariants of the bank and the supply, and change no more of a base account
  than to set the key of one that has none. The last decorator only raises sequences.
\<close>

section \<open>Accounts with another base account\<close>

text \<open>The schedule and the locked coins of an account do not depend on its base account.\<close>

lemma vesting_of_map_base: "vesting_of (map_base f acc) = map_option (\<lambda>b. b\<lparr>bva_base := f (bva_base b)\<rparr>) (vesting_of acc)"
  by (cases acc) simp_all

lemma map_base_id: "map_base (\<lambda>b. b) = id"
proof
  show "map_base (\<lambda>b. b) acc = id acc" for acc by (cases acc) simp_all
qed

lemma map_base_comp: "map_base f (map_base g acc) = map_base (\<lambda>b. f (g b)) acc"
  by (cases acc) simp_all

lemma LockedCoins_map_base: "Account_LockedCoins (map_base f acc) t = Account_LockedCoins acc t"
  by (cases acc)
     (simp_all add: Continuous_LockedCoins_def Continuous_GetVestingCoins_def Continuous_GetVestedCoins_def Periodic_LockedCoins_def
       Periodic_GetVestingCoins_def Periodic_GetVestedCoins_def Delayed_LockedCoins_def Delayed_GetVestingCoins_def Delayed_GetVestedCoins_def
       PermanentLocked_LockedCoins_def LockedCoinsFromVesting_def)

lemma account_ok_map_base: "account_ok (map_base f acc) \<longleftrightarrow> account_ok acc"
  by (cases acc) (simp_all add: account_ok_def continuous_ok_def periodic_ok_def delayed_ok_def permanent_ok_def)

definition rebased :: "(BaseAccount \<Rightarrow> BaseAccount) \<Rightarrow> AccAddress \<Rightarrow> 'x auth_state_scheme \<Rightarrow> 'x auth_state_scheme \<Rightarrow> bool" where
  "rebased f addr s s' \<longleftrightarrow> (\<exists>a. s' = s\<lparr>Accounts := a\<rparr>) \<and> auth_wf s'
     \<and> (\<forall>addr'. GetAccount s' addr' = (if addr' = addr then map_option (map_base f) (GetAccount s addr') else GetAccount s addr'))"

lemma SetAccount_rebased:
  assumes wf: "auth_wf s" and acc: "GetAccount s addr = Some acc" and f: "Address (f (base_of acc)) = Address (base_of acc)"
    and run: "SetAccount (map_base f acc) s = (Inr u, s')"
  shows "rebased f addr s s'"
proof -
  have "GetAddress (map_base f acc) = addr" using wf acc f by (simp add: auth_wf_def GetAddress_def)
  then show ?thesis using SetAccount_Inr[OF wf run] acc by (auto simp: rebased_def)
qed

lemma rebased_keeps:
  assumes inv: "bank_inv s" and r: "rebased f addr s s'"
  shows "bank_inv s' \<and> call_keeps e (\<lambda>_. 0) s s'"
proof -
  obtain a where s': "s' = s\<lparr>Accounts := a\<rparr>" using r by (auto simp: rebased_def)
  have get: "GetAccount s' x = (if x = addr then map_option (map_base f) (GetAccount s x) else GetAccount s x)" for x
    using r by (simp add: rebased_def)
  have fr: "bal s' = bal s" "held s' = held s" "sup s' = sup s" "bal_ok s' = bal_ok s" "sup_ok s' = sup_ok s"
    by (simp_all add: s' bal_def held_def sup_def bal_ok_def sup_ok_def Balances_Get_def fun_eq_iff)
  have "LockedCoins e s' x = LockedCoins e s x" for x
    by (auto simp: LockedCoins_def get vesting_of_map_base LockedCoins_map_base split: option.splits)
  then have lk: "locked_amt e s' = locked_amt e s" by (simp add: locked_amt_def fun_eq_iff)
  have "accounts_ok s'" using inv by (auto simp: bank_inv_def ledger_ok_def accounts_ok_def get account_ok_map_base split: if_splits)
  then show ?thesis using inv r
    by (simp add: bank_inv_def ledger_ok_def rebased_def call_keeps_def moves_ok_def covered_def fr lk)
qed

section \<open>Quiet steps\<close>

text \<open>No more of a base account changes than its key, which is set once, to a key of its address
  unless the transaction is simulated.\<close>

definition keys_set :: "('msg, 's) ante_env \<Rightarrow> bool \<Rightarrow> 'x auth_state_scheme \<Rightarrow> 'x auth_state_scheme \<Rightarrow> bool" where
  "keys_set e simulate s s' \<longleftrightarrow> (\<forall>addr acc. GetAccount s addr = Some acc \<longrightarrow>
     (\<exists>acc' pk. GetAccount s' addr = Some acc' \<and> base_of acc' = (base_of acc)\<lparr>PubKey := pk\<rparr>
       \<and> (pk = Account_PubKey acc \<or> Account_PubKey acc = None \<and> (\<not> simulate \<longrightarrow> (\<exists>k. pk = Some k \<and> key_address e k = addr)))))"

lemma keys_setI:
  "(\<And>addr acc. GetAccount s addr = Some acc \<Longrightarrow>
     \<exists>acc' pk. GetAccount s' addr = Some acc' \<and> base_of acc' = (base_of acc)\<lparr>PubKey := pk\<rparr>
       \<and> (pk = Account_PubKey acc \<or> Account_PubKey acc = None \<and> (\<not> simulate \<longrightarrow> (\<exists>k. pk = Some k \<and> key_address e k = addr))))
   \<Longrightarrow> keys_set e simulate s s'"
  by (simp add: keys_set_def)

lemma bases_keys:
  assumes "bases_kept s s'"
  shows "keys_set e simulate s s'"
proof (rule keys_setI)
  fix addr acc
  assume "GetAccount s addr = Some acc"
  then obtain acc' where acc': "GetAccount s' addr = Some acc'" "base_of acc' = base_of acc"
    using assms by (auto simp: bases_kept_def)
  then show "\<exists>acc' pk. GetAccount s' addr = Some acc' \<and> base_of acc' = (base_of acc)\<lparr>PubKey := pk\<rparr>
      \<and> (pk = Account_PubKey acc \<or> Account_PubKey acc = None \<and> (\<not> simulate \<longrightarrow> (\<exists>k. pk = Some k \<and> key_address e k = addr)))"
    by (intro exI[of _ acc'] exI[of _ "Account_PubKey acc"]) (simp add: Account_PubKey_def)
qed

lemma keys_set_trans:
  assumes "keys_set e simulate s t" and "keys_set e simulate t u"
  shows "keys_set e simulate s u"
proof (rule keys_setI)
  fix addr acc
  assume "GetAccount s addr = Some acc"
  then obtain a1 k1 where 1: "GetAccount t addr = Some a1" "base_of a1 = (base_of acc)\<lparr>PubKey := k1\<rparr>"
    "k1 = Account_PubKey acc \<or> Account_PubKey acc = None \<and> (\<not> simulate \<longrightarrow> (\<exists>k. k1 = Some k \<and> key_address e k = addr))"
    using assms(1) unfolding keys_set_def by blast
  then obtain a2 k2 where 2: "GetAccount u addr = Some a2" "base_of a2 = (base_of a1)\<lparr>PubKey := k2\<rparr>"
    "k2 = Account_PubKey a1 \<or> Account_PubKey a1 = None \<and> (\<not> simulate \<longrightarrow> (\<exists>k. k2 = Some k \<and> key_address e k = addr))"
    using assms(2) unfolding keys_set_def by blast
  have "Account_PubKey a1 = k1" using 1(2) by (simp add: Account_PubKey_def)
  with 1 2 show "\<exists>acc' pk. GetAccount u addr = Some acc' \<and> base_of acc' = (base_of acc)\<lparr>PubKey := pk\<rparr>
      \<and> (pk = Account_PubKey acc \<or> Account_PubKey acc = None \<and> (\<not> simulate \<longrightarrow> (\<exists>k. pk = Some k \<and> key_address e k = addr)))"
    by (intro exI[of _ a2] exI[of _ k2]) auto
qed

definition quiet :: "('msg, 's) ante_env \<Rightarrow> bool \<Rightarrow> 'x bank_state_scheme \<Rightarrow> 'x bank_state_scheme \<Rightarrow> bool" where
  "quiet e simulate s s' \<longleftrightarrow> call_keeps e (\<lambda>_. 0) s s' \<and> keys_set e simulate s s'"

lemma quiet_refl: "bank_inv s \<Longrightarrow> quiet e simulate s s"
  by (simp add: quiet_def call_keeps_def moves_ok_def bases_keys bases_kept_refl)

lemma quiet_trans: "quiet e simulate s t \<Longrightarrow> quiet e simulate t u \<Longrightarrow> quiet e simulate s u"
  using keys_set_trans[of e simulate s t u] by (auto simp: quiet_def call_keeps_def moves_ok_def)

lemma quiet_inv: "quiet e simulate s s' \<Longrightarrow> bank_inv s'"
  by (simp add: quiet_def call_keeps_def moves_ok_def)

lemma on_state_Inr: "on_state m c = (Inr x, c') \<longleftrightarrow> (\<exists>s'. m (ac_state c) = (Inr x, s') \<and> c' = c\<lparr>ac_state := s'\<rparr>)"
  by (auto simp: on_state_def split: prod.splits)

lemma GetSignerAcc_Inr: "GetSignerAcc addr c = (Inr acc, c') \<longleftrightarrow> GetAccount (ac_state c) addr = Some acc \<and> c' = c"
  by (auto simp: GetSignerAcc_def split: option.splits)

lemma zero_ctx_Inr: "zero_ctx r c = (Inr y, c') \<longleftrightarrow> r = Inr y \<and> c' = c"
  by (auto simp: zero_ctx_def split: sum.splits error.splits)

lemmas ctx_Inr = on_state_Inr GetSignerAcc_Inr zero_ctx_Inr

definition ctx_inv :: "'x bank_state_scheme ante_ctx \<Rightarrow> bool" where
  "ctx_inv c \<longleftrightarrow> bank_inv (ac_state c)"

definition ctx_quiet :: "('msg, 's) ante_env \<Rightarrow> bool \<Rightarrow> 'x bank_state_scheme ante_ctx \<Rightarrow> 'x bank_state_scheme ante_ctx \<Rightarrow> bool" where
  "ctx_quiet e simulate c c' \<longleftrightarrow> quiet e simulate (ac_state c) (ac_state c')"

interpretation qs: evolution bank_inv "quiet e simulate" for e simulate
  by unfold_locales (rule quiet_refl, assumption, rule quiet_trans)

interpretation qc: evolution ctx_inv "ctx_quiet e simulate" for e simulate
  by unfold_locales (auto simp: ctx_inv_def ctx_quiet_def quiet_refl intro: quiet_trans)

abbreviation quiet_op :: "('msg, 's) ante_env \<Rightarrow> bool \<Rightarrow> ('x bank_state_scheme ante_ctx, 'a) op \<Rightarrow> bool" where
  "quiet_op e simulate \<equiv> evolution.evolves ctx_inv (ctx_quiet e simulate)"

lemma quiet_state [evolve_intros]: "evolution.evolves bank_inv (quiet e simulate) m \<Longrightarrow> quiet_op e simulate (on_state m)"
  unfolding qs.evolves_def qc.evolves_def by (auto simp: on_state_def ctx_inv_def ctx_quiet_def split: prod.splits)

text \<open>An operation that leaves the store alone.\<close>

lemma quiet_same:
  assumes "\<And>c x c'. m c = (Inr x, c') \<Longrightarrow> ac_state c' = ac_state c"
  shows "quiet_op e simulate m"
  using assms by (intro qc.evolvesI) (simp add: ctx_inv_def ctx_quiet_def quiet_refl)

lemma quiet_prims [evolve_intros]:
  "quiet_op e simulate (on_gas g)" "quiet_op e simulate (zero_ctx r)" "quiet_op e simulate get_params" "quiet_op e simulate (GetSignerAcc a)"
  by (rule quiet_same; auto simp: on_gas_def zero_ctx_def get_params_def gets_op_def GetSignerAcc_def
      split: prod.splits sum.splits error.splits option.splits)+

section \<open>The decorators before the last\<close>

lemma quiet_simulate_sig_gas [evolve_intros]: "quiet_op e simulate (simulate_sig_gas e' params sigs signers)"
  by (induction signers arbitrary: sigs) (auto simp: Let_def intro!: evolve_intros)

lemma quiet_checks [evolve_intros]:
  "quiet_op e simulate (ValidateBasic_decorator e' tx)" "quiet_op e simulate (TxTimeoutHeight_decorator e' tx)"
  "quiet_op e simulate (ValidateMemo_decorator tx)" "quiet_op e simulate (ConsumeTxSizeGas_decorator e' sim tx)"
  unfolding ValidateBasic_decorator_def TxTimeoutHeight_decorator_def ValidateMemo_decorator_def ConsumeTxSizeGas_decorator_def
  by (intro evolve_intros)+

text \<open>A fee grant is used in the store of its own module.\<close>

definition grants_framed :: "('msg, 'x ante_state_scheme) ante_env \<Rightarrow> bool" where
  "grants_framed e \<longleftrightarrow> (\<forall>use granter grantee fee msgs s x s'. UseGrantedFees e = Some use \<longrightarrow> use granter grantee fee msgs s = (Inr x, s')
     \<longrightarrow> Accounts s' = Accounts s \<and> Supply s' = Supply s \<and> Balances s' = Balances s)"

lemma same_ledger_quiet:
  assumes inv: "bank_inv s" and same: "Accounts s' = Accounts s" "Supply s' = Supply s" "Balances s' = Balances s"
  shows "quiet e simulate s s'"
proof -
  have fr: "GetAccount s' = GetAccount s" "bal s' = bal s" "held s' = held s" "sup s' = sup s" "bal_ok s' = bal_ok s" "sup_ok s' = sup_ok s"
    by (simp_all add: same GetAccount_def bal_def held_def sup_def bal_ok_def sup_ok_def Balances_Get_def fun_eq_iff)
  have "locked_amt e s' = locked_amt e s" by (simp add: fun_eq_iff locked_amt_def LockedCoins_def fr)
  with inv have "call_keeps e (\<lambda>_. 0) s s'"
    by (simp add: call_keeps_def moves_ok_def bank_inv_def ledger_ok_def covered_def auth_wf_def accounts_ok_def fr same)
  moreover have "keys_set e simulate s s'" by (rule bases_keys) (simp add: bases_kept_def fr)
  ultimately show ?thesis by (simp add: quiet_def)
qed

lemma quiet_bank_call:
  assumes "call_ok c" and "minted c = (\<lambda>_. 0)" and "0 \<le> sint (BlockTime e)"
  shows "evolution.evolves bank_inv (quiet e simulate) (bank_exec e c)"
proof (rule qs.evolvesI)
  fix s x s'
  assume inv: "bank_inv s" and run: "bank_exec e c s = (Inr x, s')"
  have "bases_kept s s'" using acct.evolvesD[OF acct_bank_exec _ run] inv by (simp add: bank_inv_def ledger_ok_def)
  then have "quiet e simulate s s'" using bank_exec_keeps[OF inv assms(1,3) run] assms(2) by (simp add: quiet_def bases_keys)
  then show "bank_inv s' \<and> quiet e simulate s s'" using quiet_inv by blast
qed

lemma quiet_deduct_from [evolve_intros]:
  "grants_framed e \<Longrightarrow> evolution.evolves bank_inv (quiet e simulate) (deduct_from e tx fee)"
  unfolding deduct_from_def
  by (intro evolve_intros) (auto intro!: qs.evolvesI simp: grants_framed_def dest: same_ledger_quiet quiet_inv; metis same_ledger_quiet quiet_inv)

lemma quiet_DeductFees:
  assumes "wf_coins fee" and "0 \<le> sint (BlockTime e)"
  shows "evolution.evolves bank_inv (quiet e simulate) (DeductFees e acc fee)"
proof -
  have "evolution.evolves bank_inv (quiet e simulate) (bank_exec e (CallAccountToModule (GetAddress acc) (FeeCollectorName e) fee))"
    using assms by (intro quiet_bank_call) simp_all
  then show ?thesis unfolding DeductFees_def bank_exec.simps by (intro evolve_intros)
qed

lemma quiet_checkDeductFee:
  assumes "wf_coins fee" and "0 \<le> sint (BlockTime e)" and "grants_framed e"
  shows "evolution.evolves bank_inv (quiet e simulate) (checkDeductFee e tx fee)"
proof -
  have "evolution.evolves bank_inv (quiet e simulate) (\<lambda>s. case GetAccount s addr of
      None \<Rightarrow> (Inl (Err ''fee payer address does not exist''), s)
    | Some acc \<Rightarrow> if \<not> Coins_IsZero fee then DeductFees e acc fee s else (Inr (), s))" for addr
    using qs.evolvesD[OF quiet_DeductFees[OF assms(1,2)]]
    by (intro qs.evolvesI) (auto simp: quiet_refl split: option.splits if_splits)
  then show ?thesis unfolding checkDeductFee_def by (intro evolve_intros assms(3))
qed

lemma checkTxFee_fee: "checkTxFeeWithValidatorMinGasPrices e tx = Inr (fee, p) \<Longrightarrow> fee = GetFee tx"
  by (auto simp: checkTxFeeWithValidatorMinGasPrices_def res_simps)

lemma quiet_DeductFee:
  assumes "wf_coins (GetFee tx)" and "0 \<le> sint (BlockTime e)" and "grants_framed e"
  shows "quiet_op e simulate (DeductFee_decorator e sim tx)"
proof (rule qc.evolvesI)
  fix c x c'
  assume c: "ctx_inv c" and run: "DeductFee_decorator e sim tx c = (Inr x, c')"
  then have "on_state (checkDeductFee e tx (GetFee tx)) c = (Inr x, c')"
    by (auto simp: DeductFee_decorator_def res_simps dest!: checkTxFee_fee split: if_splits)
  from qc.evolvesD[OF quiet_state[OF quiet_checkDeductFee[OF assms]] c this]
  show "ctx_inv c' \<and> ctx_quiet e simulate c c'" .
qed

lemma set_key_quiet:
  assumes inv: "bank_inv s" and acc: "GetAccount s signer = Some acc" and none: "Account_PubKey acc = None"
    and key: "\<not> simulate \<Longrightarrow> key_address e pk = signer"
    and run: "Account_SetPubKey pk acc = Inr acc'" "SetAccount acc' s = (Inr u, s')"
  shows "bank_inv s' \<and> quiet e simulate s s'"
proof -
  let ?f = "\<lambda>b. b\<lparr>PubKey := Some pk\<rparr>"
  have wf: "auth_wf s" using inv by (simp add: bank_inv_def ledger_ok_def)
  have "acc' = map_base ?f acc" using run(1) by (auto simp: Account_SetPubKey_def split: AccountI.splits)
  with run(2) have r: "rebased ?f signer s s'" by (intro SetAccount_rebased[OF wf acc]) simp_all
  have "keys_set e simulate s s'"
  proof (rule keys_setI)
    fix addr a
    assume a: "GetAccount s addr = Some a"
    let ?a = "if addr = signer then map_base ?f a else a"
    have "GetAccount s' addr = Some ?a" using r a by (cases "addr = signer") (simp_all add: rebased_def)
    then show "\<exists>acc' pk. GetAccount s' addr = Some acc' \<and> base_of acc' = (base_of a)\<lparr>PubKey := pk\<rparr>
        \<and> (pk = Account_PubKey a \<or> Account_PubKey a = None \<and> (\<not> simulate \<longrightarrow> (\<exists>k. pk = Some k \<and> key_address e k = addr)))"
      using a acc none key
      by (intro exI[of _ ?a] exI[of _ "if addr = signer then Some pk else Account_PubKey a"]) (auto simp: Account_PubKey_def)
  qed
  then show ?thesis using rebased_keeps[OF inv r, of e] by (simp add: quiet_def)
qed

lemma quiet_set_signer_key [evolve_intros]: "quiet_op e simulate (set_signer_key e simulate pk signer)"
proof (rule qc.evolvesI)
  fix c x c'
  assume c: "ctx_inv c" and run: "set_signer_key e simulate pk signer c = (Inr x, c')"
  show "ctx_inv c' \<and> ctx_quiet e simulate c c'"
  proof (cases "ac_state c' = ac_state c")
    case True
    then show ?thesis using c by (simp add: ctx_inv_def ctx_quiet_def quiet_refl)
  next
    case False
    with run obtain k acc acc' s' where "GetAccount (ac_state c) signer = Some acc" "Account_PubKey acc = None"
      "\<not> simulate \<Longrightarrow> key_address e k = signer" "Account_SetPubKey k acc = Inr acc'" "SetAccount acc' (ac_state c) = (Inr x, ac_state c')"
      by (auto simp: set_signer_key_def res_simps ctx_Inr Let_def split: if_splits option.splits)
    from set_key_quiet[OF _ this] c show ?thesis by (simp add: ctx_inv_def ctx_quiet_def)
  qed
qed

lemma quiet_set_signer_keys [evolve_intros]: "quiet_op e simulate (set_signer_keys e simulate pks signers)"
proof (induction pks arbitrary: signers)
  case (Cons pk pks)
  then show ?case by (cases signers) (simp_all add: evolve_intros)
qed (simp add: evolve_intros)

lemma quiet_sig_gas [evolve_intros]: "quiet_op e simulate (sig_gas e' params sim sigs signers)"
proof (induction sigs arbitrary: signers)
  case (Cons sig sigs)
  then show ?case by (cases signers) (auto intro!: evolve_intros)
qed (simp add: evolve_intros)

lemma quiet_signatures [evolve_intros]:
  "quiet_op e simulate (SetPubKey_decorator e simulate tx)" "quiet_op e simulate (ValidateSigCount_decorator e' tx)"
  "quiet_op e simulate (SigGasConsume_decorator e' sim tx)"
  unfolding SetPubKey_decorator_def ValidateSigCount_decorator_def SigGasConsume_decorator_def by (intro evolve_intros)+

text \<open>All decorators but the last two.\<close>

definition early_decorators ::
    "('msg, 'x ante_state_scheme) ante_env \<Rightarrow> bool \<Rightarrow> 'msg sdk_Tx \<Rightarrow> ('x ante_state_scheme ante_ctx, unit) op list" where
  "early_decorators e simulate tx = take 9 (decorators e simulate tx)"

lemma decorators_split:
  "decorators e simulate tx = early_decorators e simulate tx @ [SigVerification_decorator e simulate tx, IncrementSequence_decorator tx]"
  by (simp add: early_decorators_def decorators_def)

lemma quiet_early:
  assumes "wf_coins (GetFee tx)" and "0 \<le> sint (BlockTime e)" and "grants_framed e"
  shows "quiet_op e simulate (for_op (\<lambda>d. d) (early_decorators e simulate tx))"
  unfolding early_decorators_def decorators_def using quiet_DeductFee[OF assms]
  by (intro qc.evolves_for) (auto simp: evolve_intros)

section \<open>The last two decorators\<close>

text \<open>What the check of a signature establishes.\<close>

definition signature_ok :: "('msg, 's) ante_env \<Rightarrow> bool \<Rightarrow> 'msg sdk_Tx \<Rightarrow> 'x auth_state_scheme \<Rightarrow> SignatureV2 \<Rightarrow> AccAddress \<Rightarrow> bool" where
  "signature_ok e simulate tx s sig signer \<longleftrightarrow> (\<exists>acc. GetAccount s signer = Some acc \<and> sig_Sequence sig = GetSequence acc
     \<and> (\<not> simulate \<and> \<not> IsReCheckTx e \<longrightarrow> (\<exists>pk. Account_PubKey acc = Some pk
          \<and> VerifySignature e pk \<lparr>sd_Address = GetAddress acc, sd_ChainID = ctx_ChainID e,
               sd_AccountNumber = if ctx_BlockHeight e = 0 then 0 else GetAccountNumber acc,
               sd_Sequence = GetSequence acc, sd_PubKey = pk\<rparr> (sig_Data sig) tx = Inr ())))"

lemma verify_signer_Inr:
  "verify_signer e simulate tx sig signer c = (Inr u, c') \<Longrightarrow> c' = c \<and> signature_ok e simulate tx (ac_state c) sig signer"
  by (auto simp: verify_signer_def signature_ok_def res_simps ctx_Inr split: if_splits option.splits)

lemma for_op_checks:
  assumes "\<And>x c'. x \<in> set xs \<Longrightarrow> f x c = (Inr (), c') \<Longrightarrow> c' = c \<and> P x" and "for_op f xs c = (Inr (), c')"
  shows "c' = c \<and> (\<forall>x\<in>set xs. P x)"
  using assms
proof (induction xs)
  case (Cons x xs)
  then obtain d where d: "f x c = (Inr (), d)" "for_op f xs d = (Inr (), c')" by (auto simp: res_simps)
  then have "d = c \<and> P x" using Cons.prems(1)[of x d] by simp
  with d Cons show ?case by auto
qed (simp add: res_simps)

lemma SigVerification_Inr:
  assumes "SigVerification_decorator e simulate tx c = (Inr u, c')"
  obtains sigs signers where "GetSignaturesV2 tx = Inr sigs" "GetSigners tx = Inr signers" "length sigs = length signers" "c' = c"
    "\<forall>(sig, signer)\<in>set (zip sigs signers). signature_ok e simulate tx (ac_state c) sig signer"
proof -
  from assms obtain sigs signers where *: "GetSignaturesV2 tx = Inr sigs" "GetSigners tx = Inr signers" "length sigs = length signers"
    "for_op (\<lambda>(sig, signer). verify_signer e simulate tx sig signer) (zip sigs signers) c = (Inr (), c')"
    by (auto simp: SigVerification_decorator_def res_simps split: if_splits)
  have "c' = c \<and> (\<forall>x\<in>set (zip sigs signers). case x of (sig, signer) \<Rightarrow> signature_ok e simulate tx (ac_state c) sig signer)"
    by (rule for_op_checks[OF _ *(4)]) (auto dest: verify_signer_Inr)
  with * that show thesis by blast
qed

text \<open>The sequences of the signers go up, once for each time a signer is named.\<close>

definition raised :: "AccAddress list \<Rightarrow> 'x auth_state_scheme \<Rightarrow> 'x auth_state_scheme \<Rightarrow> bool" where
  "raised signers s s' \<longleftrightarrow> (\<forall>addr. GetAccount s' addr =
     map_option (map_base (\<lambda>b. b\<lparr>Sequence := Sequence b + of_nat (count_list signers addr)\<rparr>)) (GetAccount s addr))"

lemma increment_sequence_Inr:
  assumes inv: "bank_inv s" and run: "increment_sequence signer s = (Inr u, s')"
  shows "raised [signer] s s' \<and> bank_inv s' \<and> call_keeps e (\<lambda>_. 0) s s'"
proof -
  have wf: "auth_wf s" using inv by (simp add: bank_inv_def ledger_ok_def)
  from run obtain acc where acc: "GetAccount s signer = Some acc" "SetAccount (SetSequence (GetSequence acc + 1) acc) s = (Inr u, s')"
    by (auto simp: increment_sequence_def split: option.splits)
  have "SetSequence (GetSequence acc + 1) acc = map_base (\<lambda>b. b\<lparr>Sequence := Sequence b + 1\<rparr>) acc"
    by (cases acc) (simp_all add: SetSequence_def GetSequence_def)
  with acc have r: "rebased (\<lambda>b. b\<lparr>Sequence := Sequence b + 1\<rparr>) signer s s'" by (intro SetAccount_rebased[OF wf acc(1)]) simp_all
  have "raised [signer] s s'" using r by (auto simp: raised_def rebased_def map_base_id option.map_id)
  then show ?thesis using rebased_keeps[OF inv r] by blast
qed

lemma raised_trans:
  assumes "raised xs s t" and "raised ys t u"
  shows "raised (xs @ ys) s u"
  unfolding raised_def
proof
  fix addr
  show "GetAccount u addr = map_option (map_base (\<lambda>b. b\<lparr>Sequence := Sequence b + of_nat (count_list (xs @ ys) addr)\<rparr>)) (GetAccount s addr)"
    using assms by (cases "GetAccount s addr") (simp_all add: raised_def map_base_comp add.assoc)
qed

lemma increment_loop:
  assumes "bank_inv s" and "for_op increment_sequence signers s = (Inr u, s')"
  shows "raised signers s s' \<and> bank_inv s' \<and> call_keeps e (\<lambda>_. 0) s s'"
  using assms
proof (induction signers arbitrary: s)
  case Nil
  have "raised [] s s" by (simp add: raised_def map_base_id option.map_id)
  with Nil show ?case by (auto simp: res_simps call_keeps_def moves_ok_def)
next
  case (Cons x xs)
  then obtain t where t: "increment_sequence x s = (Inr (), t)" "for_op increment_sequence xs t = (Inr u, s')" by (auto simp: res_simps)
  note 1 = increment_sequence_Inr[OF Cons.prems(1) t(1), of e]
  with Cons.IH[OF _ t(2)] have 2: "raised xs t s' \<and> bank_inv s' \<and> call_keeps e (\<lambda>_. 0) t s'" by blast
  show ?case using raised_trans[of "[x]" s t xs s'] 1 2 by (auto simp: call_keeps_def moves_ok_def)
qed

lemma on_state_loop: "for_op (\<lambda>x. on_state (f x)) xs c = (Inr u, c') \<Longrightarrow> for_op f xs (ac_state c) = (Inr u, ac_state c')"
proof (induction xs arbitrary: c)
  case (Cons x xs)
  then obtain d where d: "on_state (f x) c = (Inr (), d)" "for_op (\<lambda>x. on_state (f x)) xs d = (Inr u, c')" by (auto simp: res_simps)
  from Cons.IH[OF d(2)] d(1) show ?case by (auto simp: res_simps ctx_Inr)
qed (auto simp: res_simps)

section \<open>Accepted transactions\<close>

definition fee_ok :: "('msg, 'x ante_state_scheme) ante_env \<Rightarrow> 'msg sdk_Tx \<Rightarrow> bool" where
  "fee_ok e tx \<longleftrightarrow> wf_coins (GetFee tx) \<and> 0 \<le> sint (BlockTime e) \<and> grants_framed e"

lemma NewAnteHandler_Inr:
  assumes inv: "bank_inv s" and ok: "fee_ok e tx" and run: "NewAnteHandler e tx simulate meter s = ((g, Inr u), s')"
  obtains s1 sigs signers where "quiet e simulate s s1" "GetSignaturesV2 tx = Inr sigs" "GetSigners tx = Inr signers"
    "length sigs = length signers" "\<forall>(sig, signer)\<in>set (zip sigs signers). signature_ok e simulate tx s1 sig signer"
    "raised signers s1 s'" "bank_inv s'" "call_keeps e (\<lambda>_. 0) s s'"
proof -
  let ?c = "\<lparr>ac_meter = SetGasMeter e simulate (GetGas tx), ac_zero = False, ac_state = s\<rparr>"
  from run obtain c' where c': "for_op (\<lambda>d. d) (decorators e simulate tx) ?c = (Inr (), c')" "ac_state c' = s'"
    by (auto simp: NewAnteHandler_def ChainAnteDecorators_def split: prod.splits sum.splits error.splits if_splits)
  then obtain c1 c2 where c1: "for_op (\<lambda>d. d) (early_decorators e simulate tx) ?c = (Inr (), c1)"
    and c2: "SigVerification_decorator e simulate tx c1 = (Inr (), c2)" "IncrementSequence_decorator tx c2 = (Inr (), c')"
    unfolding decorators_split for_op_append by (auto simp: res_simps)
  have "ctx_inv ?c" using inv by (simp add: ctx_inv_def)
  from qc.evolvesD[OF quiet_early this c1] ok have q: "bank_inv (ac_state c1)" "quiet e simulate s (ac_state c1)"
    by (auto simp: fee_ok_def ctx_inv_def ctx_quiet_def)
  obtain sigs signers where v: "GetSignaturesV2 tx = Inr sigs" "GetSigners tx = Inr signers" "length sigs = length signers" "c2 = c1"
    "\<forall>(sig, signer)\<in>set (zip sigs signers). signature_ok e simulate tx (ac_state c1) sig signer"
    using SigVerification_Inr[OF c2(1)] by blast
  have "for_op (\<lambda>signer. on_state (increment_sequence signer)) signers c1 = (Inr (), c')"
    using c2(2) v(2,4) by (auto simp: IncrementSequence_decorator_def res_simps ctx_Inr)
  from increment_loop[OF q(1) on_state_loop[OF this], of e] c'(2)
  have r: "raised signers (ac_state c1) s' \<and> bank_inv s' \<and> call_keeps e (\<lambda>_. 0) (ac_state c1) s'" by simp
  then have "call_keeps e (\<lambda>_. 0) s s'" using q(2) by (auto simp: quiet_def call_keeps_def moves_ok_def)
  with that[OF q(2) v(1-3,5)] r show thesis by blast
qed

end
