(* ===== verification/AnteSample.thy ===== *)
theory AnteSample
  imports AnteFrame BankSample
begin

text \<open>
  A transaction on the sample ledger: the account at address 2 pays a fee and sends coins, with
  one signature.
\<close>

definition sample_ante_env :: "(bank_call, ante_state) ante_env" where
  "sample_ante_env = bank_env.extend (sample_env\<lparr>permAddrs := (\<lambda>n. if n = ''fees'' then Some [] else permAddrs sample_env n)\<rparr>)
     \<lparr>key_of = Secp256k1, key_address = (\<lambda>k. k), simSecp256k1Pubkey = [0], StdSignature_len = (\<lambda>_. 64),
      MultiSignature_Marshal = concat, BytesToString = (\<lambda>_. Inr ''addr''),
      VerifySignature = (\<lambda>pk sd d tx. if d = SingleSignatureData True [7] \<and> sd_Sequence sd = 0 then Inr () else Inl (Err ''unable to verify signature'')),
      UseGrantedFees = None, ExtensionOptionChecker = (\<lambda>_. False), FeeCollectorName = ''fees'', ctx_BlockHeight = 5,
      ctx_ChainID = ''chain'', IsCheckTx = False, IsReCheckTx = False, MinGasPrices = []\<rparr>"

definition sample_state :: ante_state where
  "sample_state = bank_state.extend sample_bank
     \<lparr>AuthParams = Some \<lparr>MaxMemoCharacters = 256, TxSigLimit = 7, TxSizeCostPerByte = 10, SigVerifyCostED25519 = 590, SigVerifyCostSecp256k1 = 1000\<rparr>\<rparr>"

definition sample_tx :: "bank_call sdk_Tx" where
  "sample_tx = \<lparr>GetMsgs = [CallSend \<lparr>FromAddress = ''a2'', ToAddress = ''a3'', send_Amount = [coin ''stake'' 100]\<rparr>], GetGas = 200000,
     GetFee = [coin ''stake'' 10], FeePayer = [2], FeeGranter = [], GetMemo = [], GetTimeoutHeight = 0, GetSigners = Inr [[2]],
     GetPubKeys = Inr [Some [2]], GetSignaturesV2 = Inr [\<lparr>sig_PubKey = Some [2], sig_Data = SingleSignatureData True [7], sig_Sequence = 0\<rparr>],
     GetExtensionOptions = [], Tx_ValidateBasic = Inr (), TxBytes_len = 180\<rparr>"

lemma sample_accepts: "fst (NewAnteHandler sample_ante_env sample_tx False NewInfiniteGasMeter sample_state) =
  (Some (BasicMeter \<lparr>limit = 200000, consumed = 2800\<rparr>), Inr ())"
  by code_simp

text \<open>The invariants do not depend on the parameters of the auth module.\<close>

lemma extend_GetAccount: "GetAccount (bank_state.extend s x) = GetAccount s"
  by (simp add: GetAccount_def bank_state.defs fun_eq_iff)

lemma sample_state_inv: "bank_inv sample_state"
  using sample_inv
  by (simp add: sample_state_def bank_inv_def ledger_ok_def auth_wf_def accounts_ok_def extend_GetAccount bal_ok_def sup_ok_def held_def sup_def)
     (simp add: bank_state.defs)

lemma sample_state_covered: "covered sample_ante_env sample_state"
proof -
  have "BlockTime sample_ante_env = BlockTime sample_env" by (simp add: sample_ante_env_def bank_env.defs sample_env_def)
  then have "LockedCoins sample_ante_env sample_state = LockedCoins sample_env sample_bank"
    by (simp add: fun_eq_iff LockedCoins_def sample_state_def extend_GetAccount split: option.split)
  then have "locked_amt sample_ante_env sample_state = locked_amt sample_env sample_bank" by (simp add: fun_eq_iff locked_amt_def)
  moreover have "bal sample_state = bal sample_bank"
    by (simp add: fun_eq_iff bal_def Balances_Get_def sample_state_def bank_state.defs)
  ultimately show ?thesis using sample_covered[of sample_env] by (simp add: covered_def)
qed

lemma sample_signers: "GetSigners sample_tx = Inr [[2]]" "wf_coins (GetFee sample_tx)"
  by (simp_all add: sample_tx_def wf_coins_def wf_Int_def MaxBitLen_def)

lemma sample_framed: "grants_framed sample_ante_env" "0 \<le> sint (BlockTime sample_ante_env)"
  by (simp_all add: grants_framed_def sample_ante_env_def bank_env.defs sample_env_def)

end
