(* ===== verification/TxFees.thy ===== *)
theory TxFees
  imports AnteSample
begin

text \<open>
  The fee checks of \<^verbatim>\<open>src/x/auth/ante/validator_tx_fee.go\<close>: the floor that a validator sets for the
  price of gas, and the priority of a transaction.
\<close>

section \<open>The floor\<close>

lemma required_fee_Inr:
  assumes "required_fee (sint gas * precisionReuse) gp = Inr c"
  shows "Denom c = DecDenom gp \<and> DecAmount gp * sint gas \<le> Amount c * precisionReuse"
proof -
  from assms obtain fee ce i where st: "Dec_Mul (DecAmount gp) (sint gas * precisionReuse) = Inr fee" "Dec_Ceil fee = Inr ce"
    "Dec_RoundInt ce = Inr i" "NewCoin (DecDenom gp) i = Inr c" by (auto simp: required_fee_def res_simps)
  have "fee = chopPrecisionAndRound (DecAmount gp * sint gas * precisionReuse)"
    using st(1) by (auto simp: Dec_Mul_def Dec_check_Inr mult.assoc)
  then have fee: "fee = DecAmount gp * sint gas" by (simp only: chop_mult)
  obtain k where k: "ce = k * precisionReuse" "fee \<le> k * precisionReuse" using Dec_Ceil_least[of fee] st(2) by auto
  have "i = k" using st(3) k(1) chop_mult[of k] by (auto simp: Dec_RoundInt_def NewIntFromBigInt_Inr)
  with st(4) k(2) fee show ?thesis by (simp add: NewCoin_Inr)
qed

lemma list_all2_member: "list_all2 P xs ys \<Longrightarrow> y \<in> set ys \<Longrightarrow> \<exists>x\<in>set xs. P x y"
  by (induction rule: list_all2_induct) auto

lemma any_r_True: "any_r p xs = Inr True \<Longrightarrow> \<exists>x\<in>set xs. p x = Inr True"
  by (induction xs) (auto simp: res_simps split: if_splits)

lemma IsAnyGTE_True:
  assumes "strict_denoms Denom b" and "IsAnyGTE a b = Inr True"
  shows "\<exists>c\<in>set a. \<exists>c'\<in>set b. Denom c' = Denom c \<and> Amount c' \<le> Amount c"
proof -
  obtain c m where c: "c \<in> set a" "AmountOf b (Denom c) = Inr m" "m \<le> Amount c" "m \<noteq> 0"
    using assms(2) by (auto simp: IsAnyGTE_def res_simps Int_IsZero_def dest!: any_r_True split: if_splits)
  then have m: "m = amt b (Denom c)"
    using AmountOfNoDenomValidation_amt[OF assms(1)] by (auto simp: AmountOf_def res_simps)
  then obtain c' where "c' \<in> set b" "Denom c' = Denom c" using c(4) total_of_notin[of "Denom c" Denom b] by fastforce
  then show ?thesis using c(1,3) m total_of_member[OF assms(1), of c' Amount] by fastforce
qed

text \<open>C18: a validator's floor is enforced. If a transaction passes the fee check of \<open>CheckTx\<close> on a
  node with minimum gas prices, its fee has a coin that pays at least the minimum price of its
  denomination for all of the gas the transaction asks for: neither the rounding of the product
  nor the conversion to whole coins lets a lower fee pass. The fee that is taken is the one of
  the transaction.\<close>

theorem fee_floor:
  assumes "checkTxFeeWithValidatorMinGasPrices e tx = Inr (fee, priority)" and "IsCheckTx e"
    and "valid_dec (MinGasPrices e)" and "MinGasPrices e \<noteq> []"
  shows "fee = GetFee tx \<and> (\<exists>gp\<in>set (MinGasPrices e). \<exists>c\<in>set fee. Denom c = DecDenom gp
    \<and> DecAmount gp * sint (GetGas tx) \<le> Amount c * precisionReuse)"
proof -
  have nz: "\<not> DecCoins_IsZero (MinGasPrices e)"
    using assms(3,4) by (cases "MinGasPrices e") (auto simp: DecCoins_IsZero_def valid_dec_def Dec_IsZero_def)
  let ?g = "sint (GetGas tx) * precisionReuse"
  have "\<exists>u. bind_r (map_r (required_fee ?g) (MinGasPrices e)) (\<lambda>requiredFees. bind_r (IsAnyGTE (GetFee tx) requiredFees) (\<lambda>gte.
      if \<not> gte then Inl (Err ''insufficient fees'') else Inr ())) = Inr u" and fee: "fee = GetFee tx"
    using assms(1) nz assms(2) unfolding checkTxFeeWithValidatorMinGasPrices_def LegacyNewDec_eq
    by (simp_all only: bind_r_Inr bind_r_simps simp_thms if_True if_False) blast+
  then obtain req where req: "map_r (required_fee ?g) (MinGasPrices e) = Inr req" "IsAnyGTE (GetFee tx) req = Inr True"
    unfolding bind_r_Inr by (metis (full_types) sum.distinct(1))
  have all: "list_all2 (\<lambda>gp c. Denom c = DecDenom gp \<and> DecAmount gp * sint (GetGas tx) \<le> Amount c * precisionReuse) (MinGasPrices e) req"
    using req(1) unfolding map_r_Inr by (rule list_all2_mono) (rule required_fee_Inr)
  then have "map Denom req = map DecDenom (MinGasPrices e)" by (induction rule: list_all2_induct) auto
  then have "strict_denoms Denom req" using assms(3) by (simp add: strict_denoms_def valid_dec_def)
  from IsAnyGTE_True[OF this req(2)] obtain c c' where c: "c \<in> set (GetFee tx)" "c' \<in> set req" "Denom c' = Denom c" "Amount c' \<le> Amount c" by blast
  then obtain gp where gp: "gp \<in> set (MinGasPrices e)" "Denom c' = DecDenom gp" "DecAmount gp * sint (GetGas tx) \<le> Amount c' * precisionReuse"
    using list_all2_member[OF all] by blast
  have "Amount c' * precisionReuse \<le> Amount c * precisionReuse" using c(4) by (simp add: precisionReuse_pos less_imp_le mult_right_mono)
  with c gp fee show ?thesis by (metis order_trans)
qed

text \<open>A node that asks for 0.00004 stake per unit of gas.\<close>

definition floor_env :: "(bank_call, ante_state) ante_env" where
  "floor_env = sample_ante_env\<lparr>IsCheckTx := True, MinGasPrices := [\<lparr>DecDenom = ''stake'', DecAmount = 40000000000000\<rparr>]\<rparr>"

lemma floor_required: "required_fee (200000 * precisionReuse) \<lparr>DecDenom = ''stake'', DecAmount = 40000000000000\<rparr> = Inr (coin ''stake'' 8)"
proof -
  have "40000000000000 * (200000 * precisionReuse) = 8000000000000000000 * precisionReuse" by simp
  then have "chopPrecisionAndRound (40000000000000 * (200000 * precisionReuse)) = 8000000000000000000" by (simp only: chop_mult)
  then have 1: "Dec_Mul 40000000000000 (200000 * precisionReuse) = Inr 8000000000000000000"
    by (simp add: Dec_Mul_def Dec_check_Inr wf_Dec_def maxDecBitLen_val)
  have 2: "Dec_Ceil 8000000000000000000 = Inr 8000000000000000000"
    using Dec_Ceil_least[of 8000000000000000000] by (auto simp: precisionReuse_val)
  have 3: "Dec_RoundInt 8000000000000000000 = Inr 8"
    using chop_mult[of 8] by (simp add: Dec_RoundInt_def NewIntFromBigInt_Inr precisionReuse_val wf_Int_def MaxBitLen_def)
  show ?thesis using sample_denom by (simp add: required_fee_def 1 2 3 NewCoin_Inr)
qed

lemma fee_floor_witness: "\<exists>c\<in>set (GetFee sample_tx). Denom c = ''stake'' \<and> 40000000000000 * sint (GetGas sample_tx) \<le> Amount c * precisionReuse"
proof -
  have g: "sint (GetGas sample_tx) = 200000" "GetFee sample_tx = [coin ''stake'' 10]" by (simp_all add: sample_tx_def)
  have "IsAnyGTE [coin ''stake'' 10] [coin ''stake'' 8] = Inr True" "getTxPriority [coin ''stake'' 10] (GetGas sample_tx) = Inr 0" by code_simp+
  then have run: "checkTxFeeWithValidatorMinGasPrices floor_env sample_tx = Inr (GetFee sample_tx, 0)"
    by (simp add: checkTxFeeWithValidatorMinGasPrices_def floor_env_def LegacyNewDec_eq g floor_required DecCoins_IsZero_def Dec_IsZero_def)
  have m: "MinGasPrices floor_env = [\<lparr>DecDenom = ''stake'', DecAmount = 40000000000000\<rparr>]" "IsCheckTx floor_env"
    by (simp_all add: floor_env_def)
  then have "valid_dec (MinGasPrices floor_env)" using sample_denom by (simp add: valid_dec_def strict_denoms_def)
  from fee_floor[OF run m(2) this] m(1) show ?thesis by auto
qed

section \<open>Priorities\<close>

lemma priority_loop:
  assumes "map_r (gas_price gas) fee = Inr ps" and "\<forall>p\<in>set ps. 0 < sint p" and "0 < sint q"
  shows "\<exists>r. fold_r (\<lambda>priority c. bind_r (gas_price gas c) (\<lambda>p. Inr (if priority = 0 \<or> sint p < sint priority then p else priority))) q fee = Inr r
    \<and> r \<in> insert q (set ps) \<and> (\<forall>p\<in>insert q (set ps). sint r \<le> sint p)"
  using assms
proof (induction fee arbitrary: ps q)
  case (Cons c fee)
  then obtain p ps' where p: "gas_price gas c = Inr p" "map_r (gas_price gas) fee = Inr ps'" "ps = p # ps'" by (auto simp: res_simps)
  let ?q = "if q = 0 \<or> sint p < sint q then p else q"
  have q: "q \<noteq> 0" "0 < sint ?q" using Cons.prems(2,3) p(3) by auto
  from Cons.IH[OF p(2) _ q(2)] Cons.prems(2) p(3) obtain r where
    "fold_r (\<lambda>priority c. bind_r (gas_price gas c) (\<lambda>p. Inr (if priority = 0 \<or> sint p < sint priority then p else priority))) ?q fee = Inr r"
    "r \<in> insert ?q (set ps')" "\<forall>p\<in>insert ?q (set ps'). sint r \<le> sint p" by auto
  then show ?case using p q(1) by (auto split: if_splits)
qed simp

text \<open>The priority of a transaction is the lowest price per unit of gas among the coins of its
  fee, where a price that does not fit 64 bits counts as the greatest number, as long as no
  price rounds to zero.\<close>

theorem getTxPriority_least:
  assumes "map_r (gas_price gas) fee = Inr ps" and "\<forall>p\<in>set ps. 0 < sint p" and "fee \<noteq> []"
  shows "\<exists>r. getTxPriority fee gas = Inr r \<and> r \<in> set ps \<and> (\<forall>p\<in>set ps. sint r \<le> sint p)"
proof -
  obtain c cs p ps' where c: "fee = c # cs" "gas_price gas c = Inr p" "map_r (gas_price gas) cs = Inr ps'" "ps = p # ps'"
    using assms(1,3) by (cases fee) (auto simp: res_simps)
  then show ?thesis using priority_loop[OF c(3), of p] assms(2) by (auto simp: getTxPriority_def)
qed

lemma getTxPriority_least_witness: "\<exists>r. getTxPriority [coin ''atom'' 500, coin ''stake'' 1000] 10 = Inr r \<and> r \<in> {50, 100} \<and> sint r \<le> 50"
proof -
  have "map_r (gas_price 10) [coin ''atom'' 500, coin ''stake'' 1000] = Inr [50, 100]" by code_simp
  from getTxPriority_least[OF this] show ?thesis by auto
qed

text \<open>A price that rounds to zero is taken for one not set yet: the next coin overrides it, and the
  priority is not the lowest price.\<close>

lemma getTxPriority_not_least: "getTxPriority [coin ''atom'' 5, coin ''stake'' 1000] 10 = Inr 100" "gas_price 10 (coin ''atom'' 5) = Inr 0"
  by code_simp+

end
