(* ===== verification/BankQueries.thy ===== *)
theory BankQueries
  imports BankSample
begin

text \<open>
  What the bank reports: balances, spendable coins, total supply and the two invariants the
  module registers. In a state that satisfies the invariant of the ledger none of them panics
  and all of them are exact. Also the exact condition under which a transfer succeeds.
\<close>

section \<open>Collecting coins\<close>

definition sum_denom :: "(string \<times> int) list \<Rightarrow> string \<Rightarrow> int" where
  "sum_denom xs d = sum_list (map (\<lambda>(d', v). if d' = d then v else 0) xs)"

lemma sum_denom_simps [simp]:
  "sum_denom [] d = 0" "sum_denom ((d', v) # xs) d = (if d' = d then v else 0) + sum_denom xs d"
  by (simp_all add: sum_denom_def)

lemma sum_denom_nonneg: "\<forall>(d, v)\<in>set xs. 0 < v \<Longrightarrow> 0 \<le> sum_denom xs d"
  by (induction xs) (auto split: if_splits)

lemma collect_loop:
  assumes "\<forall>(d, v)\<in>set xs. 0 < v \<and> wf_Int v \<and> reDnm_MatchString d" and "good acc" and "\<forall>d. wf_Int (amt acc d + sum_denom xs d)"
  shows "\<exists>r. fold_r (\<lambda>acc (d, v). bind_r (NewCoin d v) (\<lambda>c. Coins_Add acc [c])) acc xs = Inr r \<and> good r
    \<and> (\<forall>d. amt r d = amt acc d + sum_denom xs d)"
  using assms
proof (induction xs arbitrary: acc)
  case (Cons x xs)
  obtain d v where x: "x = (d, v)" by fastforce
  have v: "0 < v" "wf_Int v" "reDnm_MatchString d" using Cons.prems(1) x by auto
  have g: "good [coin d v]" using v by (intro good_coin) auto
  have nn: "0 \<le> sum_denom xs d'" for d' using Cons.prems(1) by (intro sum_denom_nonneg) auto
  have am: "amt acc d' + amt [coin d v] d' = amt acc d' + (if d = d' then v else 0)" for d' by simp
  have "wf_Int (amt acc d' + amt [coin d v] d')" for d'
  proof (rule wf_Int_le)
    show "0 \<le> amt acc d' + amt [coin d v] d'" using good_amt[OF Cons.prems(2)] v(1) by simp
    show "amt acc d' + amt [coin d v] d' \<le> amt acc d' + sum_denom (x # xs) d'" using nn[of d'] by (simp add: x)
    show "wf_Int (amt acc d' + sum_denom (x # xs) d')" using Cons.prems(3) by blast
  qed
  then obtain acc' where a: "Coins_Add acc [coin d v] = Inr acc'" "good acc'" "\<forall>d'. amt acc' d' = amt acc d' + amt [coin d v] d'"
    using Coins_Add_valid[of acc "[coin d v]"] Cons.prems(2) g by auto
  have nc: "NewCoin d v = Inr (coin d v)" using v by (simp add: NewCoin_Inr)
  have eq: "amt acc' d' + sum_denom xs d' = amt acc d' + sum_denom (x # xs) d'" for d' using a(3) am by (simp add: x)
  have "\<exists>r. fold_r (\<lambda>acc (d, v). bind_r (NewCoin d v) (\<lambda>c. Coins_Add acc [c])) acc' xs = Inr r \<and> good r
      \<and> (\<forall>d. amt r d = amt acc' d + sum_denom xs d)"
    using Cons.IH[of acc'] Cons.prems a(2) by (simp add: eq)
  then show ?case using a(1) nc eq by (simp add: x)
qed simp

lemma fold_r_map: "fold_r f acc (map g xs) = fold_r (\<lambda>acc x. f acc (g x)) acc xs"
  by (induction xs arbitrary: acc) simp_all

lemma good_Nil: "good []"
  by (simp add: valid_coins_def wf_coins_def)

text \<open>A sum over a store in which one key counts.\<close>

lemma total_single:
  assumes wf: "kv_wf m" and zero: "\<And>k' v. k' \<noteq> k \<Longrightarrow> kv_get m k' = Some v \<Longrightarrow> f k' v = 0"
  shows "kv.total f m = kv.at f m k"
proof -
  let ?A = "insert k {k. kv_get m k \<noteq> None}"
  have "kv.total f m = (\<Sum>x\<in>?A. kv.at f m x)" using kv.finite_keys[OF wf] by (intro kv.total_eq_sum[OF wf]) auto
  also have "\<dots> = kv.at f m k + (\<Sum>x\<in>?A - {k}. kv.at f m x)" using kv.finite_keys[OF wf] by (intro sum.remove) auto
  also have "(\<Sum>x\<in>?A - {k}. kv.at f m x) = 0" using zero by (intro sum.neutral) (auto simp: kv.at_def split: option.splits)
  finally show ?thesis by simp
qed

section \<open>Balances of an account\<close>

lemma bal_entries:
  assumes "bal_ok s"
  shows "kv_wf (im_map (Balances s))" "(k, v) \<in> set (im_map (Balances s)) \<Longrightarrow> 0 < v \<and> wf_Int v \<and> reDnm_MatchString (snd k)"
proof -
  show wf: "kv_wf (im_map (Balances s))" using assms by (simp add: bal_ok_def reverse.coherent_def)
  show "(k, v) \<in> set (im_map (Balances s)) \<Longrightarrow> 0 < v \<and> wf_Int v \<and> reDnm_MatchString (snd k)"
    using assms kv.in_items[OF wf, of k v] unfolding bal_ok_def by blast
qed

lemma GetAllBalances_run:
  assumes ok: "bal_ok s" and enc: "encodable addr"
  shows "\<exists>r. GetAllBalances s addr = Inr r \<and> good r \<and> (\<forall>d. amt r d = bal s addr d)"
proof -
  let ?m = "im_map (Balances s)"
  let ?xs = "map (\<lambda>(k, v). (snd k, v)) (filter (\<lambda>(k, _). fst k = (length addr, addr)) ?m)"
  note ent = bal_entries[OF ok]
  have sum: "sum_denom ?xs d = bal s addr d" for d
  proof -
    let ?f = "\<lambda>k v. if k = balance_key addr d then v else 0"
    have "sum_denom ?xs d = kv.total ?f ?m"
      by (simp add: sum_denom_def kv.total_def sum_list_map_filter' balance_key_def case_prod_unfold o_def prod_eq_iff if_distrib cong: if_cong)
         (intro arg_cong[of _ _ sum_list] map_cong; auto)
    also have "\<dots> = kv.at ?f ?m (balance_key addr d)" using ent(1) by (rule total_single) simp
    also have "\<dots> = bal s addr d" using enc by (auto simp: kv.at_def bal_def Balances_Get_def IndexedMap_Get_def split: option.splits)
    finally show ?thesis .
  qed
  have "\<forall>(d, v)\<in>set ?xs. 0 < v \<and> wf_Int v \<and> reDnm_MatchString d" using ent(2) by fastforce
  moreover have "\<forall>d. wf_Int (amt [] d + sum_denom ?xs d)" using bal_facts(2)[OF ok] by (simp add: sum)
  ultimately obtain r where
    r: "fold_r (\<lambda>acc (d, v). bind_r (NewCoin d v) (\<lambda>c. Coins_Add acc [c])) [] ?xs = Inr r" "good r" "\<forall>d. amt r d = amt [] d + sum_denom ?xs d"
    using collect_loop[OF _ good_Nil, of ?xs] by blast
  have "IterateAccountBalances (\<lambda>balances balance. Coins_Add balances [balance]) [] s addr = Inr r"
    using r(1) enc by (simp add: IterateAccountBalances_def fold_r_map case_prod_unfold)
  moreover have "Coins_Sort r = r" using r(2) valid_wf_strict(1) by (simp add: Coins_Sort_def sort_key_strict)
  ultimately show ?thesis using r(2,3) sum by (auto simp: GetAllBalances_def)
qed

section \<open>Spendable coins\<close>

lemma SpendableCoins_run:
  assumes ok: "ledger_ok s" and enc: "encodable addr"
  shows "\<exists>r. SpendableCoins e s addr = Inr r \<and> good r
    \<and> (\<forall>d. amt r d = (if \<forall>d'. locked_amt e s addr d' \<le> bal s addr d' then bal s addr d - locked_amt e s addr d else 0))"
proof -
  have b: "bal_ok s" "accounts_ok s" using ok by (simp_all add: ledger_ok_def)
  obtain B where B: "GetAllBalances s addr = Inr B" "good B" "\<forall>d. amt B d = bal s addr d" using GetAllBalances_run[OF b(1) enc] by blast
  obtain l where l: "LockedCoins e s addr = Inr l" "good l" "\<forall>d. amt l d = locked_amt e s addr d" using LockedCoins_run[OF b(2)] by blast
  obtain r neg where r: "Coins_SafeSub B l = Inr (r, neg)" "wf_coins r" "\<forall>d. amt r d = amt B d - amt l d"
    "neg \<longleftrightarrow> (\<exists>d. amt B d < amt l d)" "\<not> neg \<longrightarrow> valid_coins r" using Coins_SafeSub_valid[of B l] B(2) l(2) by blast
  have run: "SpendableCoins e s addr = Inr (if neg then [] else r)"
    using B(1) l(1) r(1) by (simp add: SpendableCoins_def spendableCoins_def)
  have neg: "neg \<longleftrightarrow> \<not> (\<forall>d'. locked_amt e s addr d' \<le> bal s addr d')" using r(4) B(3) l(3) by (auto simp: not_le)
  show ?thesis
  proof (cases neg)
    case True
    then have "\<not> (\<forall>d'. locked_amt e s addr d' \<le> bal s addr d')" using neg by blast
    then show ?thesis using True run good_Nil by auto
  next
    case False
    then show ?thesis using run r B(3) l(3) neg by simp
  qed
qed

text \<open>C15: While the locked coins of an account are covered by its balance, \<open>SpendableCoins\<close> never
  panics and reports exactly the balance minus the locked amount of every denomination, and these are
  exactly the amounts a withdrawal accepts: \<open>subUnlockedCoins\<close> of a valid amount succeeds if and only if the
  amount is within the reported coins, and it fails with an error and no panic otherwise.\<close>

theorem SpendableCoins_exact:
  assumes "ledger_ok s" and "covered e s" and "encodable addr" and "good a"
  shows "\<exists>r. SpendableCoins e s addr = Inr r \<and> good r \<and> (\<forall>d. amt r d = bal s addr d - locked_amt e s addr d)
    \<and> (if \<forall>d. amt a d \<le> amt r d then \<exists>s'. subUnlockedCoins e addr a s = (Inr (), s')
       else \<exists>m s'. subUnlockedCoins e addr a s = (Inl (Err m), s'))"
proof -
  obtain r where r: "SpendableCoins e s addr = Inr r" "good r" "\<forall>d. amt r d = bal s addr d - locked_amt e s addr d"
    using SpendableCoins_run[OF assms(1,3), of e] assms(2) by (auto simp: covered_def)
  have "spendable e s addr a \<longleftrightarrow> (\<forall>d. amt a d \<le> amt r d)"
    using r(3) good_amt[OF r(2)] good_amt[OF assms(4)] unfolding spendable_def by (metis le_less)
  then show ?thesis using subUnlockedCoins_run[of s a e addr] assms(1,4) r by (auto simp: ledger_ok_def split: if_splits)
qed

lemma SpendableCoins_exact_witness:
  "(\<exists>s'. subUnlockedCoins sample_env [2] [coin ''stake'' 200] sample_bank = (Inr (), s'))
     \<and> (\<exists>r. SpendableCoins sample_env sample_bank [2] = Inr r \<and> amt r ''stake'' = 500)"
proof -
  let ?a = "[coin ''stake'' 200]"
  have g: "good ?a" using sample_denom by (simp add: valid_coins_def wf_coins_def wf_Int_def MaxBitLen_def)
  have enc: "encodable [2]" by (simp add: encodable_def MaxBytesKeyNonTerminalSize_def)
  have ok: "ledger_ok sample_bank" using sample_inv by (simp add: bank_inv_def)
  obtain r where r: "SpendableCoins sample_env sample_bank [2] = Inr r"
    "\<forall>d. amt r d = bal sample_bank [2] d - locked_amt sample_env sample_bank [2] d"
    "if \<forall>d. amt ?a d \<le> amt r d then \<exists>s'. subUnlockedCoins sample_env [2] ?a sample_bank = (Inr (), s')
       else \<exists>m s'. subUnlockedCoins sample_env [2] ?a sample_bank = (Inl (Err m), s')"
    using SpendableCoins_exact[OF ok sample_covered enc g] by blast
  have "amt r d = (if d = ''stake'' then 500 else 0)" for d using r(2) by (simp add: sample_bal sample_locked_plain)
  then show ?thesis using r(1,3) by simp
qed

section \<open>The registered invariants\<close>

lemma sup_entries:
  assumes "sup_ok s"
  shows "kv_wf (Supply s)" "(d, v) \<in> set (Supply s) \<Longrightarrow> 0 < v \<and> wf_Int v \<and> reDnm_MatchString d"
  using assms kv.in_items[of "Supply s" d v] by (auto simp: sup_ok_def)

lemma GetPaginatedTotalSupply_run:
  assumes "sup_ok s"
  shows "\<exists>r. GetPaginatedTotalSupply s = Inr r \<and> good r \<and> (\<forall>d. amt r d = sup s d)"
proof -
  note ent = sup_entries[OF assms]
  have sum: "sum_denom (Supply s) d = sup s d" for d
  proof -
    have "sum_denom (Supply s) d = kv.total (\<lambda>k v. if k = d then v else 0) (Supply s)" by (simp add: sum_denom_def kv.total_def)
    also have "\<dots> = kv.at (\<lambda>k v. if k = d then v else 0) (Supply s) d" using ent(1) by (rule total_single) simp
    finally show ?thesis by (simp add: kv.at_def sup_def split: option.splits)
  qed
  have "\<forall>(d, v)\<in>set (Supply s). 0 < v \<and> wf_Int v \<and> reDnm_MatchString d" using ent(2) by auto
  moreover have "\<forall>d. wf_Int (amt [] d + sum_denom (Supply s) d)" using sup_facts[OF assms] by (simp add: sum)
  ultimately show ?thesis using collect_loop[OF _ good_Nil, of "Supply s"] sum
    by (simp add: GetPaginatedTotalSupply_def)
qed

lemma all_balances_run:
  assumes ok: "bal_ok s" and fits: "\<forall>d. wf_Int (held s d)"
  shows "\<exists>r. IterateAllBalances (\<lambda>expectedTotal _ balance. Coins_Add expectedTotal [balance]) [] s = Inr r \<and> good r
    \<and> (\<forall>d. amt r d = held s d)"
proof -
  let ?xs = "map (\<lambda>(k, v). (snd k, v)) (im_map (Balances s))"
  have sum: "sum_denom ?xs d = held s d" for d
    unfolding sum_denom_def held_def kv.total_def map_map
    by (intro arg_cong[of _ _ sum_list] map_cong) (auto simp: o_def)
  have "\<forall>(d, v)\<in>set ?xs. 0 < v \<and> wf_Int v \<and> reDnm_MatchString d" using bal_entries(2)[OF ok] by fastforce
  moreover have "\<forall>d. wf_Int (amt [] d + sum_denom ?xs d)" using fits by (simp add: sum)
  ultimately show ?thesis using collect_loop[OF _ good_Nil, of ?xs] sum
    by (simp add: IterateAllBalances_def fold_r_map case_prod_unfold)
qed

lemma good_ext: "good a \<Longrightarrow> good b \<Longrightarrow> (\<And>d. amt a d = amt b d) \<Longrightarrow> a = b"
  by (rule normal_coins_ext) (auto simp: normal_coins_def valid_coins_def fun_eq_iff)

lemma TotalSupply_not_broken: "bank_inv s \<Longrightarrow> TotalSupply s = Inr False"
proof -
  assume inv: "bank_inv s"
  then have ok: "bal_ok s" "sup_ok s" "\<And>d. held s d = sup s d" by (simp_all add: bank_inv_def ledger_ok_def)
  obtain r where r: "GetPaginatedTotalSupply s = Inr r" "good r" "\<forall>d. amt r d = sup s d"
    using GetPaginatedTotalSupply_run[OF ok(2)] by blast
  have "\<forall>d. wf_Int (held s d)" using sup_facts[OF ok(2)] ok(3) by simp
  from all_balances_run[OF ok(1) this] obtain t where
    t: "IterateAllBalances (\<lambda>expectedTotal _ balance. Coins_Add expectedTotal [balance]) [] s = Inr t" "good t" "\<forall>d. amt t d = held s d" by blast
  have "t = r" using r t ok(3) by (intro good_ext) auto
  then show ?thesis using r t valid_wf_strict(1) by (simp add: TotalSupply_def Coins_Equal_strict)
qed

lemma NonnegativeBalance_not_broken:
  assumes "bal_ok s"
  shows "NonnegativeBalanceInvariant s = Inr False"
proof -
  have "fold_r (\<lambda>acc (key, value). bind_r (NewCoin (snd key) value) (\<lambda>balance. Inr (if Coin_IsNegative balance then acc + 1 else acc))) n m = Inr n"
    if "\<forall>(k, v)\<in>set m. 0 < v \<and> wf_Int v \<and> reDnm_MatchString (snd k)" for m :: "((addr_key \<times> string) \<times> int) list" and n :: nat
    using that by (induction m) (auto simp: NewCoin_Inr Coin_IsNegative_def Int_IsNegative_def NewCoin_def Let_def Coin_Validate_def ValidateDenom_def)
  moreover have "\<forall>(k, v)\<in>set (im_map (Balances s)). 0 < v \<and> wf_Int v \<and> reDnm_MatchString (snd k)"
    using bal_entries(2)[OF assms] by fastforce
  ultimately show ?thesis by (simp add: NonnegativeBalanceInvariant_def IterateAllBalances_def)
qed

section \<open>Transfers succeed\<close>

lemma shift_auth_inv:
  assumes "shift addr g s s'"
  shows "auth_inv s' = auth_inv s" "room s' = room s"
proof -
  obtain b where "s' = s\<lparr>Balances := b\<rparr>" using assms by (auto simp: shift_def)
  then show "auth_inv s' = auth_inv s" "room s' = room s"
    by (simp_all add: auth_inv_def auth_wf_def room_def GetAccount_def)
qed

lemma ensureAccount_run:
  assumes "auth_inv s" and "room s \<or> GetAccount s addr \<noteq> None"
  shows "\<exists>s'. ensureAccount addr s = (Inr (), s') \<and> auth_inv s' \<and> GetAccount s' addr \<noteq> None"
proof (cases "GetAccount s addr")
  case None
  then have "room s" using assms(2) by simp
  from create_base_account[OF assms(1) this None] None show ?thesis by (auto simp: ensureAccount_def HasAccount_iff created_def)
next
  case (Some acc)
  then show ?thesis using assms(1) by (simp add: ensureAccount_def HasAccount_iff)
qed

lemma SendCoins_run:
  assumes inv: "bank_inv s" and auth: "auth_inv s" "room s \<or> GetAccount s to \<noteq> None" and wf: "wf_coins a" and enc: "encodable to"
  shows "if valid_coins a \<and> spendable e s from a
    then \<exists>s'. SendCoins e from to a s = (Inr (), s') \<and> auth_inv s' \<and> GetAccount s' to \<noteq> None
    else \<exists>m s'. SendCoins e from to a s = (Inl (Err m), s')"
proof -
  have ok: "ledger_ok s" "bal_ok s" "accounts_ok s" "sup_ok s" "\<And>d. held s d = sup s d" using inv by (simp_all add: bank_inv_def ledger_ok_def)
  note sub = subUnlockedCoins_run[OF ok(2,3) wf, of e "from"]
  show ?thesis
  proof (cases "valid_coins a \<and> spendable e s from a")
    case True
    then obtain s1 where s1: "subUnlockedCoins e from a s = (Inr (), s1)" "shift from (\<lambda>d. - amt a d) s s1" using sub by auto
    have g: "good a" using True wf by blast
    have b1: "bal_ok s1" using shift_ok[OF s1(2)] .
    have "wf_Int (bal s1 to d + amt a d)" for d
    proof (rule wf_Int_le)
      show "0 \<le> bal s1 to d + amt a d" using bal_facts(1)[OF b1] good_amt[OF g, of d] by simp
      have "held s1 d = sup s d - amt a d" using s1(2) ok(5) by (simp add: shift_def)
      then show "bal s1 to d + amt a d \<le> sup s d" using bal_facts(3)[OF b1, of to d] by simp
      show "wf_Int (sup s d)" using sup_facts[OF ok(4)] by blast
    qed
    then obtain s2 where s2: "addCoins to a s1 = (Inr (), s2)" "shift to (amt a) s1 s2" using addCoins_run[OF b1 enc g] by auto
    have "auth_inv s2" "room s2 \<or> GetAccount s2 to \<noteq> None"
      using auth shift_auth_inv[OF s1(2)] shift_auth_inv[OF s2(2)] shift_frame(1)[OF s1(2)] shift_frame(1)[OF s2(2)] by simp_all
    from ensureAccount_run[OF this] s1(1) s2(1) True show ?thesis by (auto simp: SendCoins_def op_run bind_op_run)
  next
    case False
    then obtain m s' where "subUnlockedCoins e from a s = (Inl (Err m), s')" using sub by auto
    with False show ?thesis by (auto simp: SendCoins_def op_run bind_op_run)
  qed
qed

text \<open>C9: A transfer succeeds if and only if the amount is valid and within the spendable coins of
  the sender; otherwise it returns an error and does not panic. If it succeeds, the sender has exactly
  the amount less, the recipient exactly the amount more, all other balances and the supply are as
  before, the invariant holds and the recipient has an account. In particular a credit never
  overflows, and creating the recipient never conflicts with an account number in use.\<close>

theorem SendCoins_exact:
  assumes inv: "bank_inv s" and auth: "auth_inv s" "room s \<or> GetAccount s to \<noteq> None" and wf: "wf_coins a" and enc: "encodable to"
  shows "if valid_coins a \<and> spendable e s from a
    then \<exists>s'. SendCoins e from to a s = (Inr (), s') \<and> bank_inv s' \<and> auth_inv s' \<and> GetAccount s' to \<noteq> None \<and> sup s' = sup s
      \<and> (\<forall>addr d. bal s' addr d = bal s addr d - (if addr = from then amt a d else 0) + (if addr = to then amt a d else 0))
    else \<exists>m s'. SendCoins e from to a s = (Inl (Err m), s')"
proof (cases "valid_coins a \<and> spendable e s from a")
  case True
  with SendCoins_run[OF assms, of e "from"] obtain s' where
    s': "SendCoins e from to a s = (Inr (), s')" "auth_inv s'" "GetAccount s' to \<noteq> None" by auto
  have "bank_inv s'" "transferred from to a s s'"
    using SendCoins_keeps(1)[OF wf s'(1) inv] SendCoins_effect(3)[OF _ wf s'(1)] inv by (auto simp: bank_inv_def)
  with True s' show ?thesis by (auto simp: transferred_def)
next
  case False
  show ?thesis using SendCoins_run[OF assms, of e "from"] unfolding if_not_P[OF False] .
qed

lemma SendCoins_exact_witness:
  "\<exists>s'. SendCoins sample_env [2] [3] [coin ''stake'' 200] sample_bank = (Inr (), s') \<and> bank_inv s'
     \<and> bal s' [2] ''stake'' = 300 \<and> bal s' [3] ''stake'' = 200"
proof -
  let ?a = "[coin ''stake'' 200]"
  have g: "valid_coins ?a" "wf_coins ?a" using sample_denom by (simp_all add: valid_coins_def wf_coins_def wf_Int_def MaxBitLen_def)
  have enc: "encodable [3]" by (simp add: encodable_def MaxBytesKeyNonTerminalSize_def)
  have sp: "spendable sample_env sample_bank [2] ?a" by (simp add: spendable_def sample_bal sample_locked_plain)
  show ?thesis using SendCoins_exact[OF sample_inv sample_auth(1) _ g(2) enc, of sample_env "[2]"] sample_auth(2) g(1) sp
    by (auto simp: sample_bal)
qed

end
