(* ===== verification/Chain.thy ===== *)
theory Chain
  imports AnteSample BankQueries
begin

text \<open>
  The chain as a state machine. A configuration is the context of a block with the store; it
  moves when the ante handler accepts a transaction, when a call to the bank succeeds, and when
  the next block begins. The invariants of the ledger hold in every reachable configuration, and
  an accepted transaction is never accepted again. Blocks of \<open>FinalizeBlock\<close> and \<open>Commit\<close>, for an
  application made of this ante handler and these message handlers, are runs of the machine.
\<close>

section \<open>The state machine\<close>

definition at_block :: "('msg, 's) ante_env \<Rightarrow> int64 \<times> int64 \<Rightarrow> ('msg, 's) ante_env" where
  "at_block e h = e\<lparr>BlockTime := fst h, ctx_BlockHeight := snd h\<rparr>"

text \<open>Coins are decoded with a check of their range, and the signers of a transaction are listed
  once each.\<close>

definition tx_ok :: "'msg sdk_Tx \<Rightarrow> bool" where
  "tx_ok tx \<longleftrightarrow> wf_coins (GetFee tx) \<and> (\<forall>signers. GetSigners tx = Inr signers \<longrightarrow> distinct signers)"

definition env_ok :: "('msg, 'x ante_state_scheme) ante_env \<Rightarrow> bool" where
  "env_ok e \<longleftrightarrow> 0 \<le> sint (BlockTime e) \<and> grants_framed e"

text \<open>What a list of calls mints less what it burns.\<close>

definition net_minted :: "bank_call list \<Rightarrow> string \<Rightarrow> int" where
  "net_minted cs d = sum_list (map (\<lambda>c. minted c d) cs)"

text \<open>The number counts the transactions that were accepted, and the list holds the calls that were
  made, in their order.\<close>

inductive chain_run ::
    "('msg, 'x ante_state_scheme) ante_env \<times> 'x ante_state_scheme \<Rightarrow> nat \<Rightarrow> bank_call list \<Rightarrow>
     ('msg, 'x ante_state_scheme) ante_env \<times> 'x ante_state_scheme \<Rightarrow> bool" for x where
  run_start: "chain_run x 0 [] x"
| run_ante: "chain_run x n cs (e, s) \<Longrightarrow> tx_ok tx \<Longrightarrow> NewAnteHandler e tx False meter s = ((g, Inr ()), s') \<Longrightarrow> chain_run x (Suc n) cs (e, s')"
| run_call: "chain_run x n cs (e, s) \<Longrightarrow> call_ok c \<Longrightarrow> bank_exec e c s = (Inr (), s') \<Longrightarrow> chain_run x n (cs @ [c]) (e, s')"
| run_block: "chain_run x n cs (e, s) \<Longrightarrow> sint (BlockTime e) \<le> sint (fst h) \<Longrightarrow> chain_run x n cs (at_block e h, s)"

lemma chain_run_trans: "chain_run y m ds z \<Longrightarrow> chain_run x n cs y \<Longrightarrow> chain_run x (n + m) (cs @ ds) z"
proof (induction rule: chain_run.induct)
  case (run_call m ds e s c s')
  from chain_run.run_call[OF run_call.IH[OF run_call.prems] run_call.hyps(2,3)] show ?case by simp
qed (auto intro: chain_run.intros)

section \<open>Invariants of all reachable states\<close>

text \<open>What is locked only shrinks as time passes.\<close>

lemma covered_later:
  assumes ok: "accounts_ok s" and t: "sint (BlockTime e) \<le> sint (BlockTime e')" and c: "covered e s" "bal_ok s"
  shows "covered e' s"
  unfolding covered_def
proof (intro allI)
  fix addr d
  have le: "locked_amt e s addr d \<le> bal s addr d" using c by (simp add: covered_def)
  show "locked_amt e' s addr d \<le> bal s addr d"
  proof (cases "\<exists>acc b. GetAccount s addr = Some acc \<and> vesting_of acc = Some b")
    case False
    then have "locked_amt e' s addr d = locked_amt e s addr d" by (auto simp: locked_amt_def LockedCoins_def split: option.splits)
    with le show ?thesis by simp
  next
    case True
    then obtain acc b where acc: "GetAccount s addr = Some acc" "vesting_of acc = Some b" by blast
    then have aok: "account_ok acc" using ok by (simp add: accounts_ok_def)
    obtain v l where v: "GetVestingCoins acc (BlockTime e) = Inr v" "Account_LockedCoins acc (BlockTime e) = Inr l"
      "\<forall>d. amt l d = max 0 (amt v d - amt (DelegatedVesting b) d)" using account_vesting[OF aok acc(2), of "BlockTime e"] by blast
    obtain v' l' where v': "GetVestingCoins acc (BlockTime e') = Inr v'" "Account_LockedCoins acc (BlockTime e') = Inr l'"
      "\<forall>d. amt l' d = max 0 (amt v' d - amt (DelegatedVesting b) d)" using account_vesting[OF aok acc(2), of "BlockTime e'"] by blast
    have "amt l' d \<le> amt l d" using account_vesting_antimono[OF aok t v(1) v'(1), of d] v(3) v'(3) by simp
    with le show ?thesis using acc v(2) v'(2) by (simp add: locked_amt_def LockedCoins_def)
  qed
qed

lemma env_ok_at_block: "env_ok e \<Longrightarrow> sint (BlockTime e) \<le> sint (fst h) \<Longrightarrow> env_ok (at_block e h)"
  by (simp add: env_ok_def at_block_def grants_framed_def)

definition chain_inv :: "('msg, 'x ante_state_scheme) ante_env \<times> 'x ante_state_scheme \<Rightarrow> bool" where
  "chain_inv es \<longleftrightarrow> env_ok (fst es) \<and> bank_inv (snd es) \<and> covered (fst es) (snd es)"

lemma fee_ok_tx: "env_ok e \<Longrightarrow> tx_ok tx \<Longrightarrow> fee_ok e tx"
  by (simp add: env_ok_def tx_ok_def fee_ok_def)

lemma chain_inv_ante:
  assumes "chain_inv (e, s)" and "tx_ok tx" and "NewAnteHandler e tx simulate meter s = ((g, Inr u), s')"
  shows "chain_inv (e, s')"
proof -
  have ok: "bank_inv s" "fee_ok e tx" using assms(1,2) fee_ok_tx by (auto simp: chain_inv_def)
  show ?thesis using NewAnteHandler_Inr[OF ok assms(3)] assms(1) by (auto simp: chain_inv_def call_keeps_def moves_ok_def)
qed

lemma chain_run_inv:
  assumes "chain_run x n cs y" and "chain_inv x"
  shows "chain_inv y"
  using assms
proof (induction rule: chain_run.induct)
  case (run_ante n cs e s tx meter g s')
  then show ?case using chain_inv_ante by blast
next
  case (run_call n cs e s c s')
  then have "chain_inv (e, s)" by blast
  with bank_exec_keeps[OF _ run_call.hyps(2) _ run_call.hyps(3)] show ?case
    by (auto simp: chain_inv_def env_ok_def call_keeps_def moves_ok_def)
next
  case (run_block n cs e s h)
  then have inv: "env_ok e" "bank_inv s" "covered e s" by (simp_all add: chain_inv_def)
  then have "accounts_ok s" "bal_ok s" by (simp_all add: bank_inv_def ledger_ok_def)
  moreover have "sint (BlockTime e) \<le> sint (BlockTime (at_block e h))" using run_block.hyps(2) by (simp add: at_block_def)
  ultimately have "covered (at_block e h) s" using covered_later[of s e "at_block e h"] inv(3) by blast
  then show ?case using inv env_ok_at_block[OF inv(1) run_block.hyps(2)] by (simp add: chain_inv_def)
qed

lemma chain_run_supply:
  assumes "chain_run x n cs y" and "chain_inv x"
  shows "sup (snd y) d = sup (snd x) d + net_minted cs d"
  using assms
proof (induction rule: chain_run.induct)
  case (run_ante n cs e s tx meter g s')
  then have inv: "chain_inv (e, s)" using chain_run_inv by blast
  then have ok: "bank_inv s" "fee_ok e tx" using fee_ok_tx run_ante.hyps(2) by (auto simp: chain_inv_def)
  have "sup s' d = sup s d" using NewAnteHandler_Inr[OF ok run_ante.hyps(3)] by (auto simp: call_keeps_def)
  then show ?case using run_ante by simp
next
  case (run_call n cs e s c s')
  then have inv: "env_ok e" "bank_inv s" using chain_run_inv[OF run_call.hyps(1)] by (auto simp: chain_inv_def)
  then have "sup s' d = sup s d + minted c d"
    using bank_exec_keeps[OF inv(2) run_call.hyps(2) _ run_call.hyps(3)] by (simp add: env_ok_def call_keeps_def)
  then show ?case using run_call by (simp add: net_minted_def)
qed (simp_all add: net_minted_def)

text \<open>The two invariants the bank registers hold, and no account holds less than is locked.\<close>

definition ledger_safe :: "'e bank_env_scheme \<Rightarrow> 'x bank_state_scheme \<Rightarrow> bool" where
  "ledger_safe e s \<longleftrightarrow> TotalSupply s = Inr False \<and> NonnegativeBalanceInvariant s = Inr False
     \<and> (\<forall>addr. \<exists>l. LockedCoins e s addr = Inr l \<and> (\<forall>d. amt l d \<le> bal s addr d))"

lemma chain_inv_safe:
  assumes "chain_inv (e, s)"
  shows "ledger_safe e s"
proof -
  have inv: "bank_inv s" "covered e s" using assms by (simp_all add: chain_inv_def)
  then have ok: "accounts_ok s" "bal_ok s" by (simp_all add: bank_inv_def ledger_ok_def)
  have "\<exists>l. LockedCoins e s addr = Inr l \<and> (\<forall>d. amt l d \<le> bal s addr d)" for addr
    using LockedCoins_run[OF ok(1), of e addr] inv(2) by (auto simp: covered_def)
  then show ?thesis using TotalSupply_not_broken[OF inv(1)] NonnegativeBalance_not_broken[OF ok(2)] by (simp add: ledger_safe_def)
qed

section \<open>Sequences\<close>

lemma count_distinct: "distinct xs \<Longrightarrow> count_list xs x = (if x \<in> set xs then 1 else 0)"
  by (induction xs) auto

lemma GetSequence_raised:
  assumes "raised signers s s'" and "GetAccount s addr = Some acc"
  shows "\<exists>acc'. GetAccount s' addr = Some acc' \<and> GetSequence acc' = GetSequence acc + of_nat (count_list signers addr)"
  using assms by (simp add: raised_def GetSequence_def)

lemma keys_set_sequence:
  "keys_set e simulate s s' \<Longrightarrow> GetAccount s addr = Some acc \<Longrightarrow> \<exists>acc'. GetAccount s' addr = Some acc' \<and> GetSequence acc' = GetSequence acc"
  unfolding keys_set_def GetSequence_def by fastforce

text \<open>The sequence of an account that exists goes up by at most one per accepted transaction.\<close>

lemma ante_sequence:
  assumes inv: "chain_inv (e, s)" and tx: "tx_ok tx" and run: "NewAnteHandler e tx simulate meter s = ((g, Inr u), s')"
    and acc: "GetAccount s addr = Some acc"
  shows "\<exists>acc' k. GetAccount s' addr = Some acc' \<and> GetSequence acc' = GetSequence acc + of_nat k \<and> k \<le> 1"
proof -
  have ok: "bank_inv s" "fee_ok e tx" using inv tx fee_ok_tx by (auto simp: chain_inv_def)
  obtain s1 signers where q: "keys_set e simulate s s1" "GetSigners tx = Inr signers" "raised signers s1 s'"
    using NewAnteHandler_Inr[OF ok run] by (metis quiet_def)
  obtain a1 where a1: "GetAccount s1 addr = Some a1" "GetSequence a1 = GetSequence acc"
    using keys_set_sequence[OF q(1) acc] by blast
  have "count_list signers addr \<le> 1" using tx q(2) by (simp add: tx_ok_def count_distinct)
  then show ?thesis using GetSequence_raised[OF q(3) a1(1)] a1(2) by auto
qed

lemma run_sequence:
  assumes "chain_run x n cs y" and "chain_inv x" and "GetAccount (snd x) addr = Some acc"
  shows "\<exists>acc' k. GetAccount (snd y) addr = Some acc' \<and> GetSequence acc' = GetSequence acc + of_nat k \<and> k \<le> n"
  using assms
proof (induction rule: chain_run.induct)
  case run_start
  then show ?case by (intro exI[of _ acc] exI[of _ 0]) simp
next
  case (run_ante n cs e s tx meter g s')
  then obtain a1 k where a1: "GetAccount s addr = Some a1" "GetSequence a1 = GetSequence acc + of_nat k" "k \<le> n" by auto
  have "chain_inv (e, s)" using chain_run_inv run_ante by blast
  from ante_sequence[OF this run_ante.hyps(2,3) a1(1)] obtain a2 j where
    "GetAccount s' addr = Some a2" "GetSequence a2 = GetSequence a1 + of_nat j" "j \<le> 1" by blast
  with a1 show ?case by (intro exI[of _ a2] exI[of _ "k + j"]) (simp add: add.assoc)
next
  case (run_call n cs e s c s')
  then obtain a1 k where a1: "GetAccount s addr = Some a1" "GetSequence a1 = GetSequence acc + of_nat k" "k \<le> n" by auto
  have "auth_wf s" using chain_run_inv[OF run_call.hyps(1)] run_call.prems by (simp add: chain_inv_def bank_inv_def ledger_ok_def)
  from acct.evolvesD[OF acct_bank_exec this run_call.hyps(3)] a1 show ?case by (fastforce simp: bases_kept_def GetSequence_def)
qed simp

text \<open>The signature of the first signer carries the sequence of its account.\<close>

lemma first_signature:
  assumes inv: "chain_inv (e, s)" and tx: "tx_ok tx" "GetSigners tx = Inr (signer # signers)"
    and run: "NewAnteHandler e tx simulate meter s = ((g, Inr u), s')"
  obtains s1 sig sigs acc where "keys_set e simulate s s1" "GetSignaturesV2 tx = Inr (sig # sigs)" "GetAccount s1 signer = Some acc"
    "sig_Sequence sig = GetSequence acc" "raised (signer # signers) s1 s'"
proof -
  have ok: "bank_inv s" "fee_ok e tx" using inv tx(1) fee_ok_tx by (auto simp: chain_inv_def)
  show thesis
  proof (rule NewAnteHandler_Inr[OF ok run])
    fix s1 sigs signers'
    assume *: "quiet e simulate s s1" "GetSignaturesV2 tx = Inr sigs" "GetSigners tx = Inr signers'" "length sigs = length signers'"
      "\<forall>(sig, signer)\<in>set (zip sigs signers'). signature_ok e simulate tx s1 sig signer" "raised signers' s1 s'"
    then obtain sig rest where sigs: "sigs = sig # rest" using tx(2) by (cases sigs) auto
    with * tx(2) have "signature_ok e simulate tx s1 sig signer" by auto
    with * tx(2) sigs show thesis by (auto simp: signature_ok_def quiet_def intro: that)
  qed
qed

section \<open>Claims\<close>

lemma sample_chain: "chain_inv (sample_ante_env, sample_state)" "tx_ok sample_tx"
  using sample_state_inv sample_state_covered sample_framed sample_signers by (simp_all add: chain_inv_def env_ok_def tx_ok_def)

definition sample_next :: ante_state where
  "sample_next = snd (NewAnteHandler sample_ante_env sample_tx False NewInfiniteGasMeter sample_state)"

lemma sample_step:
  "NewAnteHandler sample_ante_env sample_tx False NewInfiniteGasMeter sample_state =
     ((Some (BasicMeter \<lparr>limit = 200000, consumed = 2800\<rparr>), Inr ()), sample_next)"
  unfolding sample_next_def by (metis prod.collapse sample_accepts)



text \<open>C4: no replay. After a transaction with at least one signer was accepted, no ante handler of
  the same chain accepts it again, in a later block and after whatever other transactions and
  calls, also as a simulation, as long as fewer than \<open>2^64 - 1\<close> transactions come in between,
  which is when sequences would wrap around.\<close>

theorem no_replay:
  assumes inv: "chain_inv (e, s)" and tx: "tx_ok tx" "GetSigners tx = Inr (signer # signers)"
    and acc: "NewAnteHandler e tx False meter s = ((g, Inr ()), s')"
    and run: "chain_run (e, s') n cs (e', t)" "Suc n < 2 ^ 64"
  shows "fst (NewAnteHandler e' tx simulate meter' t) \<noteq> (g', Inr u)"
proof
  assume "fst (NewAnteHandler e' tx simulate meter' t) = (g', Inr u)"
  then obtain t' where again: "NewAnteHandler e' tx simulate meter' t = ((g', Inr u), t')" by (metis prod.collapse)
  have inv1: "chain_inv (e, s')" by (rule chain_inv_ante[OF inv tx(1) acc])
  then have inv2: "chain_inv (e', t)" using chain_run_inv[OF run(1)] by simp
  obtain s1 sig sigs a1 where 1: "GetSignaturesV2 tx = Inr (sig # sigs)" "GetAccount s1 signer = Some a1" "sig_Sequence sig = GetSequence a1"
    "raised (signer # signers) s1 s'"
    using first_signature[OF inv tx acc] by metis
  have "count_list (signer # signers) signer = 1" using tx count_distinct[of "signer # signers"] by (simp add: tx_ok_def)
  with GetSequence_raised[OF 1(4,2)] obtain a2 where a2: "GetAccount s' signer = Some a2" "GetSequence a2 = sig_Sequence sig + 1"
    using 1(3) by auto
  from run_sequence[OF run(1) inv1, of signer a2] a2 obtain a3 k where a3: "GetAccount t signer = Some a3"
    "GetSequence a3 = sig_Sequence sig + 1 + of_nat k" "k \<le> n" by auto
  obtain t1 a4 where a4: "keys_set e' simulate t t1" "GetAccount t1 signer = Some a4" "sig_Sequence sig = GetSequence a4"
    using first_signature[OF inv2 tx again] 1(1) by (metis list.inject sum.inject(2))
  have "GetSequence a4 = GetSequence a3" using keys_set_sequence[OF a4(1) a3(1)] a4(2) by auto
  then have "sig_Sequence sig + of_nat (Suc k) = sig_Sequence sig + 0" using a3(2) a4(3) by (simp add: add.assoc)
  then have "(of_nat (Suc k) :: 64 word) = 0" by (rule add_left_imp_eq)
  then have "2 ^ 64 dvd Suc k" unfolding word_of_nat_eq_0_iff by simp
  then show False using a3(3) run(2) by (auto dest: dvd_imp_le)
qed

lemma no_replay_witness: "fst (NewAnteHandler sample_ante_env sample_tx False NewInfiniteGasMeter sample_next) \<noteq> (None, Inr ())"
  by (rule no_replay[OF sample_chain(1,2) _ sample_step run_start]) (simp_all add: sample_signers)

text \<open>C5: only the owners of the accounts can authorize a transaction. If the ante handler accepts a
  transaction outside of a recheck, there is one signature per signer, and every signature
  verifies for the chain, the number and the current sequence of the signer's account, under the
  key of the account, or if it had none under a key with the address of the account. The
  sequence is then one higher, and sequences of accounts that did not sign stay.\<close>

theorem ante_authentic:
  assumes "bank_inv s" and "fee_ok e tx" and "tx_ok tx" and "NewAnteHandler e tx False meter s = ((g, Inr ()), s')" and "\<not> IsReCheckTx e"
  shows "\<exists>sigs signers. GetSignaturesV2 tx = Inr sigs \<and> GetSigners tx = Inr signers \<and> length sigs = length signers
    \<and> (\<forall>(sig, signer)\<in>set (zip sigs signers). \<forall>acc. GetAccount s signer = Some acc \<longrightarrow> sig_Sequence sig = GetSequence acc
        \<and> (\<exists>pk. (Account_PubKey acc = Some pk \<or> Account_PubKey acc = None \<and> key_address e pk = signer)
          \<and> VerifySignature e pk \<lparr>sd_Address = signer, sd_ChainID = ctx_ChainID e,
               sd_AccountNumber = if ctx_BlockHeight e = 0 then 0 else GetAccountNumber acc,
               sd_Sequence = GetSequence acc, sd_PubKey = pk\<rparr> (sig_Data sig) tx = Inr ()))
    \<and> (\<forall>addr acc. GetAccount s addr = Some acc \<longrightarrow> (\<exists>acc'. GetAccount s' addr = Some acc'
        \<and> GetSequence acc' = GetSequence acc + (if addr \<in> set signers then 1 else 0)))"
proof (rule NewAnteHandler_Inr[OF assms(1,2,4)])
  fix s1 sigs signers
  assume q: "quiet e False s s1" and sg: "GetSignaturesV2 tx = Inr sigs" "GetSigners tx = Inr signers" "length sigs = length signers"
    and v: "\<forall>(sig, signer)\<in>set (zip sigs signers). signature_ok e False tx s1 sig signer" and r: "raised signers s1 s'"
  have keys: "keys_set e False s s1" and wf: "auth_wf s1" using q quiet_inv[OF q] by (auto simp: quiet_def bank_inv_def ledger_ok_def)
  have "sig_Sequence sig = GetSequence acc
      \<and> (\<exists>pk. (Account_PubKey acc = Some pk \<or> Account_PubKey acc = None \<and> key_address e pk = signer)
        \<and> VerifySignature e pk \<lparr>sd_Address = signer, sd_ChainID = ctx_ChainID e,
             sd_AccountNumber = if ctx_BlockHeight e = 0 then 0 else GetAccountNumber acc,
             sd_Sequence = GetSequence acc, sd_PubKey = pk\<rparr> (sig_Data sig) tx = Inr ())"
    if z: "(sig, signer) \<in> set (zip sigs signers)" and a: "GetAccount s signer = Some acc" for sig signer acc
  proof -
    obtain a1 k where a1: "GetAccount s1 signer = Some a1" "base_of a1 = (base_of acc)\<lparr>PubKey := k\<rparr>"
      "k = Account_PubKey acc \<or> Account_PubKey acc = None \<and> (\<exists>j. k = Some j \<and> key_address e j = signer)"
      using keys a unfolding keys_set_def by blast
    then have eqs: "GetAddress a1 = signer" "Account_PubKey a1 = k" "GetSequence a1 = GetSequence acc" "GetAccountNumber a1 = GetAccountNumber acc"
      using wf by (simp_all add: auth_wf_def Account_PubKey_def GetSequence_def GetAccountNumber_def)
    have "signature_ok e False tx s1 sig signer" using v z by blast
    then obtain pk where "sig_Sequence sig = GetSequence acc" "k = Some pk" "VerifySignature e pk \<lparr>sd_Address = signer, sd_ChainID = ctx_ChainID e,
        sd_AccountNumber = if ctx_BlockHeight e = 0 then 0 else GetAccountNumber acc, sd_Sequence = GetSequence acc, sd_PubKey = pk\<rparr> (sig_Data sig) tx = Inr ()"
      using a1(1) assms(5) eqs by (auto simp: signature_ok_def cong: if_cong)
    with a1(3) show ?thesis by (intro conjI exI[of _ pk]) auto
  qed
  moreover have "\<exists>acc'. GetAccount s' addr = Some acc' \<and> GetSequence acc' = GetSequence acc + (if addr \<in> set signers then 1 else 0)"
    if "GetAccount s addr = Some acc" for addr acc
    using keys_set_sequence[OF keys that] GetSequence_raised[OF r, of addr] assms(3) sg(2) by (fastforce simp: tx_ok_def count_distinct)
  ultimately show ?thesis using sg by blast
qed

lemma ante_authentic_witness:
  "\<exists>pk. VerifySignature sample_ante_env pk \<lparr>sd_Address = [2], sd_ChainID = ''chain'', sd_AccountNumber = 1, sd_Sequence = 0, sd_PubKey = pk\<rparr>
     (SingleSignatureData True [7]) sample_tx = Inr ()"
proof -
  have 1: "bank_inv sample_state" "fee_ok sample_ante_env sample_tx" using sample_chain fee_ok_tx by (auto simp: chain_inv_def)
  have 2: "\<not> IsReCheckTx sample_ante_env" "ctx_ChainID sample_ante_env = ''chain''" "ctx_BlockHeight sample_ante_env = 5"
    by (simp_all add: sample_ante_env_def bank_env.defs sample_env_def)
  let ?acc = "BaseAcc \<lparr>Address = [2], PubKey = Some [2], AccountNumber = 1, Sequence = 0\<rparr>"
  have 3: "GetAccount sample_state [2] = Some ?acc" "GetSequence ?acc = 0" "GetAccountNumber ?acc = 1"
    by (simp_all add: sample_state_def extend_GetAccount sample_GetAccount GetSequence_def GetAccountNumber_def)
  have 4: "GetSignaturesV2 sample_tx = Inr [\<lparr>sig_PubKey = Some [2], sig_Data = SingleSignatureData True [7], sig_Sequence = 0\<rparr>]" by (simp add: sample_tx_def)
  show ?thesis using ante_authentic[OF 1 sample_chain(2) sample_step 2(1)] 2(2,3) 3 4 sample_signers(1) by auto
qed

end
