(* ===== verification/Blocks.thy ===== *)
theory Blocks
  imports Chain
begin

text \<open>
  An application in blocks: the transaction runner with the ante handler, the handlers of the
  messages of the bank and of the vesting module, and calls to the bank by other modules at the
  beginning and the end of a block, as \<^verbatim>\<open>src/simapp/app.go\<close> wires them. Finalized and committed
  blocks are runs of the state machine, so its theorems hold for the committed store.
\<close>

section \<open>The application\<close>

text \<open>The calls that are messages; the others come from modules only.\<close>

fun is_message :: "bank_call \<Rightarrow> bool" where
  "is_message (CallSend _) = True"
| "is_message (CallMultiSend _) = True"
| "is_message (CallUpdateParams _) = True"
| "is_message (CallSetSendEnabled _) = True"
| "is_message (CallCreateVesting _) = True"
| "is_message (CallCreatePermanent _) = True"
| "is_message (CallCreatePeriodic _) = True"
| "is_message _ = False"

definition bank_handler :: "'e bank_env_scheme \<Rightarrow> bank_call \<Rightarrow> (GasMeter \<times> 'x bank_state_scheme, unit) op" where
  "bank_handler e c = (\<lambda>(g, s). case bank_exec e c s of (r, s') \<Rightarrow> (r, (g, s')))"

definition bank_app ::
    "(bank_call, 'x ante_state_scheme) ante_env \<Rightarrow> (bytes \<Rightarrow> bank_call sdk_Tx res) \<Rightarrow> bank_call list \<Rightarrow> bank_call list \<Rightarrow>
     ('x ante_state_scheme \<Rightarrow> 64 word option) \<Rightarrow> int64 \<times> int64 \<Rightarrow> (bank_call sdk_Tx, bank_call, 'x ante_state_scheme, 'p) app_config" where
  "bank_app e dec begins ends maxGas h =
     \<lparr>txDecoder = dec, tx_GetMsgs = GetMsgs, tx_GetMsgsV2 = (\<lambda>_. Inr ()), msg_ValidateBasic = (\<lambda>_. None),
      anteHandler = Some (NewAnteHandler (at_block e h)),
      router_Handler = (\<lambda>m. if is_message m then Some (bank_handler (at_block e h) m) else None), postHandler = None,
      mempool_Insert = NoOp_Insert, mempool_Remove = NoOp_Remove,
      beginBlocker = Some (for_op (bank_exec (at_block e h)) begins), endBlocker = Some (for_op (bank_exec (at_block e h)) ends),
      consensus_MaxGas = maxGas\<rparr>"

definition decodes_ok :: "(bytes \<Rightarrow> bank_call sdk_Tx res) \<Rightarrow> bool" where
  "decodes_ok dec \<longleftrightarrow> (\<forall>b tx. dec b = Inr tx \<longrightarrow> tx_ok tx \<and> list_all call_ok (GetMsgs tx))"

fun run_blocks :: "('h \<Rightarrow> ('tx, 'msg, 's, 'p) app_config) \<Rightarrow> 'h RequestFinalizeBlock list \<Rightarrow> (('s, 'p) app_state, unit) op" where
  "run_blocks cfg [] = ret_op ()"
| "run_blocks cfg (req # reqs) = seq_op (FinalizeBlock cfg req) (seq_op Commit (run_blocks cfg reqs))"

section \<open>A block is a run\<close>

lemma calls_run:
  assumes "list_all call_ok cs" and "for_op (bank_exec e) cs s = (Inr u, s')"
  shows "chain_run (e, s) 0 cs (e, s')"
  using assms
proof (induction cs arbitrary: s)
  case (Cons c cs)
  then obtain t where t: "bank_exec e c s = (Inr (), t)" "for_op (bank_exec e) cs t = (Inr u, s')" by (auto simp: res_simps)
  have "chain_run (e, s) 0 [c] (e, t)" using run_call[OF run_start _ t(1)] Cons.prems(1) by simp
  moreover have "chain_run (e, t) 0 cs (e, s')" using Cons.IH[OF _ t(2)] Cons.prems(1) by simp
  ultimately show ?case using chain_run_trans by fastforce
qed (auto simp: res_simps intro: run_start)

lemma messages_run:
  assumes "list_all call_ok cs"
    and "for_op (\<lambda>m. case (if is_message m then Some (bank_handler e m) else None) of None \<Rightarrow> fail_op err | Some h \<Rightarrow> h) cs (g, s) = (Inr u, (g', s'))"
  shows "list_all is_message cs \<and> chain_run (e, s) 0 cs (e, s')"
proof -
  have "list_all is_message cs \<and> for_op (bank_exec e) cs s = (Inr u, s')" using assms(2)
  proof (induction cs arbitrary: s)
    case (Cons c cs)
    then show ?case by (fastforce simp: res_simps bank_handler_def split: if_splits prod.splits)
  qed (simp add: res_simps)
  then show ?thesis using calls_run[OF assms(1)] by blast
qed

lemma net_minted_append [simp]: "net_minted (cs @ ds) d = net_minted cs d + net_minted ds d"
  by (simp add: net_minted_def)

text \<open>No message mints or burns.\<close>

lemma net_minted_messages: "list_all is_message cs \<Longrightarrow> net_minted cs d = 0"
  by (induction cs) (auto simp: net_minted_def elim: is_message.elims)

lemma deliverTx_run:
  fixes s :: "('x ante_state_scheme, 'p) tx_state"
  assumes "decodes_ok dec" and "deliverTx (bank_app e dec begins ends maxGas h) raw s = s'"
  shows "\<exists>n\<le>1. \<exists>cs. list_all is_message cs \<and> chain_run (at_block e h, tx_ms s) n cs (at_block e h, tx_ms s')"
proof -
  let ?cfg = "bank_app e dec begins ends maxGas h :: (bank_call sdk_Tx, bank_call, 'x ante_state_scheme, 'p) app_config" and ?e = "at_block e h"
  obtain gi r where run: "runTx ?cfg execModeFinalize NewInfiniteGasMeter raw s = ((gi, r), s')"
    using assms(2) unfolding deliverTx_def by (metis prod.collapse)
  have ante: "tx_ok tx \<and> chain_run (?e, tx_ms s) 1 [] (?e, s1)"
    if d: "dec raw = Inr tx" and a: "ante_result ?cfg execModeFinalize tx NewInfiniteGasMeter (tx_ms s) = Some (g1, s1)" for tx g1 s1
  proof -
    obtain c where c: "NewAnteHandler ?e tx False NewInfiniteGasMeter (tx_ms s) = ((c, Inr ()), s1)"
      using a by (auto simp: ante_result_def bank_app_def split: prod.splits sum.splits)
    have ok: "tx_ok tx" using assms(1) d by (simp add: decodes_ok_def)
    from run_ante[OF run_start ok c] ok show ?thesis by simp
  qed
  show ?thesis
  proof (cases r)
    case (Inl err)
    then have "tx_ms s' = tx_ms s \<or> (\<exists>tx g1. dec raw = Inr tx
        \<and> ante_result ?cfg execModeFinalize tx NewInfiniteGasMeter (tx_ms s) = Some (g1, tx_ms s'))"
      using runTx_stages[OF run] by (simp add: bank_app_def)
    then have "\<exists>n\<le>1. chain_run (?e, tx_ms s) n [] (?e, tx_ms s')" using ante run_start by (metis le_numeral_extra(4) zero_le_one)
    then show ?thesis by (metis list.pred_inject(1))
  next
    case (Inr u)
    then obtain tx g1 s1 g2 where tx: "dec raw = Inr tx" "ante_result ?cfg execModeFinalize tx NewInfiniteGasMeter (tx_ms s) = Some (g1, s1)"
      "msgs_and_post ?cfg execModeFinalize tx (g1, s1) = (Inr (), (g2, tx_ms s'))"
      using runTx_stages[OF run] by (auto simp: bank_app_def)
    have ok: "list_all call_ok (GetMsgs tx)" using assms(1) tx(1) by (simp add: decodes_ok_def)
    have "list_all is_message (GetMsgs tx) \<and> chain_run (?e, s1) 0 (GetMsgs tx) (?e, tx_ms s')"
      using tx(3) by (intro messages_run[OF ok]) (simp add: msgs_and_post_def runMsgs_def bank_app_def res_simps)
    then show ?thesis using chain_run_trans[of "(?e, s1)" 0 "GetMsgs tx" "(?e, tx_ms s')" "(?e, tx_ms s)" 1 "[]"] ante[OF tx(1,2)] by auto
  qed
qed

lemma deliver_txs_run:
  assumes "decodes_ok dec"
  shows "\<exists>n\<le>length txs. \<exists>cs. list_all is_message cs
    \<and> chain_run (at_block e h, tx_ms s) n cs (at_block e h, tx_ms (deliver_txs (bank_app e dec begins ends maxGas h) txs s))"
proof (induction txs arbitrary: s)
  case Nil
  then show ?case by (intro exI[of _ "0 :: nat"] exI[of _ "[]"] conjI) (auto simp: deliver_txs_def intro: run_start)
next
  case (Cons raw txs)
  let ?cfg = "bank_app e dec begins ends maxGas h"
  let ?t = "case dec raw of Inl _ \<Rightarrow> s | Inr _ \<Rightarrow> deliverTx ?cfg raw s"
  have step: "\<exists>n\<le>1. \<exists>cs. list_all is_message cs \<and> chain_run (at_block e h, tx_ms s) n cs (at_block e h, tx_ms ?t)"
  proof (cases "dec raw")
    case (Inl err)
    then show ?thesis by (intro exI[of _ "0 :: nat"] exI[of _ "[]"] conjI) (auto intro: run_start)
  next
    case (Inr tx)
    then show ?thesis using deliverTx_run[OF assms refl, where h = h and raw = raw and s = s] by simp
  qed
  then obtain n m cs ds where "n \<le> 1" "m \<le> length txs" "list_all is_message cs" "list_all is_message ds"
    "chain_run (at_block e h, tx_ms s) n cs (at_block e h, tx_ms ?t)"
    "chain_run (at_block e h, tx_ms ?t) m ds (at_block e h, tx_ms (deliver_txs ?cfg txs ?t))"
    using Cons.IH[of ?t] by blast
  moreover have "deliver_txs ?cfg (raw # txs) s = deliver_txs ?cfg txs ?t" by (simp add: deliver_txs_def) (simp add: bank_app_def)
  ultimately show ?case using chain_run_trans by (intro exI[of _ "n + m"] exI[of _ "cs @ ds"] conjI) auto
qed

lemma FinalizeBlock_run:
  assumes "decodes_ok dec" and "list_all call_ok begins" "list_all call_ok ends"
    and "FinalizeBlock (bank_app e dec begins ends maxGas) req app = (Inr u, app')"
  shows "\<exists>n\<le>length (req_Txs req). \<exists>cs. (\<forall>d. net_minted cs d = net_minted (begins @ ends) d)
    \<and> chain_run (at_block e (req_Header req), finalize_ms app) n cs (at_block e (req_Header req), cms app')"
proof -
  let ?h = "req_Header req" and ?cfg = "bank_app e dec begins ends maxGas (req_Header req)"
  let ?e = "at_block e ?h"
  from assms(4) obtain m t where body: "block_body ?cfg (req_Txs req) \<lparr>tx_ms = finalize_ms app, BlockGasMeter = m, tx_mempool = app_mempool app\<rparr> = (Inr (), t)"
    "cms app' = tx_ms t"
    by (auto simp: FinalizeBlock_def Let_def split: sum.splits prod.splits)
  then obtain s1 where s1: "beginBlock ?cfg \<lparr>tx_ms = finalize_ms app, BlockGasMeter = m, tx_mempool = app_mempool app\<rparr> = (Inr (), s1)"
    "endBlock ?cfg (deliver_txs ?cfg (req_Txs req) s1) = (Inr (), t)"
    by (auto simp: block_body_def res_simps)
  have 1: "chain_run (?e, finalize_ms app) 0 begins (?e, tx_ms s1)"
    using s1(1) by (intro calls_run[OF assms(2)]) (auto simp: beginBlock_def bank_app_def must_op_def on_ms_def split: prod.splits sum.splits)
  have 3: "chain_run (?e, tx_ms (deliver_txs ?cfg (req_Txs req) s1)) 0 ends (?e, tx_ms t)"
    using s1(2) by (intro calls_run[OF assms(3)]) (auto simp: endBlock_def bank_app_def must_op_def on_ms_def split: prod.splits sum.splits)
  obtain n cs where 2: "n \<le> length (req_Txs req)" "list_all is_message cs"
    "chain_run (?e, tx_ms s1) n cs (?e, tx_ms (deliver_txs ?cfg (req_Txs req) s1))"
    using deliver_txs_run[OF assms(1)] by blast
  from chain_run_trans[OF 3 chain_run_trans[OF 2(3) 1]] 2(1) show ?thesis
    using net_minted_messages[OF 2(2)] body(2) by (intro exI[of _ n] exI[of _ "(begins @ cs) @ ends"] conjI) simp_all
qed

lemma at_block_at_block [simp]: "at_block (at_block e h) h' = at_block e h'" "BlockTime (at_block e h) = fst h"
  by (simp_all add: at_block_def)

definition times_ok :: "int64 \<times> int64 \<Rightarrow> (int64 \<times> int64) RequestFinalizeBlock list \<Rightarrow> bool" where
  "times_ok h reqs \<longleftrightarrow> sorted (map (sint \<circ> fst) (h # map req_Header reqs))"

text \<open>The transactions of a list of blocks, and the header of the last one.\<close>

definition block_txs :: "'h RequestFinalizeBlock list \<Rightarrow> bytes list" where
  "block_txs reqs = concat (map req_Txs reqs)"

definition last_header :: "'h \<Rightarrow> 'h RequestFinalizeBlock list \<Rightarrow> 'h" where
  "last_header h reqs = last (h # map req_Header reqs)"

lemma blocks_run:
  assumes "decodes_ok dec" and "list_all call_ok begins" and "list_all call_ok ends" and "times_ok h reqs"
    and "run_blocks (bank_app e dec begins ends maxGas) reqs app = (Inr (), app')"
  shows "\<exists>n\<le>length (block_txs reqs). \<exists>cs. (\<forall>d. net_minted cs d = int (length reqs) * net_minted (begins @ ends) d)
    \<and> chain_run (at_block e h, finalize_ms app) n cs (at_block e (last_header h reqs), finalize_ms app')"
  using assms(4,5)
proof (induction reqs arbitrary: h app)
  case Nil
  then show ?case
    by (intro exI[of _ "0 :: nat"] exI[of _ "[]"] conjI) (auto simp: res_simps block_txs_def last_header_def net_minted_def intro: run_start)
next
  case (Cons req reqs)
  then obtain a1 a2 where a: "FinalizeBlock (bank_app e dec begins ends maxGas) req app = (Inr (), a1)" "Commit a1 = (Inr (), a2)"
    "run_blocks (bank_app e dec begins ends maxGas) reqs a2 = (Inr (), app')" by (auto simp: res_simps)
  let ?h = "req_Header req"
  obtain n cs where n: "n \<le> length (req_Txs req)" "\<forall>d. net_minted cs d = net_minted (begins @ ends) d"
    "chain_run (at_block e ?h, finalize_ms app) n cs (at_block e ?h, cms a1)"
    using FinalizeBlock_run[OF assms(1-3) a(1)] by blast
  have c: "finalize_ms a2 = cms a1" using a(2) by (auto simp: Commit_def finalize_ms_def split: option.splits)
  have t: "times_ok ?h reqs" "sint (fst h) \<le> sint (fst ?h)" using Cons.prems(1) by (auto simp: times_ok_def)
  obtain m ds where m: "m \<le> length (block_txs reqs)" "\<forall>d. net_minted ds d = int (length reqs) * net_minted (begins @ ends) d"
    "chain_run (at_block e ?h, cms a1) m ds (at_block e (last_header ?h reqs), finalize_ms app')"
    using Cons.IH[OF t(1) a(3)] c by auto
  have "chain_run (at_block e h, finalize_ms app) 0 [] (at_block e ?h, finalize_ms app)"
    using run_block[OF run_start, of "at_block e h" ?h "finalize_ms app"] t(2) by simp
  from chain_run_trans[OF m(3) chain_run_trans[OF n(3) this]] n(1,2) m(1,2) show ?case
    by (intro exI[of _ "0 + n + m"] exI[of _ "([] @ cs) @ ds"] conjI) (auto simp: block_txs_def last_header_def algebra_simps)
qed

text \<open>The sample block.\<close>

definition sample_dec :: "bytes \<Rightarrow> bank_call sdk_Tx res" where
  "sample_dec b = (if b = [1] then Inr sample_tx else Inl (Err ''tx parse error''))"

definition sample_app :: "(ante_state, unit) app_state" where
  "sample_app = \<lparr>cms = sample_state, checkState = None, finalizeBlockState = None, app_mempool = (), LastBlockHeight = 4, initialHeight = 0\<rparr>"

definition sample_reqs :: "(int64 \<times> int64) RequestFinalizeBlock list" where
  "sample_reqs = [\<lparr>req_Height = 5, req_Header = (25, 5), req_Txs = [[1], [1], [2]]\<rparr>, \<lparr>req_Height = 6, req_Header = (30, 6), req_Txs = [[1]]\<rparr>]"

lemma sample_blocks: "fst (run_blocks (bank_app sample_ante_env sample_dec [] [] (\<lambda>_. None)) sample_reqs sample_app) = Inr ()"
  by code_simp

lemma sample_decodes: "decodes_ok sample_dec"
  using sample_chain(2) by (auto simp: decodes_ok_def sample_dec_def split: if_splits) (simp add: sample_tx_def wf_coins_def wf_Int_def MaxBitLen_def)



end
