(* ===== verification/Mempool.thy ===== *)
theory Mempool
  imports Ante "HOL-Library.Sublist" "HOL-Library.Multiset"
begin

text \<open>
  The sender-nonce mempool of \<^verbatim>\<open>src/types/mempool/sender_nonce.go\<close>, and the loop of
  \<^verbatim>\<open>src/baseapp/abci_utils.go\<close> that walks over a mempool. The skip lists are those of a library:
  their operations are parameters, with their documented behaviour as \<open>skiplist_ok\<close>. A cursor into a
  skip list is the list of the elements from it on, empty for nil. The generator of random
  numbers is a parameter too.
\<close>

section \<open>Skip lists and random numbers\<close>

record ('l, 'tx) skiplist_api =
  sl_New :: 'l
  sl_Set :: "uint64 \<Rightarrow> 'tx \<Rightarrow> 'l \<Rightarrow> 'l"
  sl_Remove :: "uint64 \<Rightarrow> 'l \<Rightarrow> 'tx option \<times> 'l"
  sl_Len :: "'l \<Rightarrow> nat"
  sl_Front :: "'l \<Rightarrow> (uint64 \<times> 'tx) list"

text \<open>A skip list is a map that is walked in the order of its keys.\<close>

definition skiplist_ok :: "('l, 'tx) skiplist_api \<Rightarrow> bool" where
  "skiplist_ok sl \<longleftrightarrow> sl_Front sl (sl_New sl) = []
     \<and> (\<forall>k v l. kv_wf (sl_Front sl l) \<longrightarrow> sl_Front sl (sl_Set sl k v l) = kv_set (sl_Front sl l) k v)
     \<and> (\<forall>k l. kv_wf (sl_Front sl l) \<longrightarrow> fst (sl_Remove sl k l) = kv_get (sl_Front sl l) k
          \<and> sl_Front sl (snd (sl_Remove sl k l)) = kv_del (sl_Front sl l) k)
     \<and> (\<forall>l. sl_Len sl l = length (sl_Front sl l))"

text \<open>A random number below its argument, which is positive.\<close>

definition Intn_ok :: "('r \<Rightarrow> nat \<Rightarrow> nat \<times> 'r) \<Rightarrow> bool" where
  "Intn_ok Intn \<longleftrightarrow> (\<forall>r n. 0 < n \<longrightarrow> fst (Intn r n) < n)"

section \<open>The mempool\<close>

record 'l SenderNonceMempool =
  snm_senders :: "(string, 'l) kvmap"
  maxTx :: int
  existingTx :: "(string \<times> uint64, unit) kvmap"

definition ErrMempoolTxMaxCapacity :: error where
  "ErrMempoolTxMaxCapacity = Err ''pool reached max tx capacity''"

definition CountTx :: "'l SenderNonceMempool \<Rightarrow> nat" where
  "CountTx p = length (existingTx p)"

text \<open>The sender and the nonce of a transaction: the address of the key of its first signature,
  as a string, and the sequence of the signature.\<close>

definition sender_nonce :: "(bytes \<Rightarrow> string) \<Rightarrow> 'msg sdk_Tx \<Rightarrow> (string \<times> uint64) res" where
  "sender_nonce addr tx =
     bind_r (GetSignaturesV2 tx) (\<lambda>sigs.
       case sigs of
         [] \<Rightarrow> Inl (Err ''tx must have at least one signer'')
       | sig # _ \<Rightarrow> (case sig_PubKey sig of
           None \<Rightarrow> Inl (Panic ''nil pointer dereference'')
         | Some pk \<Rightarrow> Inr (addr pk, sig_Sequence sig)))"

definition NextSenderTx :: "('l, 'tx) skiplist_api \<Rightarrow> string \<Rightarrow> 'l SenderNonceMempool \<Rightarrow> 'tx option res" where
  "NextSenderTx sl sender p =
     (case kv_get (snm_senders p) sender of
        None \<Rightarrow> Inr None
      | Some l \<Rightarrow> (case sl_Front sl l of [] \<Rightarrow> Inl (Panic ''nil pointer dereference'') | (_, tx) # _ \<Rightarrow> Inr (Some tx)))"

definition snm_Insert ::
    "('l, 'msg sdk_Tx) skiplist_api \<Rightarrow> (bytes \<Rightarrow> string) \<Rightarrow> 'msg sdk_Tx \<Rightarrow> ('l SenderNonceMempool, unit) op" where
  "snm_Insert sl addr tx p =
     (if maxTx p > 0 \<and> int (CountTx p) \<ge> maxTx p then (Inl ErrMempoolTxMaxCapacity, p)
      else if maxTx p < 0 then (Inr (), p)
      else case sender_nonce addr tx of
        Inl e \<Rightarrow> (Inl e, p)
      | Inr (sender, nonce) \<Rightarrow>
          let senderTxs = (case kv_get (snm_senders p) sender of Some l \<Rightarrow> l | None \<Rightarrow> sl_New sl) in
          (Inr (), p\<lparr>snm_senders := kv_set (snm_senders p) sender (sl_Set sl nonce tx senderTxs),
             existingTx := kv_set (existingTx p) (sender, nonce) ()\<rparr>))"

definition snm_Remove ::
    "('l, 'msg sdk_Tx) skiplist_api \<Rightarrow> (bytes \<Rightarrow> string) \<Rightarrow> 'msg sdk_Tx \<Rightarrow> ('l SenderNonceMempool, unit) op" where
  "snm_Remove sl addr tx p =
     (case sender_nonce addr tx of
        Inl e \<Rightarrow> (Inl e, p)
      | Inr (sender, nonce) \<Rightarrow>
          (case kv_get (snm_senders p) sender of
             None \<Rightarrow> (Inl ErrTxNotFound, p)
           | Some senderTxs \<Rightarrow>
               (case sl_Remove sl nonce senderTxs of (res, senderTxs) \<Rightarrow>
                  if res = None then (Inl ErrTxNotFound, p)
                  else (Inr (), p\<lparr>snm_senders := if sl_Len sl senderTxs = 0 then kv_del (snm_senders p) sender
                                    else kv_set (snm_senders p) sender senderTxs,
                         existingTx := kv_del (existingTx p) (sender, nonce)\<rparr>))))"

section \<open>Iteration\<close>

record ('r, 'tx) snm_iterator =
  it_senders :: "string list"
  senderCursors :: "string \<Rightarrow> (uint64 \<times> 'tx) list option"
  it_rnd :: 'r
  currentTx :: "(uint64 \<times> 'tx) option"

definition removeAtIndex :: "'a list \<Rightarrow> nat \<Rightarrow> 'a list" where
  "removeAtIndex xs index = take index xs @ drop (Suc index) xs"

lemma removeAtIndex_length: "index < length xs \<Longrightarrow> length (removeAtIndex xs index) < length xs"
  by (simp add: removeAtIndex_def)

text \<open>An index that is out of range makes the code panic.\<close>

function it_Next :: "('r \<Rightarrow> nat \<Rightarrow> nat \<times> 'r) \<Rightarrow> ('r, 'tx) snm_iterator \<Rightarrow> ('r, 'tx) snm_iterator option res" where
  "it_Next Intn i =
     (if it_senders i = [] then Inr None
      else case Intn (it_rnd i) (length (it_senders i)) of (senderIndex, rnd) \<Rightarrow>
        if senderIndex \<ge> length (it_senders i) then Inl index_out_of_range
        else let sender = it_senders i ! senderIndex; rest = removeAtIndex (it_senders i) senderIndex in
          case senderCursors i sender of
            None \<Rightarrow> it_Next Intn (i\<lparr>it_senders := rest, it_rnd := rnd\<rparr>)
          | Some [] \<Rightarrow> Inl (Panic ''nil pointer dereference'')
          | Some (senderCursor # nextCursor) \<Rightarrow>
              Inr (Some (if nextCursor \<noteq> []
                then \<lparr>it_senders = it_senders i, senderCursors = (senderCursors i)(sender \<mapsto> nextCursor), it_rnd = rnd, currentTx = Some senderCursor\<rparr>
                else \<lparr>it_senders = rest, senderCursors = senderCursors i, it_rnd = rnd, currentTx = Some senderCursor\<rparr>)))"
  by pat_completeness auto
termination
  by (relation "measure (\<lambda>(_, i). length (it_senders i))") (auto simp: removeAtIndex_length)

definition it_Tx :: "('r, 'tx) snm_iterator \<Rightarrow> 'tx res" where
  "it_Tx i = (case currentTx i of None \<Rightarrow> Inl (Panic ''nil pointer dereference'') | Some (_, tx) \<Rightarrow> Inr tx)"

text \<open>The list of senders is sorted, the keys of the map in the order of a second skip list.\<close>

definition new_iterator :: "('l, 'tx) skiplist_api \<Rightarrow> 'r \<Rightarrow> 'l SenderNonceMempool \<Rightarrow> ('r, 'tx) snm_iterator" where
  "new_iterator sl rnd p =
     \<lparr>it_senders = map fst (snm_senders p),
      senderCursors = (\<lambda>sender. map_option (sl_Front sl) (kv_get (snm_senders p) sender)), it_rnd = rnd, currentTx = None\<rparr>"

definition snm_Select ::
    "('l, 'tx) skiplist_api \<Rightarrow> ('r \<Rightarrow> nat \<Rightarrow> nat \<times> 'r) \<Rightarrow> 'r \<Rightarrow> 'l SenderNonceMempool \<Rightarrow> ('r, 'tx) snm_iterator option res" where
  "snm_Select sl Intn rnd p = it_Next Intn (new_iterator sl rnd p)"

declare it_Next.simps [simp del]

text \<open>What an iterator still has to visit. Every step uses up one element.\<close>

definition cursor_of :: "('r, 'tx) snm_iterator \<Rightarrow> string \<Rightarrow> (uint64 \<times> 'tx) list" where
  "cursor_of i sender = (case senderCursors i sender of None \<Rightarrow> [] | Some c \<Rightarrow> c)"

definition remaining :: "('r, 'tx) snm_iterator \<Rightarrow> (uint64 \<times> 'tx) multiset" where
  "remaining i = sum_list (map (\<lambda>sender. mset (cursor_of i sender)) (it_senders i))"

lemma sum_remove:
  fixes f :: "'a \<Rightarrow> 'b :: comm_monoid_add"
  assumes "k < length xs"
  shows "sum_list (map f xs) = f (xs ! k) + sum_list (map f (removeAtIndex xs k))"
proof -
  have "xs = take k xs @ xs ! k # drop (Suc k) xs" using assms by (rule id_take_nth_drop)
  then have "sum_list (map f xs) = sum_list (map f (take k xs @ xs ! k # drop (Suc k) xs))" by simp
  then show ?thesis by (simp add: removeAtIndex_def add.left_commute)
qed

lemma set_removeAtIndex: "set (removeAtIndex xs k) \<subseteq> set xs"
  by (auto simp: removeAtIndex_def dest: in_set_takeD in_set_dropD)

lemma sum_size_mono:
  fixes f g :: "'a \<Rightarrow> 'b multiset"
  shows "(\<And>x. x \<in> set xs \<Longrightarrow> size (f x) \<le> size (g x)) \<Longrightarrow> x0 \<in> set xs \<Longrightarrow> size (f x0) < size (g x0)
   \<Longrightarrow> size (sum_list (map f xs)) < size (sum_list (map g xs))"
proof (induction xs)
  case (Cons x xs)
  have le: "size (sum_list (map f xs)) \<le> size (sum_list (map g xs))"
    using Cons.prems(1) by (induction xs) (auto intro!: add_mono)
  show ?case
  proof (cases "x0 = x")
    case True
    then show ?thesis using le Cons.prems(3) by simp
  next
    case False
    then have "size (sum_list (map f xs)) < size (sum_list (map g xs))" using Cons by simp
    then show ?thesis using Cons.prems(1)[of x] by simp
  qed
qed simp

lemma it_Next_shrinks: "it_Next Intn i = Inr (Some j) \<Longrightarrow> size (remaining j) < size (remaining i)"
proof (induction Intn i rule: it_Next.induct)
  case (1 Intn i)
  obtain k rnd where k: "Intn (it_rnd i) (length (it_senders i)) = (k, rnd)" by fastforce
  let ?s = "it_senders i ! k" and ?rest = "removeAtIndex (it_senders i) k"
  have ne: "it_senders i \<noteq> []" and lt: "k < length (it_senders i)"
    using 1(2) k by (auto simp: it_Next.simps[of Intn i] split: if_splits)
  have split: "remaining i = mset (cursor_of i ?s) + sum_list (map (\<lambda>sender. mset (cursor_of i sender)) ?rest)"
    unfolding remaining_def by (rule sum_remove[OF lt])
  show ?case
  proof (cases "senderCursors i ?s")
    case None
    let ?i = "i\<lparr>it_senders := ?rest, it_rnd := rnd\<rparr>"
    have "it_Next Intn ?i = Inr (Some j)" using 1(2) k ne lt None by (simp add: it_Next.simps[of Intn i])
    then have "size (remaining j) < size (remaining ?i)" using 1(1)[OF ne k[symmetric] _ refl refl None] lt by simp
    moreover have "remaining ?i = sum_list (map (\<lambda>sender. mset (cursor_of i sender)) ?rest)" by (simp add: remaining_def cursor_of_def)
    ultimately show ?thesis using split by simp
  next
    case (Some c)
    then obtain x xs where c: "c = x # xs" using 1(2) k ne lt by (auto simp: it_Next.simps[of Intn i] Let_def split: list.splits)
    show ?thesis
    proof (cases "xs = []")
      case True
      then have "j = \<lparr>it_senders = ?rest, senderCursors = senderCursors i, it_rnd = rnd, currentTx = Some x\<rparr>"
        using 1(2) k ne lt Some c by (simp add: it_Next.simps[of Intn i])
      then have "remaining j = sum_list (map (\<lambda>sender. mset (cursor_of i sender)) ?rest)" by (simp add: remaining_def cursor_of_def)
      moreover have "cursor_of i ?s = c" using Some by (simp add: cursor_of_def)
      ultimately show ?thesis using split c by simp
    next
      case False
      then have j: "j = \<lparr>it_senders = it_senders i, senderCursors = (senderCursors i)(?s \<mapsto> xs), it_rnd = rnd, currentTx = Some x\<rparr>"
        using 1(2) k ne lt Some c by (simp add: it_Next.simps[of Intn i])
      have "?s \<in> set (it_senders i)" using lt by simp
      then show ?thesis unfolding remaining_def j snm_iterator.simps
        using Some c by (intro sum_size_mono[of _ _ _ ?s]) (auto simp: cursor_of_def)
    qed
  qed
qed

text \<open>The loop over all transactions: \<^verbatim>\<open>for it != nil { ... it.Tx() ... it = it.Next() }\<close>.\<close>

function drain :: "('r \<Rightarrow> nat \<Rightarrow> nat \<times> 'r) \<Rightarrow> ('r, 'tx) snm_iterator option \<Rightarrow> 'tx list res" where
  "drain Intn None = Inr []"
| "drain Intn (Some i) =
     (case it_Tx i of
        Inl e \<Rightarrow> Inl e
      | Inr tx \<Rightarrow> (case it_Next Intn i of
          Inl e \<Rightarrow> Inl e
        | Inr j \<Rightarrow> (case drain Intn j of Inl e \<Rightarrow> Inl e | Inr txs \<Rightarrow> Inr (tx # txs))))"
  by pat_completeness auto
termination
proof (relation "measure (\<lambda>(_, i). case i of None \<Rightarrow> 0 | Some i \<Rightarrow> Suc (size (remaining i)))", goal_cases)
  case (2 Intn i tx j)
  then show ?case by (cases j) (auto simp: it_Next_shrinks)
qed simp

section \<open>The iteration visits everything once\<close>

definition it_ok :: "('r, 'tx) snm_iterator \<Rightarrow> bool" where
  "it_ok i \<longleftrightarrow> distinct (it_senders i) \<and> (\<forall>sender\<in>set (it_senders i). \<exists>c. senderCursors i sender = Some c \<and> c \<noteq> [])"

definition left_of :: "('r, 'tx) snm_iterator \<Rightarrow> string \<Rightarrow> (uint64 \<times> 'tx) list" where
  "left_of i sender = (if sender \<in> set (it_senders i) then cursor_of i sender else [])"

lemma distinct_removeAtIndex:
  assumes "distinct xs" and "k < length xs"
  shows "distinct (removeAtIndex xs k)" "set (removeAtIndex xs k) = set xs - {xs ! k}"
proof -
  have xs: "xs = take k xs @ xs ! k # drop (Suc k) xs" using assms(2) by (rule id_take_nth_drop)
  then have "distinct (take k xs @ xs ! k # drop (Suc k) xs)" using assms(1) by simp
  moreover have "set xs = set (take k xs) \<union> {xs ! k} \<union> set (drop (Suc k) xs)" by (subst xs) auto
  ultimately show "distinct (removeAtIndex xs k)" "set (removeAtIndex xs k) = set xs - {xs ! k}"
    unfolding removeAtIndex_def by auto
qed

lemma remaining_left:
  assumes "distinct (it_senders j)" and "distinct xs" and "set (it_senders j) \<subseteq> set xs"
  shows "remaining j = sum_list (map (\<lambda>sender. mset (left_of j sender)) xs)"
proof -
  have "remaining j = sum_list (map (\<lambda>sender. mset (left_of j sender)) (it_senders j))"
    by (auto simp: remaining_def left_of_def intro!: arg_cong[of _ _ sum_list])
  also have "\<dots> = (\<Sum>sender\<in>set (it_senders j). mset (left_of j sender))" using assms(1) by (simp add: sum_list_distinct_conv_sum_set)
  also have "\<dots> = (\<Sum>sender\<in>set xs. mset (left_of j sender))" using assms(3) by (intro sum.mono_neutral_left) (auto simp: left_of_def)
  also have "\<dots> = sum_list (map (\<lambda>sender. mset (left_of j sender)) xs)" using assms(2) by (simp add: sum_list_distinct_conv_sum_set)
  finally show ?thesis .
qed

text \<open>One element of one sender less.\<close>

lemma remaining_step:
  assumes "it_ok i" and "it_ok j" and "set (it_senders j) \<subseteq> set (it_senders i)" and "left_of i s = x # left_of j s"
    and "\<And>s'. s' \<noteq> s \<Longrightarrow> left_of j s' = left_of i s'"
  shows "remaining i = add_mset x (remaining j)"
proof -
  have d: "distinct (it_senders i)" "distinct (it_senders j)" using assms(1,2) by (simp_all add: it_ok_def)
  have "s \<in> set (it_senders i)" using assms(4) by (auto simp: left_of_def split: if_splits)
  then obtain k where k: "k < length (it_senders i)" "it_senders i ! k = s" by (auto simp: in_set_conv_nth)
  let ?rest = "removeAtIndex (it_senders i) k"
  have "remaining i = mset (left_of i s) + sum_list (map (\<lambda>sender. mset (left_of i sender)) ?rest)"
    using remaining_left[OF d(1,1)] sum_remove[OF k(1)] k(2) by simp
  moreover have "remaining j = mset (left_of j s) + sum_list (map (\<lambda>sender. mset (left_of j sender)) ?rest)"
    using remaining_left[OF d(2,1) assms(3)] sum_remove[OF k(1)] k(2) by simp
  moreover have "map (\<lambda>sender. mset (left_of j sender)) ?rest = map (\<lambda>sender. mset (left_of i sender)) ?rest"
    using distinct_removeAtIndex(2)[OF d(1) k(1)] k(2) assms(5) by (intro map_cong) auto
  ultimately show ?thesis using assms(4) by simp
qed

lemma it_Next_ok:
  assumes rnd: "Intn_ok Intn" and ok: "it_ok i" and ne: "it_senders i \<noteq> []"
  obtains j x s where "it_Next Intn i = Inr (Some j)" "currentTx j = Some x" "it_ok j" "left_of i s = x # left_of j s"
    "\<And>s'. s' \<noteq> s \<Longrightarrow> left_of j s' = left_of i s'" "remaining i = add_mset x (remaining j)"
proof -
  obtain k r where k: "Intn (it_rnd i) (length (it_senders i)) = (k, r)" by fastforce
  then have lt: "k < length (it_senders i)" using rnd ne unfolding Intn_ok_def by (metis fst_conv length_greater_0_conv)
  let ?s = "it_senders i ! k" and ?rest = "removeAtIndex (it_senders i) k"
  have d: "distinct (it_senders i)" and s: "?s \<in> set (it_senders i)" using ok lt by (auto simp: it_ok_def)
  obtain x xs where c: "senderCursors i ?s = Some (x # xs)" using ok s unfolding it_ok_def by (metis neq_Nil_conv)
  note rest = distinct_removeAtIndex[OF d lt]
  obtain j where j: "j = (if xs \<noteq> []
    then \<lparr>it_senders = it_senders i, senderCursors = (senderCursors i)(?s \<mapsto> xs), it_rnd = r, currentTx = Some x\<rparr>
    else \<lparr>it_senders = ?rest, senderCursors = senderCursors i, it_rnd = r, currentTx = Some x\<rparr>)" by blast
  have run: "it_Next Intn i = Inr (Some j)" "currentTx j = Some x" using k ne lt c by (simp_all add: j it_Next.simps[of Intn i])
  have left: "left_of i ?s = x # left_of j ?s" "\<And>s'. s' \<noteq> ?s \<Longrightarrow> left_of j s' = left_of i s'"
    using s c rest by (auto simp: j left_of_def cursor_of_def)
  have "it_ok j" "set (it_senders j) \<subseteq> set (it_senders i)" using ok rest by (auto simp: j it_ok_def)
  from that[OF run this(1) left] remaining_step[OF ok this left] show thesis by blast
qed

text \<open>From a sound iterator the loop ends, visits what is left, and keeps the order of a sender.\<close>

lemma drain_ok:
  assumes "Intn_ok Intn" and "it_ok i"
  shows "\<exists>j xs. it_Next Intn i = Inr j \<and> drain Intn j = Inr (map snd xs) \<and> mset xs = remaining i \<and> (\<forall>s. subseq (left_of i s) xs)"
  using assms(2)
proof (induction "size (remaining i)" arbitrary: i rule: less_induct)
  case less
  show ?case
  proof (cases "it_senders i = []")
    case True
    then show ?thesis by (intro exI[of _ None] exI[of _ "[]"]) (simp add: it_Next.simps remaining_def left_of_def)
  next
    case False
    obtain j x s where j: "it_Next Intn i = Inr (Some j)" "currentTx j = Some x" "it_ok j" "left_of i s = x # left_of j s"
      "\<And>s'. s' \<noteq> s \<Longrightarrow> left_of j s' = left_of i s'" "remaining i = add_mset x (remaining j)"
      using it_Next_ok[OF assms(1) less.prems False] by metis
    obtain j' xs where IH: "it_Next Intn j = Inr j'" "drain Intn j' = Inr (map snd xs)" "mset xs = remaining j" "\<forall>s. subseq (left_of j s) xs"
      using less.hyps[OF _ j(3)] j(6) by auto
    have "drain Intn (Some j) = Inr (map snd (x # xs))" using j(2) IH(1,2) by (cases x) (simp add: it_Tx_def)
    moreover have "subseq (left_of i s') (x # xs)" for s'
      using j(4) j(5)[of s', symmetric] IH(4) by (cases "s' = s") (auto intro: subseq_Cons')
    ultimately show ?thesis using j(1,6) IH(3) by (intro exI[of _ "Some j"] exI[of _ "x # xs"]) simp
  qed
qed

section \<open>The mempool as a map\<close>

text \<open>The abstract mempool: at most one transaction for a sender and a nonce.\<close>

definition pool_get :: "('l, 'tx) skiplist_api \<Rightarrow> 'l SenderNonceMempool \<Rightarrow> string \<times> uint64 \<Rightarrow> 'tx option" where
  "pool_get sl p k = (case kv_get (snm_senders p) (fst k) of None \<Rightarrow> None | Some l \<Rightarrow> kv_get (sl_Front sl l) (snd k))"

definition pool_ok :: "('l, 'tx) skiplist_api \<Rightarrow> 'l SenderNonceMempool \<Rightarrow> bool" where
  "pool_ok sl p \<longleftrightarrow> kv_wf (snm_senders p) \<and> kv_wf (existingTx p)
     \<and> (\<forall>sender l. kv_get (snm_senders p) sender = Some l \<longrightarrow> sl_Front sl l \<noteq> [] \<and> kv_wf (sl_Front sl l))
     \<and> (\<forall>k. kv_get (existingTx p) k = Some () \<longleftrightarrow> pool_get sl p k \<noteq> None)"

lemma pool_ok_new: "pool_ok sl \<lparr>snm_senders = [], maxTx = m, existingTx = []\<rparr>"
  by (simp add: pool_ok_def pool_get_def)

lemma pool_get_new: "pool_get sl \<lparr>snm_senders = [], maxTx = m, existingTx = []\<rparr> = Map.empty"
  by (simp add: fun_eq_iff pool_get_def)

lemma kv_set_ne [simp]: "kv_set m k v \<noteq> []"
  by (cases m) (auto split: if_splits)

lemma pool_insert:
  assumes sl: "skiplist_ok sl" and ok: "pool_ok sl p" and tx: "sender_nonce addr tx = Inr k"
    and room: "\<not> (maxTx p > 0 \<and> int (CountTx p) \<ge> maxTx p)" "\<not> maxTx p < 0"
  shows "\<exists>p'. snm_Insert sl addr tx p = (Inr (), p') \<and> pool_ok sl p' \<and> pool_get sl p' = (pool_get sl p)(k \<mapsto> tx) \<and> maxTx p' = maxTx p"
proof -
  obtain sender nonce where k: "k = (sender, nonce)" by fastforce
  define l where "l = (case kv_get (snm_senders p) sender of Some l \<Rightarrow> l | None \<Rightarrow> sl_New sl)"
  let ?p = "p\<lparr>snm_senders := kv_set (snm_senders p) sender (sl_Set sl nonce tx l), existingTx := kv_set (existingTx p) k ()\<rparr>"
  have run: "snm_Insert sl addr tx p = (Inr (), ?p)" using tx room by (auto simp: snm_Insert_def k l_def Let_def)
  have wf: "kv_wf (snm_senders p)" "kv_wf (existingTx p)" using ok by (simp_all add: pool_ok_def)
  have l: "kv_wf (sl_Front sl l)" "kv_get (sl_Front sl l) n = pool_get sl p (sender, n)" for n
    using sl ok by (auto simp: l_def pool_ok_def pool_get_def skiplist_ok_def split: option.splits)
  have front: "sl_Front sl (sl_Set sl nonce tx l) = kv_set (sl_Front sl l) nonce tx" using sl l(1) by (simp add: skiplist_ok_def)
  have get: "pool_get sl ?p = (pool_get sl p)(k \<mapsto> tx)"
  proof
    fix k' :: "string \<times> uint64"
    obtain s n where k': "k' = (s, n)" by fastforce
    show "pool_get sl ?p k' = ((pool_get sl p)(k \<mapsto> tx)) k'"
    proof (cases "s = sender")
      case True
      then have "pool_get sl ?p k' = (if nonce = n then Some tx else pool_get sl p k')"
        using l by (simp add: pool_get_def[of sl ?p] k' kv_get_set wf front kv.get_set)
      then show ?thesis using True by (simp add: k k')
    next
      case False
      then show ?thesis by (simp add: pool_get_def k k' kv_get_set wf)
    qed
  qed
  have "pool_ok sl ?p" unfolding pool_ok_def get
    using ok wf l(1) front by (auto simp: pool_ok_def kv_wf_set kv_get_set split: if_splits)
  with run get show ?thesis by auto
qed

lemma pool_remove:
  assumes sl: "skiplist_ok sl" and ok: "pool_ok sl p" and tx: "sender_nonce addr tx = Inr k"
  shows "if pool_get sl p k = None then snm_Remove sl addr tx p = (Inl ErrTxNotFound, p)
    else \<exists>p'. snm_Remove sl addr tx p = (Inr (), p') \<and> pool_ok sl p' \<and> pool_get sl p' = (pool_get sl p)(k := None) \<and> maxTx p' = maxTx p"
proof -
  obtain sender nonce where k: "k = (sender, nonce)" by fastforce
  have rm: "fst (sl_Remove sl n l) = kv_get (sl_Front sl l) n" "sl_Front sl (snd (sl_Remove sl n l)) = kv_del (sl_Front sl l) n"
    if "kv_get (snm_senders p) s = Some l" for n l s
    using sl ok that by (auto simp: skiplist_ok_def pool_ok_def)
  show ?thesis
  proof (cases "pool_get sl p k")
    case None
    then show ?thesis using tx rm
      by (auto simp: snm_Remove_def pool_get_def k split: option.splits prod.splits) (metis fst_conv option.distinct(1))+
  next
    case (Some v)
    then obtain l where l: "kv_get (snm_senders p) sender = Some l" "kv_get (sl_Front sl l) nonce = Some v"
      by (auto simp: pool_get_def k split: option.splits)
    let ?l = "snd (sl_Remove sl nonce l)"
    let ?p = "p\<lparr>snm_senders := if sl_Len sl ?l = 0 then kv_del (snm_senders p) sender else kv_set (snm_senders p) sender ?l,
      existingTx := kv_del (existingTx p) k\<rparr>"
    have run: "snm_Remove sl addr tx p = (Inr (), ?p)" using tx l rm(1)[OF l(1), of nonce] by (auto simp: snm_Remove_def k split: prod.splits)
    have wf: "kv_wf (snm_senders p)" "kv_wf (existingTx p)" "kv_wf (sl_Front sl l)" using ok l(1) by (simp_all add: pool_ok_def)
    have len: "sl_Len sl ?l = 0 \<longleftrightarrow> kv_del (sl_Front sl l) nonce = []" using sl rm(2)[OF l(1)] by (simp add: skiplist_ok_def)
    have del: "kv_del (sl_Front sl l) nonce = [] \<Longrightarrow> kv_get (sl_Front sl l) n = None \<or> n = nonce" for n
      using kv_get_del[OF wf(3), of nonce n] by (auto split: if_splits)
    have get: "pool_get sl ?p = (pool_get sl p)(k := None)"
    proof
      fix k' :: "string \<times> uint64"
      obtain s n where k': "k' = (s, n)" by fastforce
      show "pool_get sl ?p k' = ((pool_get sl p)(k := None)) k'"
        using l(1) del[of n] by (auto simp: pool_get_def k k' kv_get_set kv_get_del wf len rm(2)[OF l(1)])
    qed
    have "pool_ok sl ?p" unfolding pool_ok_def get
      using ok wf by (auto simp: pool_ok_def kv_wf_set kv_wf_del kv_get_set kv_get_del len rm(2)[OF l(1)] split: if_splits)
    then show ?thesis using Some run get by auto
  qed
qed

lemma distinct_tagged:
  "distinct (map fst ss) \<Longrightarrow> (\<And>s l. (s, l) \<in> set ss \<Longrightarrow> distinct (map fst (F l))) \<Longrightarrow>
   distinct (concat (map (\<lambda>(s, l). map (\<lambda>(n, _). (s, n)) (F l)) ss))"
proof (induction ss)
  case (Cons a ss)
  obtain s l where a: "a = (s, l)" by fastforce
  have "distinct (map fst (F l))" using Cons.prems(2)[of s l] a by simp
  then have "distinct (map (\<lambda>(n, _). (s, n)) (F l))" by (auto simp: distinct_map inj_on_def case_prod_unfold)
  moreover have "distinct (concat (map (\<lambda>(s, l). map (\<lambda>(n, _). (s, n)) (F l)) ss))"
    using Cons.prems(1) by (intro Cons.IH) (auto intro: Cons.prems(2))
  moreover have "set (map (\<lambda>(n, _). (s, n)) (F l)) \<inter> set (concat (map (\<lambda>(s, l). map (\<lambda>(n, _). (s, n)) (F l)) ss)) = {}"
    using Cons.prems(1) a by force
  ultimately show ?case by (simp add: a)
qed simp

text \<open>The counter: as many entries as the skip lists have elements.\<close>

lemma CountTx_sum:
  assumes ok: "pool_ok sl p"
  shows "CountTx p = sum_list (map (\<lambda>(_, l). length (sl_Front sl l)) (snm_senders p))"
proof -
  let ?keys = "concat (map (\<lambda>(s, l). map (\<lambda>(n, _). (s, n)) (sl_Front sl l)) (snm_senders p))"
  have wf: "kv_wf (snm_senders p)" "kv_wf (existingTx p)" using ok by (simp_all add: pool_ok_def)
  have get: "(s, l) \<in> set (snm_senders p) \<longleftrightarrow> kv_get (snm_senders p) s = Some l" for s l using kv.in_items[OF wf(1)] .
  have front: "kv_get (snm_senders p) s = Some l \<Longrightarrow> (n, v) \<in> set (sl_Front sl l) \<longleftrightarrow> kv_get (sl_Front sl l) n = Some v" for s l n v
    using ok by (intro kv.in_items) (simp add: pool_ok_def)
  have "kv_get (existingTx p) k = Some () \<longleftrightarrow> pool_get sl p k \<noteq> None" for k using ok unfolding pool_ok_def by blast
  then have "{k. kv_get (existingTx p) k \<noteq> None} = {k. pool_get sl p k \<noteq> None}" by auto
  then have "set (map fst (existingTx p)) = {k. pool_get sl p k \<noteq> None}" using kv.keys_items[OF wf(2)] by simp
  also have "\<dots> = set ?keys"
    by (force simp: pool_get_def get front split: option.splits)
  finally have eq: "card (set (map fst (existingTx p))) = card (set ?keys)" by (rule arg_cong)
  have d: "distinct ?keys"
  proof (rule distinct_tagged[OF kv.distinct_keys[OF wf(1)]])
    fix s l
    assume "(s, l) \<in> set (snm_senders p)"
    then have "kv_wf (sl_Front sl l)" using ok get by (auto simp: pool_ok_def)
    then show "distinct (map fst (sl_Front sl l))" by (rule kv.distinct_keys)
  qed
  have "length (existingTx p) = length ?keys"
    using eq distinct_card[OF d] distinct_card[OF kv.distinct_keys[OF wf(2)]] by simp
  then show ?thesis by (simp add: CountTx_def length_concat comp_def case_prod_unfold)
qed

text \<open>The iterator of \<open>Select\<close> starts with everything in the mempool.\<close>

lemma new_iterator_ok:
  assumes ok: "pool_ok sl p"
  shows "it_ok (new_iterator sl rnd p)"
    "remaining (new_iterator sl rnd p) = sum_list (map (\<lambda>(_, l). mset (sl_Front sl l)) (snm_senders p))"
    "\<And>s l. (s, l) \<in> set (snm_senders p) \<Longrightarrow> left_of (new_iterator sl rnd p) s = sl_Front sl l \<and> kv_wf (sl_Front sl l)"
proof -
  let ?i = "new_iterator sl rnd p"
  have wf: "kv_wf (snm_senders p)" and ne: "\<And>s l. kv_get (snm_senders p) s = Some l \<Longrightarrow> sl_Front sl l \<noteq> [] \<and> kv_wf (sl_Front sl l)"
    using ok by (auto simp: pool_ok_def)
  have get: "(s, l) \<in> set (snm_senders p) \<Longrightarrow> kv_get (snm_senders p) s = Some l" for s l using kv.in_items[OF wf] by blast
  show "it_ok ?i" using kv.distinct_keys[OF wf] get ne by (fastforce simp: it_ok_def new_iterator_def)
  have cur: "cursor_of ?i s = sl_Front sl l" if "(s, l) \<in> set (snm_senders p)" for s l
    using get[OF that] by (simp add: cursor_of_def new_iterator_def)
  then show "remaining ?i = sum_list (map (\<lambda>(_, l). mset (sl_Front sl l)) (snm_senders p))"
    by (auto simp: remaining_def new_iterator_def intro!: arg_cong[of _ _ sum_list])
  show "left_of ?i s = sl_Front sl l \<and> kv_wf (sl_Front sl l)" if m: "(s, l) \<in> set (snm_senders p)" for s l
  proof -
    have "s \<in> set (it_senders ?i)" using imageI[OF m, of fst] by (simp add: new_iterator_def)
    then show ?thesis using cur[OF m] ne[OF get[OF m]] unfolding left_of_def by (simp only: if_True)
  qed
qed

lemma pool_get_front:
  assumes ok: "pool_ok sl p" and m: "(s, l) \<in> set (snm_senders p)" "(n, tx) \<in> set (sl_Front sl l)"
  shows "pool_get sl p (s, n) = Some tx"
proof -
  have "kv_get (snm_senders p) s = Some l" using ok m(1) kv.in_items[of "snm_senders p" s l] by (simp add: pool_ok_def)
  moreover have "kv_wf (sl_Front sl l)" using calculation ok by (simp add: pool_ok_def)
  ultimately show ?thesis using m(2) kv.in_items[of "sl_Front sl l" n tx] by (simp add: pool_get_def)
qed

text \<open>Whether the mempool refuses to remove a transaction does not depend on what it holds.\<close>

lemma snm_blind:
  assumes "mempool_Remove cfg = snm_Remove sl addr"
  shows "pool_blind cfg"
  unfolding pool_blind_def assms
proof
  fix tx
  show "(\<forall>p. fst (snm_Remove sl addr tx p) \<in> {Inr (), Inl ErrTxNotFound})
    \<or> (\<exists>e. e \<noteq> ErrTxNotFound \<and> (\<forall>p. fst (snm_Remove sl addr tx p) = Inl e))"
  proof (cases "sender_nonce addr tx")
    case (Inl e)
    then show ?thesis by (cases "e = ErrTxNotFound") (simp_all add: snm_Remove_def)
  next
    case (Inr k)
    then have "fst (snm_Remove sl addr tx p) \<in> {Inr (), Inl ErrTxNotFound}" for p
      by (simp add: snm_Remove_def split: prod.splits option.splits)
    then show ?thesis by blast
  qed
qed

section \<open>Claims\<close>

text \<open>Skip lists that satisfy the contract, and a generator that always picks the first.\<close>

definition list_api :: "((uint64 \<times> 'tx) list, 'tx) skiplist_api" where
  "list_api = \<lparr>sl_New = [], sl_Set = (\<lambda>k v l. kv_set l k v), sl_Remove = (\<lambda>k l. (kv_get l k, kv_del l k)), sl_Len = length, sl_Front = (\<lambda>l. l)\<rparr>"

lemma list_api_ok: "skiplist_ok list_api"
  by (simp add: skiplist_ok_def list_api_def)

definition pick_first :: "unit \<Rightarrow> nat \<Rightarrow> nat \<times> unit" where
  "pick_first r n = (0, r)"

lemma pick_first_ok: "Intn_ok pick_first"
  by (simp add: Intn_ok_def pick_first_def)

definition sample_pool :: "(uint64 \<times> string) list SenderNonceMempool" where
  "sample_pool = \<lparr>snm_senders = [(''a'', [(1, ''x''), (4, ''y'')]), (''b'', [(1, ''z'')])], maxTx = 0,
     existingTx = [((''a'', 1), ()), ((''a'', 4), ()), ((''b'', 1), ())]\<rparr>"

lemma sample_pool_ok: "pool_ok list_api sample_pool"
proof -
  have wf: "kv_wf (snm_senders sample_pool)" "kv_wf (existingTx sample_pool)"
    by (simp_all add: sample_pool_def less_prod_def)
  have front: "sl_Front list_api l = l" for l by (simp add: list_api_def)
  have senders: "kv_get (snm_senders sample_pool) s = (if s = ''a'' then Some [(1, ''x''), (4, ''y'')] else if s = ''b'' then Some [(1, ''z'')] else None)" for s
    using kv_get_map_of[OF wf(1), of s] by (simp add: sample_pool_def)
  have ex: "kv_get (existingTx sample_pool) (s, n) = (if s = ''a'' \<and> n = 1 \<or> s = ''a'' \<and> n = 4 \<or> s = ''b'' \<and> n = 1 then Some () else None)" for s n
    using kv_get_map_of[OF wf(2), of "(s, n)"] by (simp add: sample_pool_def)
  have "kv_get (existingTx sample_pool) k = Some () \<longleftrightarrow> pool_get list_api sample_pool k \<noteq> None" for k
    by (cases k) (simp add: ex pool_get_def senders front)
  then show ?thesis using wf by (simp add: pool_ok_def senders front)
qed

text \<open>C11: iterating over the mempool ends and misses nothing. Whatever senders the generator
  draws, the loop over \<open>Select\<close> and \<open>Next\<close> ends without a panic after exactly \<open>CountTx\<close>
  transactions. They are the transactions of the mempool, each once, and the transactions of
  every sender come in the order of their nonces.\<close>

theorem snm_iteration:
  assumes "Intn_ok Intn" and "pool_ok sl p"
  shows "\<exists>it xs. snm_Select sl Intn rnd p = Inr it \<and> drain Intn it = Inr (map snd xs) \<and> length xs = CountTx p
    \<and> mset xs = sum_list (map (\<lambda>(_, l). mset (sl_Front sl l)) (snm_senders p))
    \<and> (\<forall>(_, l)\<in>set (snm_senders p). kv_wf (sl_Front sl l) \<and> subseq (sl_Front sl l) xs)"
proof -
  note i = new_iterator_ok[OF assms(2), where rnd = rnd]
  obtain j xs where j: "it_Next Intn (new_iterator sl rnd p) = Inr j" "drain Intn j = Inr (map snd xs)"
    "mset xs = remaining (new_iterator sl rnd p)" "\<forall>s. subseq (left_of (new_iterator sl rnd p) s) xs"
    using drain_ok[OF assms(1) i(1)] by blast
  have "size (sum_list (map (\<lambda>(_, l). mset (sl_Front sl l)) ss)) = sum_list (map (\<lambda>(_, l). length (sl_Front sl l)) ss)" for ss
    by (induction ss) auto
  then have "length xs = CountTx p" using j(3) i(2) CountTx_sum[OF assms(2)] by (metis size_mset)
  moreover have "kv_wf (sl_Front sl l) \<and> subseq (sl_Front sl l) xs" if "(s, l) \<in> set (snm_senders p)" for s l
    using i(3)[OF that] spec[OF j(4), of s] by simp
  ultimately show ?thesis using j i(2) by (auto simp: snm_Select_def)
qed

lemma snm_iteration_witness:
  "\<exists>it xs. snm_Select list_api pick_first () sample_pool = Inr it \<and> drain pick_first it = Inr (map snd xs) \<and> length xs = 3
     \<and> subseq [(1 :: uint64, ''x''), (4, ''y'')] xs"
proof -
  have p: "CountTx sample_pool = 3" "(''a'', [(1, ''x''), (4, ''y'')]) \<in> set (snm_senders sample_pool)"
    by (simp_all add: CountTx_def sample_pool_def)
  from snm_iteration[OF pick_first_ok sample_pool_ok, of "()"] obtain it xs where
    it: "snm_Select list_api pick_first () sample_pool = Inr it" "drain pick_first it = Inr (map snd xs)" "length xs = CountTx sample_pool"
    "\<forall>(_, l)\<in>set (snm_senders sample_pool). kv_wf (sl_Front list_api l) \<and> subseq (sl_Front list_api l) xs" by blast
  have "subseq [(1, ''x''), (4, ''y'')] xs" using bspec[OF it(4) p(2)] by (simp add: list_api_def)
  with it p(1) show ?thesis by auto
qed

lemma kv_set_length: "length (kv_set m k v) \<le> Suc (length m)"
  by (induction m k v rule: kv_set.induct) auto

lemma kv_del_length: "length (kv_del m k) \<le> length m"
  by (induction m k rule: kv_del.induct) auto

text \<open>C17: the mempool is a bounded map from sender and nonce to transaction. \<open>Insert\<close> refuses at
  capacity, ignores the transaction if the capacity is negative, refuses a transaction without
  a signer, and otherwise sets the entry of the transaction, replacing one with the same nonce.
  \<open>Remove\<close> deletes the entry if there is one and reports the transaction as not found otherwise.
  Both keep the skip lists and the counter consistent, and no insertion exceeds the capacity.\<close>

theorem snm_map:
  assumes "skiplist_ok sl" and "pool_ok sl p"
  shows "(case snm_Insert sl addr tx p of (r, p') \<Rightarrow> pool_ok sl p' \<and> (if 0 < maxTx p \<and> maxTx p \<le> int (CountTx p) then r = Inl ErrMempoolTxMaxCapacity \<and> p' = p
        else if maxTx p < 0 then r = Inr () \<and> p' = p
        else case sender_nonce addr tx of Inl e \<Rightarrow> r = Inl e \<and> p' = p
        | Inr k \<Rightarrow> r = Inr () \<and> pool_get sl p' = (pool_get sl p)(k \<mapsto> tx) \<and> (0 < maxTx p \<longrightarrow> int (CountTx p') \<le> maxTx p')))
    \<and> (case snm_Remove sl addr tx p of (r, p') \<Rightarrow> pool_ok sl p' \<and> (case sender_nonce addr tx of Inl e \<Rightarrow> r = Inl e \<and> p' = p
        | Inr k \<Rightarrow> r = (if pool_get sl p k = None then Inl ErrTxNotFound else Inr ()) \<and> pool_get sl p' = (pool_get sl p)(k := None)))"
proof (intro conjI)
  show "case snm_Insert sl addr tx p of (r, p') \<Rightarrow> pool_ok sl p' \<and> (if 0 < maxTx p \<and> maxTx p \<le> int (CountTx p) then r = Inl ErrMempoolTxMaxCapacity \<and> p' = p
        else if maxTx p < 0 then r = Inr () \<and> p' = p
        else case sender_nonce addr tx of Inl e \<Rightarrow> r = Inl e \<and> p' = p
        | Inr k \<Rightarrow> r = Inr () \<and> pool_get sl p' = (pool_get sl p)(k \<mapsto> tx) \<and> (0 < maxTx p \<longrightarrow> int (CountTx p') \<le> maxTx p'))"
  proof (cases "0 < maxTx p \<and> maxTx p \<le> int (CountTx p) \<or> maxTx p < 0 \<or> (\<exists>e. sender_nonce addr tx = Inl e)")
    case True
    then show ?thesis using assms(2) by (auto simp: snm_Insert_def)
  next
    case False
    then obtain k where k: "sender_nonce addr tx = Inr k" by (cases "sender_nonce addr tx") auto
    have "CountTx (snd (snm_Insert sl addr tx p)) \<le> Suc (CountTx p)"
      using kv_set_length by (auto simp: snm_Insert_def CountTx_def Let_def split: sum.splits)
    with pool_insert[OF assms k] False k show ?thesis by auto
  qed
next
  show "case snm_Remove sl addr tx p of (r, p') \<Rightarrow> pool_ok sl p' \<and> (case sender_nonce addr tx of Inl e \<Rightarrow> r = Inl e \<and> p' = p
        | Inr k \<Rightarrow> r = (if pool_get sl p k = None then Inl ErrTxNotFound else Inr ()) \<and> pool_get sl p' = (pool_get sl p)(k := None))"
  proof (cases "sender_nonce addr tx")
    case (Inl e)
    then show ?thesis using assms(2) by (simp add: snm_Remove_def)
  next
    case (Inr k)
    show ?thesis using pool_remove[OF assms Inr] Inr assms(2) by (auto simp: fun_upd_idem split: if_splits)
  qed
qed

definition sample_signed :: "unit sdk_Tx" where
  "sample_signed = \<lparr>GetMsgs = [()], GetGas = 1, GetFee = [], FeePayer = [2], FeeGranter = [], GetMemo = [], GetTimeoutHeight = 0, GetSigners = Inr [[2]],
     GetPubKeys = Inr [Some [2]], GetSignaturesV2 = Inr [\<lparr>sig_PubKey = Some [2], sig_Data = SingleSignatureData True [7], sig_Sequence = 5\<rparr>],
     GetExtensionOptions = [], Tx_ValidateBasic = Inr (), TxBytes_len = 180\<rparr>"

lemma snm_map_witness:
  "fst (snm_Insert list_api (\<lambda>_. ''a'') sample_signed \<lparr>snm_senders = [], maxTx = 2, existingTx = []\<rparr>) = Inr ()"
proof -
  let ?p = "\<lparr>snm_senders = [], maxTx = 2, existingTx = []\<rparr> :: (uint64 \<times> unit sdk_Tx) list SenderNonceMempool"
  have "CountTx ?p = 0" by (simp add: CountTx_def)
  moreover have "sender_nonce (\<lambda>_. ''a'') sample_signed = Inr (''a'', 5)" by (simp add: sender_nonce_def sample_signed_def)
  ultimately show ?thesis using conjunct1[OF snm_map[OF list_api_ok pool_ok_new[of list_api 2], where addr = "\<lambda>_. ''a''" and tx = sample_signed]] by (auto split: prod.splits)
qed

end
