(* ===== verification/Proposal.thy ===== *)
theory Proposal
  imports Mempool
begin

text \<open>
  The default proposal handlers of \<^verbatim>\<open>src/baseapp/abci_utils.go\<close>: \<open>PrepareProposal\<close> fills a block
  from the mempool, \<open>ProcessProposal\<close> checks a block. The verification of a transaction, a run of
  its ante handler on the state of the proposal, is a parameter. A transaction that fails is
  removed from the mempool while it is the current one of the iteration, which leaves the
  elements after it in place.
\<close>

section \<open>Preparing a proposal\<close>

text \<open>One turn of the loop: nothing to do any more, or the bytes to select and their sum so far.\<close>

definition propose_tx ::
    "('tx \<Rightarrow> ('v, bytes) op) \<Rightarrow> ('tx \<Rightarrow> ('p, unit) op) \<Rightarrow> int64 \<Rightarrow> int64 \<Rightarrow> 'tx \<Rightarrow> ('v \<times> 'p, (bytes list \<times> int64) option) op" where
  "propose_tx verify remove maxTxBytes totalTxBytes memTx = (\<lambda>(v, p).
     case verify memTx v of
       (Inl (Panic m), v') \<Rightarrow> (Inl (Panic m), (v', p))
     | (Inl (Err m), v') \<Rightarrow>
         (case remove memTx p of
            (Inl e, p') \<Rightarrow>
              if e \<noteq> ErrTxNotFound then (Inl (Panic (case e of Err m \<Rightarrow> m | Panic m \<Rightarrow> m)), (v', p'))
              else (Inr (Some ([], totalTxBytes)), (v', p'))
          | (Inr _, p') \<Rightarrow> (Inr (Some ([], totalTxBytes)), (v', p')))
     | (Inr bz, v') \<Rightarrow>
         let totalTxBytes = totalTxBytes + of_nat (length bz) in
         if sint totalTxBytes \<le> sint maxTxBytes then (Inr (Some ([bz], totalTxBytes)), (v', p)) else (Inr None, (v', p)))"

function prepare_loop ::
    "('r \<Rightarrow> nat \<Rightarrow> nat \<times> 'r) \<Rightarrow> ('tx \<Rightarrow> ('v, bytes) op) \<Rightarrow> ('tx \<Rightarrow> ('p, unit) op) \<Rightarrow> int64 \<Rightarrow>
     ('r, 'tx) snm_iterator option \<Rightarrow> int64 \<Rightarrow> ('v \<times> 'p, bytes list) op" where
  "prepare_loop Intn verify remove maxTxBytes None totalTxBytes st = (Inr [], st)"
| "prepare_loop Intn verify remove maxTxBytes (Some i) totalTxBytes st =
     (case it_Tx i of
        Inl e \<Rightarrow> (Inl e, st)
      | Inr memTx \<Rightarrow>
          (case propose_tx verify remove maxTxBytes totalTxBytes memTx st of
             (Inl e, st) \<Rightarrow> (Inl e, st)
           | (Inr None, st) \<Rightarrow> (Inr [], st)
           | (Inr (Some (selected, totalTxBytes)), st) \<Rightarrow>
               (case it_Next Intn i of
                  Inl e \<Rightarrow> (Inl e, st)
                | Inr j \<Rightarrow>
                    (case prepare_loop Intn verify remove maxTxBytes j totalTxBytes st of
                       (Inl e, st) \<Rightarrow> (Inl e, st)
                     | (Inr txs, st) \<Rightarrow> (Inr (selected @ txs), st)))))"
  by pat_completeness auto
termination
proof (relation "measure (\<lambda>(_, _, _, _, i, _, _). case i of None \<Rightarrow> 0 | Some i \<Rightarrow> Suc (size (remaining i)))", goal_cases)
  case (2 Intn verify remove maxTxBytes i total st memTx r st' x sel total' xa)
  then show ?case by (auto split: option.split simp: it_Next_shrinks)
qed simp

definition PrepareProposal ::
    "('l, 'tx) skiplist_api \<Rightarrow> ('r \<Rightarrow> nat \<Rightarrow> nat \<times> 'r) \<Rightarrow> 'r \<Rightarrow> ('tx \<Rightarrow> ('v, bytes) op) \<Rightarrow> ('tx \<Rightarrow> ('l SenderNonceMempool, unit) op) \<Rightarrow> int64 \<Rightarrow>
     ('v \<times> 'l SenderNonceMempool, bytes list) op" where
  "PrepareProposal sl Intn rnd verify remove maxTxBytes = (\<lambda>(v, p).
     case snm_Select sl Intn rnd p of
       Inl e \<Rightarrow> (Inl e, (v, p))
     | Inr it \<Rightarrow> prepare_loop Intn verify remove maxTxBytes it 0 (v, p))"

text \<open>Without a mempool the transactions of the request are proposed.\<close>

definition NoOpPrepareProposal :: "bytes list \<Rightarrow> bytes list" where
  "NoOpPrepareProposal txs = txs"

definition ProcessProposal :: "(bytes \<Rightarrow> ('v, 'tx) op) \<Rightarrow> bytes list \<Rightarrow> ('v, bool) op" where
  "ProcessProposal verify txs s =
     (case for_op (\<lambda>b. seq_op (verify b) (ret_op ())) txs s of
        (Inl (Panic m), s') \<Rightarrow> (Inl (Panic m), s')
      | (Inl (Err m), s') \<Rightarrow> (Inr False, s')
      | (Inr _, s') \<Rightarrow> (Inr True, s'))"

section \<open>A proposal is always made and fits\<close>

text \<open>What the loop needs of the verification: it fails with errors, not panics, and no encoding is
  so long that the sum of the sizes wraps around.\<close>

definition verify_ok :: "('tx \<Rightarrow> ('v, bytes) op) \<Rightarrow> int64 \<Rightarrow> bool" where
  "verify_ok verify maxTxBytes \<longleftrightarrow> (\<forall>tx v. case fst (verify tx v) of
     Inl (Panic _) \<Rightarrow> False | Inl (Err _) \<Rightarrow> True | Inr bz \<Rightarrow> sint maxTxBytes + int (length bz) < 2 ^ 63)"

definition removable :: "('tx \<Rightarrow> ('p, unit) op) \<Rightarrow> 'tx \<Rightarrow> bool" where
  "removable remove tx \<longleftrightarrow> (\<forall>p. fst (remove tx p) \<in> {Inr (), Inl ErrTxNotFound})"

text \<open>The bytes of a selection, and that each of its elements was verified.\<close>

definition bytes_of :: "bytes list \<Rightarrow> int" where
  "bytes_of txs = sum_list (map (int \<circ> length) txs)"

definition verified :: "('tx \<Rightarrow> ('v, bytes) op) \<Rightarrow> 'tx set \<Rightarrow> bytes \<Rightarrow> bool" where
  "verified verify txs bz \<longleftrightarrow> (\<exists>tx\<in>txs. \<exists>v. fst (verify tx v) = Inr bz)"

lemma verified_mono: "A \<subseteq> B \<Longrightarrow> verified verify A bz \<Longrightarrow> verified verify B bz"
  by (auto simp: verified_def)

lemma bytes_of_nonneg: "0 \<le> bytes_of txs"
  unfolding bytes_of_def by (induction txs) auto

lemma propose_tx_ok:
  assumes "verify_ok verify m" and "removable remove tx" and t: "0 \<le> sint t" "sint t \<le> sint m"
  obtains (full) st' where "propose_tx verify remove m t tx st = (Inr None, st')"
    | (go) sel t' st' where "propose_tx verify remove m t tx st = (Inr (Some (sel, t')), st')" "sint t' = sint t + bytes_of sel"
      "sint t' \<le> sint m" "\<forall>bz\<in>set sel. verified verify {tx} bz"
proof -
  obtain v p where st: "st = (v, p)" by fastforce
  obtain r v' where r: "verify tx v = (r, v')" by fastforce
  have ok: "case r of Inl (Panic _) \<Rightarrow> False | Inl (Err _) \<Rightarrow> True | Inr bz \<Rightarrow> sint m + int (length bz) < 2 ^ 63"
    using assms(1) r unfolding verify_ok_def by (metis fst_conv)
  show thesis
  proof (cases r)
    case (Inl e)
    then obtain x where e: "e = Err x" using ok by (cases e) auto
    obtain q p' where q: "remove tx p = (q, p')" by fastforce
    then have "q \<in> {Inr (), Inl ErrTxNotFound}" using assms(2) unfolding removable_def by (metis fst_conv)
    then have "propose_tx verify remove m t tx st = (Inr (Some ([], t)), (v', p'))"
      using st r Inl e q by (auto simp: propose_tx_def)
    then show thesis using t by (intro go[of "[]" t]) (simp_all add: bytes_of_def)
  next
    case (Inr bz)
    let ?t = "t + of_nat (length bz)"
    have "sint (of_nat (length bz) :: int64) = int (length bz)" using Inr ok t by (simp add: signed_of_nat signed_take_bit_int_eq_self)
    moreover have "sint ?t = sint t + sint (of_nat (length bz) :: int64)"
      using calculation Inr ok t by (intro sint_add64) auto
    ultimately have s: "sint ?t = sint t + int (length bz)" by simp
    show thesis
    proof (cases "sint ?t \<le> sint m")
      case True
      then show thesis using st r Inr s by (intro go[of "[bz]" ?t "(v', p)"]) (auto simp: propose_tx_def bytes_of_def verified_def intro: exI[of _ v])
    next
      case False
      then show thesis using st r Inr by (intro full[of "(v', p)"]) (auto simp: propose_tx_def Let_def)
    qed
  qed
qed

lemma prepare_loop_ok:
  assumes rnd: "Intn_ok Intn" and ver: "verify_ok verify m"
  shows "it_ok i \<Longrightarrow> currentTx i = Some x \<Longrightarrow> \<forall>y\<in>insert x (set_mset (remaining i)). removable remove (snd y) \<Longrightarrow>
    0 \<le> sint t \<Longrightarrow> sint t \<le> sint m \<Longrightarrow>
    \<exists>sel st'. prepare_loop Intn verify remove m (Some i) t st = (Inr sel, st') \<and> sint t + bytes_of sel \<le> sint m
      \<and> (\<forall>bz\<in>set sel. verified verify (snd ` insert x (set_mset (remaining i))) bz)"
proof (induction "size (remaining i)" arbitrary: i x t st rule: less_induct)
  case less
  have tx: "it_Tx i = Inr (snd x)" using less.prems(2) by (cases x) (simp add: it_Tx_def)
  have rm: "removable remove (snd x)" using less.prems(3) by simp
  show ?case
  proof (cases rule: propose_tx_ok[OF ver rm less.prems(4,5), of st])
    case (1 st')
    then show ?thesis using tx less.prems(5) by (intro exI[of _ "[]"] exI[of _ st']) (simp add: bytes_of_def)
  next
    case (2 sel t' st')
    have t': "0 \<le> sint t'" using 2(2) less.prems(4) bytes_of_nonneg[of sel] by simp
    show ?thesis
    proof (cases "it_senders i = []")
      case True
      then have "it_Next Intn i = Inr None" by (simp add: it_Next.simps)
      then show ?thesis using 2 tx by (intro exI[of _ sel] exI[of _ st']) (auto simp: verified_def)
    next
      case False
      obtain j y s where j: "it_Next Intn i = Inr (Some j)" "currentTx j = Some y" "it_ok j" "remaining i = add_mset y (remaining j)"
        using it_Next_ok[OF rnd less.prems(1) False] by metis
      then obtain sel2 st2 where "prepare_loop Intn verify remove m (Some j) t' st' = (Inr sel2, st2)" "sint t' + bytes_of sel2 \<le> sint m"
        "\<forall>bz\<in>set sel2. verified verify (snd ` insert y (set_mset (remaining j))) bz"
        using less.hyps[OF _ j(3,2) _ t' 2(3), of st'] less.prems(3) by auto
      then show ?thesis using 2 tx j by (intro exI[of _ "sel @ sel2"] exI[of _ st2]) (auto simp: bytes_of_def verified_def)
    qed
  qed
qed

text \<open>The transactions of the mempool have a sender and a nonce, since \<open>Insert\<close> accepted them.\<close>

definition pool_txs :: "('l, 'tx) skiplist_api \<Rightarrow> 'l SenderNonceMempool \<Rightarrow> 'tx set" where
  "pool_txs sl p = {tx. \<exists>k. pool_get sl p k = Some tx}"

lemma sender_removable: "sender_nonce addr tx = Inr k \<Longrightarrow> removable (snm_Remove sl addr) tx"
  by (auto simp: removable_def snm_Remove_def split: prod.splits option.splits)

lemma new_iterator_txs: "pool_ok sl p \<Longrightarrow> snd ` set_mset (remaining (new_iterator sl rnd p)) \<subseteq> pool_txs sl p"
  using pool_get_front by (fastforce simp: new_iterator_ok(2) set_mset_sum_list pool_txs_def)

text \<open>C12: a proposal is always made and fits. With a consistent mempool and a verification that
  returns errors, \<open>PrepareProposal\<close> ends without a panic, whatever the generator draws and
  however many transactions fail and are removed on the way. The selected transactions were
  all verified, come from the mempool, and their sizes add up to at most \<open>MaxTxBytes\<close>.\<close>

theorem PrepareProposal_fits:
  assumes "Intn_ok Intn" and "pool_ok sl p" and "verify_ok verify maxTxBytes" and "0 \<le> sint maxTxBytes"
    and "\<forall>tx\<in>pool_txs sl p. \<exists>k. sender_nonce addr tx = Inr k"
  shows "\<exists>txs st'. PrepareProposal sl Intn rnd verify (snm_Remove sl addr) maxTxBytes (v, p) = (Inr txs, st')
    \<and> bytes_of txs \<le> sint maxTxBytes \<and> (\<forall>bz\<in>set txs. verified verify (pool_txs sl p) bz)"
proof -
  let ?i = "new_iterator sl rnd p" and ?rm = "snm_Remove sl addr"
  note i = new_iterator_ok(1)[OF assms(2), where rnd = rnd]
  show ?thesis
  proof (cases "it_senders ?i = []")
    case True
    then have "it_Next Intn ?i = Inr None" by (simp add: it_Next.simps)
    then show ?thesis using assms(4) by (simp add: PrepareProposal_def snm_Select_def bytes_of_def)
  next
    case False
    obtain j x s where j: "it_Next Intn ?i = Inr (Some j)" "currentTx j = Some x" "it_ok j" "remaining ?i = add_mset x (remaining j)"
      using it_Next_ok[OF assms(1) i False] by metis
    then have txs: "snd ` insert x (set_mset (remaining j)) \<subseteq> pool_txs sl p"
      using new_iterator_txs[OF assms(2), of rnd] by simp
    then have "\<forall>y\<in>insert x (set_mset (remaining j)). removable ?rm (snd y)"
      using assms(5) sender_removable by (meson image_subset_iff)
    from prepare_loop_ok[OF assms(1,3) j(3,2) this, of 0 "(v, p)"] assms(4) obtain sel st' where
      "prepare_loop Intn verify ?rm maxTxBytes (Some j) 0 (v, p) = (Inr sel, st')" "bytes_of sel \<le> sint maxTxBytes"
      "\<forall>bz\<in>set sel. verified verify (snd ` insert x (set_mset (remaining j))) bz" by auto
    moreover from this(3) have "\<forall>bz\<in>set sel. verified verify (pool_txs sl p) bz" using verified_mono[OF txs] by blast
    ultimately show ?thesis using j(1) by (simp add: PrepareProposal_def snm_Select_def)
  qed
qed

text \<open>A mempool with one transaction, which verifies to three bytes.\<close>

definition sample_full :: "(uint64 \<times> unit sdk_Tx) list SenderNonceMempool" where
  "sample_full = snd (snm_Insert list_api (\<lambda>_. ''a'') sample_signed \<lparr>snm_senders = [], maxTx = 0, existingTx = []\<rparr>)"

definition sample_verify :: "unit sdk_Tx \<Rightarrow> (unit, bytes) op" where
  "sample_verify tx v = (Inr [1, 2, 3], v)"

lemma PrepareProposal_fits_witness:
  "\<exists>txs st'. PrepareProposal list_api pick_first () sample_verify (snm_Remove list_api (\<lambda>_. ''a'')) 100 ((), sample_full) = (Inr txs, st') \<and> bytes_of txs \<le> 100"
proof -
  have sn: "sender_nonce (\<lambda>_. ''a'') sample_signed = Inr (''a'', 5)" by (simp add: sender_nonce_def sample_signed_def)
  obtain p where p: "snm_Insert list_api (\<lambda>_. ''a'') sample_signed \<lparr>snm_senders = [], maxTx = 0, existingTx = []\<rparr> = (Inr (), p)" "pool_ok list_api p"
    "pool_get list_api p = (pool_get list_api \<lparr>snm_senders = [], maxTx = 0, existingTx = []\<rparr>)((''a'', 5) \<mapsto> sample_signed)"
    using pool_insert[OF list_api_ok pool_ok_new[of list_api 0] sn] by auto
  have txs: "\<forall>tx\<in>pool_txs list_api sample_full. \<exists>k. sender_nonce (\<lambda>_. ''a'') tx = Inr k"
    using p(1,3) sn by (auto simp: pool_txs_def sample_full_def pool_get_new split: if_splits)
  have ok: "pool_ok list_api sample_full" using p(1,2) by (simp add: sample_full_def)
  have ver: "verify_ok sample_verify 100" by (simp add: verify_ok_def sample_verify_def)
  show ?thesis using PrepareProposal_fits[OF pick_first_ok ok ver _ txs, of "()" "()"] by auto
qed

end
