(* ===== verification/Spec2Isabelle.thy ===== *)
theory Spec2Isabelle
  imports PrefixKV PeriodicVesting TxFees Blocks Proposal
begin

text \<open>
  Verification of the transaction and ledger core of the Cosmos SDK, a framework in Go for
  replicated state machines: the numbers and coins, the stores, the accounts and the bank, the
  checks of transactions, and the runner that executes transactions in blocks.

  \<^bold>\<open>The program.\<close> A node decodes a transaction from bytes and runs it (\<^verbatim>\<open>src/baseapp/\<close>): the ante
  handler (\<^verbatim>\<open>src/x/auth/ante/\<close>) checks it, takes its fee, verifies signatures and raises sequences;
  the messages are handled on a branch of the store that is written only if all succeed; gas is
  metered on the way. The handlers call keepers: the account keeper (\<^verbatim>\<open>src/x/auth/keeper/\<close>) and the
  bank keeper (\<^verbatim>\<open>src/x/bank/keeper/\<close>), which store accounts and balances in typed collections
  (\<^verbatim>\<open>src/collections/\<close>) over layered key-value stores (\<^verbatim>\<open>src/store/\<close>), and compute with coin sets
  (\<^verbatim>\<open>src/types/\<close>) over bounded integers and decimals (\<^verbatim>\<open>src/math/\<close>). Transactions that wait are kept
  in a mempool (\<^verbatim>\<open>src/types/mempool/\<close>), from which a proposer fills a block.

  \<^bold>\<open>How code is represented.\<close> A function that can fail returns \<open>error + 'a\<close>, with returned errors
  and panics as different errors. A method that reads and writes stores is an operation
  \<open>'s \<Rightarrow> 'a res \<times> 's\<close> that also returns the state when it fails. A Go \<open>uint64\<close> or \<open>int64\<close> is a 64-bit
  word that wraps around; a \<open>big.Int\<close> is an \<open>int\<close> under the checks of the code. Keeper states are
  records that extend each other: \<open>auth_state\<close>, \<open>bank_state\<close>, \<open>ante_state\<close>. What the code takes from
  elsewhere (decoders of addresses, verification of a signature, decoding of keys, fee grants,
  skip lists, random numbers, the options of an application) is a field of an environment
  record or an argument.

  \<^bold>\<open>Theories.\<close>
  \<^item> \<open>Prelude\<close>, \<open>KVMap\<close>, \<open>Evolution\<close>: results and operations; ordered maps with the locale
    \<open>ordered_store\<close>; the locale \<open>evolution\<close> for facts that compose over operations.
  \<^item> \<open>MathInt\<close>, \<open>MathDec\<close> (\<^verbatim>\<open>src/math/int.go\<close>, \<^verbatim>\<open>src/math/dec.go\<close>): checked arithmetic (locale
    \<open>checked_arith\<close>), and what each rounding returns against the exact rational result.
  \<^item> \<open>CoinSet\<close>, \<open>Coins\<close>, \<open>DecCoins\<close> (\<^verbatim>\<open>src/types/coin.go\<close>, \<^verbatim>\<open>src/types/dec_coin.go\<close>): the algebra of
    coin sets, denomination by denomination (locale \<open>coin_set\<close>, interpreted for both kinds).
  \<^item> \<open>Codec\<close>, \<open>Collections\<close> (\<^verbatim>\<open>src/collections/\<close>, \<^verbatim>\<open>src/store/types/utils.go\<close>): key codecs (locale
    \<open>key_codec\<close>), ranges of prefixes, and indexed maps (locale \<open>map_index\<close>).
  \<^item> \<open>CacheKV\<close>, \<open>CacheRefine\<close>, \<open>GasKV\<close>, \<open>PrefixKV\<close> (\<^verbatim>\<open>src/store/cachekv/\<close>, \<^verbatim>\<open>src/store/gaskv/\<close>,
    \<^verbatim>\<open>src/store/types/gas.go\<close>, \<^verbatim>\<open>src/store/prefix/\<close>): each layer of stores simulates the store below
    it for every sequence of calls, with its cost and its isolation.
  \<^item> \<open>Accounts\<close>, \<open>Vesting\<close>, \<open>Auth\<close>, \<open>AccountFrame\<close> (\<^verbatim>\<open>src/x/auth/types/\<close>, \<^verbatim>\<open>src/x/auth/vesting/\<close>,
    \<^verbatim>\<open>src/x/auth/keeper/\<close>): accounts, the four vesting schedules (locale \<open>vesting_schedule\<close>), the
    account keeper, and what no bank operation does to an account.
  \<^item> \<open>Bank\<close>, \<open>BankLedger\<close>, \<open>BankInv\<close>, \<open>BankDelegation\<close>, \<open>VestingMsg\<close>, \<open>BankSystem\<close>, \<open>BankQueries\<close>
    (\<^verbatim>\<open>src/x/bank/keeper/\<close>, \<^verbatim>\<open>src/x/auth/vesting/msg_server.go\<close>): the keeper and the message servers;
    the keeper as a ledger; the invariant that the supply is the sum of the balances and that
    locked coins are covered; every call keeps it; what the queries report.
  \<^item> \<open>Ante\<close>, \<open>AnteFrame\<close>, \<open>TxFees\<close> (\<^verbatim>\<open>src/x/auth/ante/\<close>): the ante handler with its decorators in the
    order of \<open>NewAnteHandler\<close>, what acceptance implies, and the floor on fees.
  \<^item> \<open>BaseApp\<close>, \<open>Abci\<close> (\<^verbatim>\<open>src/baseapp/baseapp.go\<close>, \<^verbatim>\<open>src/baseapp/abci.go\<close>): \<open>runTx\<close> in all modes, for any
    store and handlers, and the calls of the consensus engine.
  \<^item> \<open>Chain\<close>, \<open>Blocks\<close> and this theory: the chain as a state machine with its reachable states; an
    application in blocks that implements it; the safety of what it commits.
  \<^item> \<open>Mempool\<close>, \<open>Proposal\<close> (\<^verbatim>\<open>src/types/mempool/sender_nonce.go\<close>, \<^verbatim>\<open>src/baseapp/abci_utils.go\<close>): the
    mempool as a map with an order of iteration, and the proposals made from it.
  \<^item> \<open>BankSample\<close>, \<open>AnteSample\<close>, \<open>PeriodicVesting\<close>: a small ledger and concrete runs on it.

  \<^bold>\<open>What the theorems show.\<close> Transactions are atomic and charge block gas once. The ledger is
  safe in every reachable state and in every committed store, and its supply changes by
  minting and burning only. An accepted transaction is signed by its signers for this chain and
  cannot be replayed. Checks and simulations do not influence what is committed. Transfers,
  queries, delegations and vesting compute exactly the documented amounts. Caches, gas meters
  and prefixes are transparent. Iterations end; proposals are made and fit. Arithmetic is exact
  or rounds as documented, and fails exactly when a result is out of range. Some theorems show
  where the code differs from its documentation.

  \<^bold>\<open>Bounds.\<close> No definition uses fuel: loops that are not structural have termination proofs. The
  Newton iteration of \<open>ApproxRoot\<close> carries the bound of 300 steps that the code has. The theorem
  on replays allows fewer than \<open>2 ^ 64 - 1\<close> transactions in between, when sequences wrap around.
  Hypotheses on coins are those that decoding ensures: amounts of at most 256 bits.

  \<^bold>\<open>Not modelled.\<close> The merkle tree (iavl) and its persistence, pruning, snapshots and streaming: a
  committed store is its contents. Serialization, text and JSON forms, generated code: the model
  works on decoded values. Cryptography and sign bytes are parameters. Command line, servers
  and wiring do input and output. Events, logs and telemetry are left out, as they do not
  influence the state; mutexes, because the modelled calls are made one at a time. Vote
  extensions, the queries over the network, genesis import and export, the priority mempool, the
  denomination metadata of the bank and the other modules (staking, governance and so on) are
  left out; the calls these modules make to the bank are modelled.
\<close>

section \<open>The committed ledger\<close>


lemma minting_blocks:
  "fst (run_blocks (bank_app sample_ante_env sample_dec [CallMint ''mint'' [coin ''stake'' 5]] [] (\<lambda>_. None)) sample_reqs sample_app) = Inr ()"
  by code_simp


end
